(* ===== verification/Prelude.thy ===== *)
theory Prelude
  imports Main "HOL-Library.Word"
begin

unbundle bit_operations_syntax

text \<open>
  Shared vocabulary of the development: the C integer types as fixed-width words, byte
  sequences, and the lemmas on lists and words that several components use.

  \<^item> \<open>u8\<close>, \<open>u16\<close>, \<open>u32\<close>, \<open>u64\<close> are the C types of the same names; \<open>+\<close>, \<open>-\<close> and
    \<open>*\<close> wrap as they do in C.
  \<^item> \<open>bytes\<close> is a buffer: the memory a pointer designates, from the pointer on.
  \<^item> \<open>blit\<close> is \<open>memcpy\<close> into a buffer at an offset.
\<close>

section \<open>Types\<close>

type_synonym u8 = "8 word"
type_synonym u16 = "16 word"
type_synonym u32 = "32 word"
type_synonym u64 = "64 word"
type_synonym bytes = "u8 list"

section \<open>Collections of lemmas\<close>

named_theorems bit_lems \<open>bit-level facts used to evaluate masks and shifts\<close>
named_theorems list_lems \<open>facts on slices and updates of buffers\<close>

section \<open>Buffers\<close>

text \<open>\<open>memcpy (dst + off, src, length src)\<close>, for a destination that is long enough.\<close>

definition blit :: "'a list \<Rightarrow> nat \<Rightarrow> 'a list \<Rightarrow> 'a list" where
  "blit dst off src = take off dst @ src @ drop (off + length src) dst"

definition sub_list :: "'a list \<Rightarrow> nat \<Rightarrow> nat \<Rightarrow> 'a list" where
  "sub_list xs off n = take n (drop off xs)"

lemma length_blit [simp, list_lems]:
  "off + length src \<le> length dst \<Longrightarrow> length (blit dst off src) = length dst"
  by (simp add: blit_def)

lemma length_sub_list [simp, list_lems]:
  "off + n \<le> length xs \<Longrightarrow> length (sub_list xs off n) = n"
  by (simp add: sub_list_def)

lemma sub_list_blit_same [simp, list_lems]:
  "off + length src \<le> length dst \<Longrightarrow> sub_list (blit dst off src) off (length src) = src"
  by (simp add: blit_def sub_list_def)

lemma nth_blit:
  assumes "off + length src \<le> length dst" "i < length dst"
  shows "blit dst off src ! i =
    (if off \<le> i \<and> i < off + length src then src ! (i - off) else dst ! i)"
  using assms by (auto simp: blit_def nth_append not_less min_def)

lemma blit_Nil [simp, list_lems]: "blit dst off [] = dst"
  by (simp add: blit_def)

lemma take_blit [list_lems]:
  "off + length src \<le> length dst \<Longrightarrow>
   take (off + length src) (blit dst off src) = take off dst @ src"
  by (simp add: blit_def)

lemma drop_blit [list_lems]:
  "off + length src \<le> length dst \<Longrightarrow>
   drop (off + length src) (blit dst off src) = drop (off + length src) dst"
  by (simp add: blit_def)

lemma nth_update_if [list_lems]:
  "j < length xs \<Longrightarrow> xs[i := y] ! j = (if i = j then y else xs ! j)"
  by (simp add: nth_list_update)

section \<open>Big-endian fields\<close>

text \<open>The machine is big-endian: how a 16- or 32-bit field of a structure reads its bytes.\<close>

definition be16 :: "bytes \<Rightarrow> nat \<Rightarrow> u16" where
  "be16 b i = push_bit 8 (ucast (b ! i)) OR ucast (b ! (i + 1))"

definition be32 :: "bytes \<Rightarrow> nat \<Rightarrow> u32" where
  "be32 b i = push_bit 24 (ucast (b ! i)) OR push_bit 16 (ucast (b ! (i + 1))) OR
     push_bit 8 (ucast (b ! (i + 2))) OR ucast (b ! (i + 3))"

definition of_be :: "bytes \<Rightarrow> 'a::len word" where
  "of_be bs = foldl (\<lambda>a b. push_bit 8 a OR ucast b) 0 bs"

definition be_bytes :: "nat \<Rightarrow> 'a::len word \<Rightarrow> bytes" where
  "be_bytes n x = map (\<lambda>i. ucast (drop_bit (8 * (n - 1 - i)) x)) [0..<n]"

lemma bit_of_be:
  "bit (of_be bs :: 'a::len word) n \<longleftrightarrow> n < LENGTH('a) \<and> n div 8 < length bs \<and> bit (rev bs ! (n div 8)) (n mod 8)"
proof (induction bs arbitrary: n rule: rev_induct)
  case Nil
  then show ?case by (simp add: of_be_def)
next
  case (snoc b bs)
  have s: "(of_be (bs @ [b]) :: 'a word) = push_bit 8 (of_be bs) OR ucast b" by (simp add: of_be_def)
  show ?case
  proof (cases "n < 8")
    case True
    then show ?thesis unfolding s by (auto simp: bit_simps)
  next
    case False
    then obtain m where m: "n = m + 8" by (metis add.commute le_Suc_ex not_less)
    have "\<not> bit b n" using False bit_imp_le_length [of b n] by auto
    moreover have "n div 8 = Suc (m div 8)" "n mod 8 = m mod 8" unfolding m by simp_all
    ultimately show ?thesis unfolding s using snoc.IH [of m] m by (auto simp: bit_simps)
  qed
qed

lemma bit_be_bytes: "i < n \<Longrightarrow> k < 8 \<Longrightarrow> bit (be_bytes n x ! i) k \<longleftrightarrow> bit x (8 * (n - 1 - i) + k)"
  by (auto simp: be_bytes_def bit_simps)

lemma length_be_bytes [simp]: "length (be_bytes n x) = n"
  by (simp add: be_bytes_def)

section \<open>Words\<close>

lemma unat_u32_less: "unat (x :: u32) < 4294967296"
  using unsigned_less [of x] by simp

lemma unat_u64_less: "unat (x :: u64) < 18446744073709551616"
  using unsigned_less [of x] by simp

lemma unat_add_no_wrap_u32:
  "unat (a :: u32) + unat b < 4294967296 \<Longrightarrow> unat (a + b) = unat a + unat b"
  by (simp add: unat_word_ariths)

lemma unat_drop_bit_div [bit_lems]: "unat (drop_bit k w) = unat w div 2 ^ k" for w :: "'a::len word"
  unfolding unat_drop_bit_eq by (rule drop_bit_eq_div)

lemma word_and_less_mask:
  "unat (x AND mask n :: 'a::len word) < 2 ^ n"
  by (simp add: unsigned_take_bit_eq flip: take_bit_eq_mask)

lemma word_and_not_minus: "f AND NOT m = f - (f AND m)" for f m :: "'a::len word"
proof -
  have "f - (f AND m) = f AND NOT (f AND m)"
    by (rule disjunctive_diff_eq_and_not) (rule bit_eqI, auto simp: bit_simps)
  also have "\<dots> = f AND NOT m"
    by (rule bit_eqI) (auto simp: bit_simps)
  finally show ?thesis by simp
qed

lemma unat_and_mask: "unat (f AND mask n) = unat f mod 2 ^ n" for f :: "'a::len word"
proof -
  have "unat (f AND mask n) = take_bit n (unat f)"
    by (simp only: unsigned_take_bit_eq flip: take_bit_eq_mask)
  then show ?thesis by (simp add: take_bit_eq_mod)
qed

lemma unat_and_not_mask: "unat (f AND NOT (mask n)) = unat f - unat f mod 2 ^ n" for f :: "'a::len word"
proof -
  have "f AND mask n \<le> f" by (simp add: word_le_nat_alt unat_and_mask)
  then show ?thesis by (simp add: word_and_not_minus unat_sub unat_and_mask)
qed

end
