(* ===== verification/Checksums.thy ===== *)
theory Checksums
  imports Prelude
begin

text \<open>
  The two CRC-32 routines of the loader: \<open>csp_crc32_memory\<close> (crc32.c, a 256-entry table,
  Castagnoli polynomial) and \<open>tinf_crc32\<close> (tinf_crc32.c, a 16-entry table, IEEE
  polynomial). Both identify IPL images, and \<open>tinf_crc32\<close> also keys the banner cache.
  Both tables are transcribed from the source; the theorems show that the table-driven
  loops compute the bit-serial CRC of their polynomial, for every input.
\<close>

section \<open>The source's routines\<close>

definition crc_tab :: "u32 list" where
  "crc_tab =
    [0x00000000, 0xf26b8303, 0xe13b70f7, 0x1350f3f4, 0xc79a971f, 0x35f1141c, 0x26a1e7e8, 0xd4ca64eb,
     0x8ad958cf, 0x78b2dbcc, 0x6be22838, 0x9989ab3b, 0x4d43cfd0, 0xbf284cd3, 0xac78bf27, 0x5e133c24,
     0x105ec76f, 0xe235446c, 0xf165b798, 0x030e349b, 0xd7c45070, 0x25afd373, 0x36ff2087, 0xc494a384,
     0x9a879fa0, 0x68ec1ca3, 0x7bbcef57, 0x89d76c54, 0x5d1d08bf, 0xaf768bbc, 0xbc267848, 0x4e4dfb4b,
     0x20bd8ede, 0xd2d60ddd, 0xc186fe29, 0x33ed7d2a, 0xe72719c1, 0x154c9ac2, 0x061c6936, 0xf477ea35,
     0xaa64d611, 0x580f5512, 0x4b5fa6e6, 0xb93425e5, 0x6dfe410e, 0x9f95c20d, 0x8cc531f9, 0x7eaeb2fa,
     0x30e349b1, 0xc288cab2, 0xd1d83946, 0x23b3ba45, 0xf779deae, 0x05125dad, 0x1642ae59, 0xe4292d5a,
     0xba3a117e, 0x4851927d, 0x5b016189, 0xa96ae28a, 0x7da08661, 0x8fcb0562, 0x9c9bf696, 0x6ef07595,
     0x417b1dbc, 0xb3109ebf, 0xa0406d4b, 0x522bee48, 0x86e18aa3, 0x748a09a0, 0x67dafa54, 0x95b17957,
     0xcba24573, 0x39c9c670, 0x2a993584, 0xd8f2b687, 0x0c38d26c, 0xfe53516f, 0xed03a29b, 0x1f682198,
     0x5125dad3, 0xa34e59d0, 0xb01eaa24, 0x42752927, 0x96bf4dcc, 0x64d4cecf, 0x77843d3b, 0x85efbe38,
     0xdbfc821c, 0x2997011f, 0x3ac7f2eb, 0xc8ac71e8, 0x1c661503, 0xee0d9600, 0xfd5d65f4, 0x0f36e6f7,
     0x61c69362, 0x93ad1061, 0x80fde395, 0x72966096, 0xa65c047d, 0x5437877e, 0x4767748a, 0xb50cf789,
     0xeb1fcbad, 0x197448ae, 0x0a24bb5a, 0xf84f3859, 0x2c855cb2, 0xdeeedfb1, 0xcdbe2c45, 0x3fd5af46,
     0x7198540d, 0x83f3d70e, 0x90a324fa, 0x62c8a7f9, 0xb602c312, 0x44694011, 0x5739b3e5, 0xa55230e6,
     0xfb410cc2, 0x092a8fc1, 0x1a7a7c35, 0xe811ff36, 0x3cdb9bdd, 0xceb018de, 0xdde0eb2a, 0x2f8b6829,
     0x82f63b78, 0x709db87b, 0x63cd4b8f, 0x91a6c88c, 0x456cac67, 0xb7072f64, 0xa457dc90, 0x563c5f93,
     0x082f63b7, 0xfa44e0b4, 0xe9141340, 0x1b7f9043, 0xcfb5f4a8, 0x3dde77ab, 0x2e8e845f, 0xdce5075c,
     0x92a8fc17, 0x60c37f14, 0x73938ce0, 0x81f80fe3, 0x55326b08, 0xa759e80b, 0xb4091bff, 0x466298fc,
     0x1871a4d8, 0xea1a27db, 0xf94ad42f, 0x0b21572c, 0xdfeb33c7, 0x2d80b0c4, 0x3ed04330, 0xccbbc033,
     0xa24bb5a6, 0x502036a5, 0x4370c551, 0xb11b4652, 0x65d122b9, 0x97baa1ba, 0x84ea524e, 0x7681d14d,
     0x2892ed69, 0xdaf96e6a, 0xc9a99d9e, 0x3bc21e9d, 0xef087a76, 0x1d63f975, 0x0e330a81, 0xfc588982,
     0xb21572c9, 0x407ef1ca, 0x532e023e, 0xa145813d, 0x758fe5d6, 0x87e466d5, 0x94b49521, 0x66df1622,
     0x38cc2a06, 0xcaa7a905, 0xd9f75af1, 0x2b9cd9f2, 0xff56bd19, 0x0d3d3e1a, 0x1e6dcdee, 0xec064eed,
     0xc38d26c4, 0x31e6a5c7, 0x22b65633, 0xd0ddd530, 0x0417b1db, 0xf67c32d8, 0xe52cc12c, 0x1747422f,
     0x49547e0b, 0xbb3ffd08, 0xa86f0efc, 0x5a048dff, 0x8ecee914, 0x7ca56a17, 0x6ff599e3, 0x9d9e1ae0,
     0xd3d3e1ab, 0x21b862a8, 0x32e8915c, 0xc083125f, 0x144976b4, 0xe622f5b7, 0xf5720643, 0x07198540,
     0x590ab964, 0xab613a67, 0xb831c993, 0x4a5a4a90, 0x9e902e7b, 0x6cfbad78, 0x7fab5e8c, 0x8dc0dd8f,
     0xe330a81a, 0x115b2b19, 0x020bd8ed, 0xf0605bee, 0x24aa3f05, 0xd6c1bc06, 0xc5914ff2, 0x37faccf1,
     0x69e9f0d5, 0x9b8273d6, 0x88d28022, 0x7ab90321, 0xae7367ca, 0x5c18e4c9, 0x4f48173d, 0xbd23943e,
     0xf36e6f75, 0x0105ec76, 0x12551f82, 0xe03e9c81, 0x34f4f86a, 0xc69f7b69, 0xd5cf889d, 0x27a40b9e,
     0x79b737ba, 0x8bdcb4b9, 0x988c474d, 0x6ae7c44e, 0xbe2da0a5, 0x4c4623a6, 0x5f16d052, 0xad7d5351]"

definition csp_crc32_step :: "u32 \<Rightarrow> u8 \<Rightarrow> u32" where
  "csp_crc32_step crc b = (crc_tab ! unat ((crc XOR ucast b) AND 0xFF)) XOR (drop_bit 8 crc)"

definition csp_crc32_memory :: "bytes \<Rightarrow> u32 \<Rightarrow> u32" where
  "csp_crc32_memory data len =
     foldl csp_crc32_step 0xFFFFFFFF (take (unat len) data) XOR 0xFFFFFFFF"

definition tinf_crc32tab :: "u32 list" where
  "tinf_crc32tab =
    [0x00000000, 0x1db71064, 0x3b6e20c8, 0x26d930ac, 0x76dc4190, 0x6b6b51f4, 0x4db26158, 0x5005713c,
     0xedb88320, 0xf00f9344, 0xd6d6a3e8, 0xcb61b38c, 0x9b64c2b0, 0x86d3d2d4, 0xa00ae278, 0xbdbdf21c]"

definition tinf_crc32_nibble :: "u32 \<Rightarrow> u32" where
  "tinf_crc32_nibble crc = (tinf_crc32tab ! unat (crc AND 0x0F)) XOR drop_bit 4 crc"

definition tinf_crc32_step :: "u32 \<Rightarrow> u8 \<Rightarrow> u32" where
  "tinf_crc32_step crc b = tinf_crc32_nibble (tinf_crc32_nibble (crc XOR ucast b))"

definition tinf_crc32 :: "bytes \<Rightarrow> u32 \<Rightarrow> u32" where
  "tinf_crc32 data len =
     (if len = 0 then 0
      else foldl tinf_crc32_step 0xFFFFFFFF (take (unat len) data) XOR 0xFFFFFFFF)"

section \<open>The bit-serial specification\<close>

definition crc_bit :: "u32 \<Rightarrow> u32 \<Rightarrow> u32" where
  "crc_bit poly c = (if bit c 0 then drop_bit 1 c XOR poly else drop_bit 1 c)"

definition crc_byte :: "u32 \<Rightarrow> u32 \<Rightarrow> u8 \<Rightarrow> u32" where
  "crc_byte poly c b = (crc_bit poly ^^ 8) (c XOR ucast b)"

definition crc_spec :: "u32 \<Rightarrow> bytes \<Rightarrow> u32" where
  "crc_spec poly bs = foldl (crc_byte poly) 0xFFFFFFFF bs XOR 0xFFFFFFFF"

abbreviation crc32c_poly :: u32 where "crc32c_poly \<equiv> 0x82F63B78"
abbreviation crc32_poly :: u32 where "crc32_poly \<equiv> 0xEDB88320"

section \<open>Linearity of the bit-serial step\<close>

lemma crc_bit_xor: "crc_bit p (a XOR b) = crc_bit p a XOR crc_bit p b"
  by (auto simp: crc_bit_def bit_simps xor.assoc xor.left_commute xor.commute)

lemma crc_bits_xor: "(crc_bit p ^^ n) (a XOR b) = (crc_bit p ^^ n) a XOR (crc_bit p ^^ n) b"
  by (induction n) (simp_all add: crc_bit_xor)

lemma crc_bits_low_clear:
  "take_bit n c = 0 \<Longrightarrow> (crc_bit p ^^ n) c = drop_bit n c"
proof (induction n arbitrary: c)
  case 0
  then show ?case by simp
next
  case (Suc n)
  have b0: "\<not> bit c 0"
    using Suc.prems bit_take_bit_iff [of "Suc n" c 0] by simp
  have "take_bit n (drop_bit 1 c) = drop_bit 1 (take_bit (Suc n) c)"
    by (rule bit_eqI) (auto simp: bit_simps)
  with Suc.prems have "take_bit n (drop_bit 1 c) = 0" by simp
  then have "(crc_bit p ^^ n) (drop_bit 1 c) = drop_bit n (drop_bit 1 c)" by (rule Suc.IH)
  moreover have "crc_bit p c = drop_bit 1 c" using b0 by (simp add: crc_bit_def)
  ultimately show ?case by (simp del: funpow.simps add: funpow_Suc_right)
qed

lemma crc_bits_split:
  "(crc_bit p ^^ n) c = (crc_bit p ^^ n) (take_bit n c) XOR drop_bit n c"
proof -
  define h where "h = push_bit n (drop_bit n c)"
  have c: "c = take_bit n c XOR h"
    unfolding h_def by (rule bit_eqI) (auto simp: bit_simps)
  have "take_bit n h = 0" unfolding h_def by (simp add: take_bit_push_bit)
  then have "(crc_bit p ^^ n) h = drop_bit n h" by (rule crc_bits_low_clear)
  also have "\<dots> = drop_bit n c"
    unfolding h_def by (rule bit_eqI) (auto simp: bit_simps dest: bit_imp_le_length)
  finally have "(crc_bit p ^^ n) h = drop_bit n c" .
  then show ?thesis by (subst c) (simp only: crc_bits_xor)
qed

section \<open>The tables hold the bit-serial remainders\<close>

text \<open>
  The entries are recomputed on unbounded integers, where the kernel evaluates them fast,
  and carried over to words by \<open>uint\<close>.
\<close>

definition crc_bit_int :: "int \<Rightarrow> int \<Rightarrow> int" where
  "crc_bit_int p c = (if odd c then (c div 2) XOR p else c div 2)"

primrec crc_bits_int :: "int \<Rightarrow> nat \<Rightarrow> int \<Rightarrow> int" where
  "crc_bits_int p 0 c = c"
| "crc_bits_int p (Suc n) c = crc_bits_int p n (crc_bit_int p c)"

lemma uint_crc_bit: "uint (crc_bit p c) = crc_bit_int (uint p) (uint c)"
proof -
  have "odd (uint c) \<longleftrightarrow> bit c 0" 
    using bit_uint_iff [of c 0] by (simp add: bit_0)
  moreover have "uint (drop_bit 1 c) = uint c div 2"
    by (simp add: drop_bit_eq_div uint_div)
  moreover have "uint (drop_bit 1 c XOR p) = (uint c div 2) XOR uint p"
    using calculation(2) by (simp add: unsigned_xor_eq)
  ultimately show ?thesis by (simp add: crc_bit_def crc_bit_int_def)
qed

lemma uint_crc_bits: "uint ((crc_bit p ^^ n) c) = crc_bits_int (uint p) n (uint c)"
  by (induction n arbitrary: c) (simp_all add: uint_crc_bit funpow_swap1)

lemma crc_tab_int: "map uint crc_tab = map (crc_bits_int 0x82F63B78 8) [0..255]"
  by code_simp

lemma tinf_crc32tab_int: "map uint tinf_crc32tab = map (crc_bits_int 0xEDB88320 4) [0..15]"
  by code_simp

lemma table_entry:
  assumes "map uint tab = map (crc_bits_int (uint p) n) [0..m]" "uint (c :: u32) \<le> m"
  shows "tab ! unat c = (crc_bit p ^^ n) c"
proof -
  have len: "length tab = nat (m + 1)" using arg_cong [OF assms(1), of length] by simp
  have m: "int (unat c) \<le> m" using assms(2) by simp
  then have k: "unat c < length tab" unfolding len by linarith
  have "uint (tab ! unat c) = map (crc_bits_int (uint p) n) [0..m] ! unat c"
    using k by (simp flip: assms(1))
  also have "\<dots> = crc_bits_int (uint p) n (uint c)" using m k len by simp
  finally show ?thesis by (simp add: word_uint_eq_iff uint_crc_bits)
qed

lemma uint_take_bit_le: "uint (take_bit n c :: u32) \<le> 2 ^ n - 1"
  by (simp add: unsigned_take_bit_eq)

lemma crc_tab_nth: "crc_tab ! unat (c AND 0xFF) = (crc_bit crc32c_poly ^^ 8) (take_bit 8 c)"
proof -
  have m: "c AND 0xFF = take_bit 8 c" by (simp add: take_bit_eq_mask mask_eq_exp_minus_1)
  show ?thesis unfolding m
    using crc_tab_int uint_take_bit_le [of 8 c] by (intro table_entry [of _ _ _ 255]) simp_all
qed

lemma tinf_crc32tab_nth:
  "tinf_crc32tab ! unat (c AND 0x0F) = (crc_bit crc32_poly ^^ 4) (take_bit 4 c)"
proof -
  have m: "c AND 0x0F = take_bit 4 c" by (simp add: take_bit_eq_mask mask_eq_exp_minus_1)
  show ?thesis unfolding m
    using tinf_crc32tab_int uint_take_bit_le [of 4 c] by (intro table_entry [of _ _ _ 15]) simp_all
qed

lemma csp_crc32_step_spec: "csp_crc32_step c b = crc_byte crc32c_poly c b"
proof -
  have d: "drop_bit 8 (ucast b :: u32) = 0"
    by (rule bit_eqI) (auto simp: bit_simps dest: bit_imp_le_length)
  have "crc_byte crc32c_poly c b =
    (crc_bit crc32c_poly ^^ 8) (take_bit 8 (c XOR ucast b)) XOR drop_bit 8 (c XOR ucast b)"
    unfolding crc_byte_def by (rule crc_bits_split)
  then show ?thesis by (simp add: csp_crc32_step_def crc_tab_nth d)
qed

lemma tinf_crc32_nibble_spec: "tinf_crc32_nibble c = (crc_bit crc32_poly ^^ 4) c"
  unfolding tinf_crc32_nibble_def tinf_crc32tab_nth by (rule crc_bits_split [symmetric])

lemma tinf_crc32_step_spec: "tinf_crc32_step c b = crc_byte crc32_poly c b"
  by (simp add: tinf_crc32_step_def tinf_crc32_nibble_spec crc_byte_def funpow_add [symmetric]
      flip: comp_apply [of "crc_bit crc32_poly ^^ 4" "crc_bit crc32_poly ^^ 4"])

section \<open>Properties\<close>

text \<open>
  C4. for every buffer and every length, the table-driven loop of \<open>csp_crc32_memory\<close>
  returns the bit-serial CRC-32C (reflected polynomial 0x82F63B78, initial value and final
  complement 0xFFFFFFFF) of the first \<open>length\<close> bytes.
\<close>

theorem csp_crc32_memory_spec:
  "csp_crc32_memory data len = crc_spec crc32c_poly (take (unat len) data)"
  by (simp add: csp_crc32_memory_def crc_spec_def csp_crc32_step_spec [abs_def])

text \<open>
  C5. \<open>tinf_crc32\<close>, which consumes each byte as two table lookups on nibbles, returns the
  bit-serial CRC-32 (reflected polynomial 0xEDB88320) of the first \<open>length\<close> bytes; the
  early return for length 0 agrees with it.
\<close>

theorem tinf_crc32_spec:
  "tinf_crc32 data len = crc_spec crc32_poly (take (unat len) data)"
  by (simp add: tinf_crc32_def crc_spec_def tinf_crc32_step_spec [abs_def])

end
