(* ===== verification/DvmCache.thy ===== *)
theory DvmCache
  imports Prelude "HOL-Library.Monad_Syntax"
begin

text \<open>
  The LRU block cache between FatFs and the storage drivers (emu/ffs/dvm_cache.c).

  \<^item> The bookkeeping is kept at pointer level: \<open>dvm_entries\<close> is the static array, a pointer
    to an entry is its index, \<open>NULL\<close> is \<open>None\<close>, and the list runs through \<open>e_next\<close> and
    \<open>e_prev\<close>. Following \<open>NULL\<close> and running forever are both the result \<open>None\<close>.
  \<^item> Buffers are counted in 512-byte sectors: every transfer of the source is a whole
    number of them. A page holds \<open>DVM_PAGE_SECTORS\<close> = 4 sectors.
  \<^item> \<open>LBA_t\<close> is 64 bits wide (\<open>FF_LBA64\<close> is set), \<open>UINT\<close> is 32.
  \<^item> The number of pages (32 in cubeboot.dol, 192 in the IPL build) is the length of the
    array, so every result holds for both builds.
  \<^item> \<open>disk_read_raw\<close> and \<open>disk_write_raw\<close> are the fields of \<open>blk_ops\<close>; theory \<open>DiskIO\<close>
    supplies them.
\<close>

section \<open>State\<close>

type_synonym sector = bytes
type_synonym lba = u64

datatype dresult = RES_OK | RES_ERROR | RES_WRPRT | RES_NOTRDY | RES_PARERR

record 'd blk_ops =
  raw_read :: "'d \<Rightarrow> u8 \<Rightarrow> u32 \<Rightarrow> sector list \<Rightarrow> lba \<Rightarrow> u32 \<Rightarrow> dresult \<times> sector list \<times> 'd"
  raw_write :: "'d \<Rightarrow> u8 \<Rightarrow> u32 \<Rightarrow> sector list \<Rightarrow> lba \<Rightarrow> u32 \<Rightarrow> dresult \<times> 'd"

record dvm_cache_entry =
  e_next :: "nat option"
  e_prev :: "nat option"
  base_sector :: lba

record dvm =
  dvm_magic :: u32
  dvm_cache_data :: "sector list list"
  dvm_data_addr :: u32
  dvm_entries :: "dvm_cache_entry list"
  list_next :: "nat option"
  list_prev :: "nat option"
  dvm_owner_pdrv :: u8
  dvm_ready :: bool
  dvm_disabled :: bool

definition DVM_PAGE_SECTORS :: u32 where "DVM_PAGE_SECTORS = 4"
definition DVM_PAGE_SZ :: u32 where "DVM_PAGE_SZ = DVM_PAGE_SECTORS * 512"
definition DVM_EMPTY_PAGE :: lba where "DVM_EMPTY_PAGE = NOT 0"
definition DVM_MAGIC :: u32 where "DVM_MAGIC = 0x44564D31"

section \<open>Bookkeeping operations\<close>

definition reset_entry :: "nat \<Rightarrow> nat \<Rightarrow> dvm_cache_entry" where
  "reset_entry n i = \<lparr>e_next = (if i + 1 < n then Some (i + 1) else None),
     e_prev = (if i = 0 then None else Some (i - 1)), base_sector = DVM_EMPTY_PAGE\<rparr>"

definition dvm_cache_reset :: "dvm \<Rightarrow> dvm" where
  "dvm_cache_reset s =
     (let n = length (dvm_entries s)
      in s\<lparr>list_next := Some 0, list_prev := Some (n - 1),
           dvm_entries := map (reset_entry n) [0..<n],
           dvm_magic := DVM_MAGIC, dvm_ready := True\<rparr>)"

definition dvm_cache_invalidate :: "dvm \<Rightarrow> dvm" where
  "dvm_cache_invalidate s = dvm_cache_reset s"

definition dvm_cache_disable :: "dvm \<Rightarrow> dvm" where
  "dvm_cache_disable s = s\<lparr>dvm_disabled := True, dvm_ready := False\<rparr>"

definition dvm_cache_enable :: "dvm \<Rightarrow> dvm" where
  "dvm_cache_enable s = s\<lparr>dvm_disabled := False, dvm_ready := False\<rparr>"

definition dvm_cache_claim :: "dvm \<Rightarrow> u8 \<Rightarrow> dvm" where
  "dvm_cache_claim s pdrv =
     (if dvm_magic s \<noteq> DVM_MAGIC \<or> \<not> dvm_ready s \<or> pdrv \<noteq> dvm_owner_pdrv s
      then (dvm_cache_reset s)\<lparr>dvm_owner_pdrv := pdrv\<rparr> else s)"

definition dvm_entry_data :: "dvm \<Rightarrow> nat \<Rightarrow> u32" where
  "dvm_entry_data s i = dvm_data_addr s + of_nat i * DVM_PAGE_SZ"

definition dvm_is_aligned :: "u32 \<Rightarrow> bool" where
  "dvm_is_aligned ptr \<longleftrightarrow> ptr AND (32 - 1) = 0"

partial_function (option) dvm_search_from ::
    "dvm_cache_entry list \<Rightarrow> lba \<Rightarrow> nat option \<Rightarrow> lba \<Rightarrow> nat option \<Rightarrow> nat option option" where
  "dvm_search_from es page p min_sec ret =
     (case p of
        None \<Rightarrow> Some ret
      | Some i \<Rightarrow>
          (let b = base_sector (es ! i); nx = e_next (es ! i)
           in if b = DVM_EMPTY_PAGE then Some ret
              else if b = page then Some (Some i)
              else if b > page \<and> b < min_sec then dvm_search_from es page nx b (Some i)
              else dvm_search_from es page nx min_sec ret))"

definition dvm_cache_search :: "dvm \<Rightarrow> lba \<Rightarrow> nat option option" where
  "dvm_cache_search s page =
     dvm_search_from (dvm_entries s) page (list_next s) DVM_EMPTY_PAGE None"

definition set_next :: "dvm_cache_entry list \<Rightarrow> nat \<Rightarrow> nat option \<Rightarrow> dvm_cache_entry list" where
  "set_next es i q = es[i := (es ! i)\<lparr>e_next := q\<rparr>]"

definition set_prev :: "dvm_cache_entry list \<Rightarrow> nat \<Rightarrow> nat option \<Rightarrow> dvm_cache_entry list" where
  "set_prev es i q = es[i := (es ! i)\<lparr>e_prev := q\<rparr>]"

definition set_base :: "dvm \<Rightarrow> nat \<Rightarrow> lba \<Rightarrow> dvm" where
  "set_base s i b = s\<lparr>dvm_entries := (dvm_entries s)[i := (dvm_entries s ! i)\<lparr>base_sector := b\<rparr>]\<rparr>"

definition dvm_cache_promote :: "dvm \<Rightarrow> nat \<Rightarrow> dvm option" where
  "dvm_cache_promote s i =
     (if Some i = list_next s then Some s
      else do {
        let es = dvm_entries s;
        let nx = e_next (es ! i);
        q \<leftarrow> e_prev (es ! i);
        let es = set_next es q nx;
        let (es, lp) = (case nx of Some r \<Rightarrow> (set_prev es r (Some q), list_prev s)
                                 | None \<Rightarrow> (es, Some q));
        let es = set_next es i (list_next s);
        h \<leftarrow> list_next s;
        let es = set_prev es h (Some i);
        let es = set_prev es i None;
        Some (s\<lparr>dvm_entries := es, list_next := Some i, list_prev := lp\<rparr>)
      })"

partial_function (option) dvm_evict_from :: "dvm_cache_entry list \<Rightarrow> nat \<Rightarrow> nat option" where
  "dvm_evict_from es i =
     (if base_sector (es ! i) = DVM_EMPTY_PAGE
      then (case e_prev (es ! i) of
              None \<Rightarrow> Some i
            | Some j \<Rightarrow> if base_sector (es ! j) = DVM_EMPTY_PAGE then dvm_evict_from es j
                        else Some i)
      else Some i)"

definition dvm_cache_evict :: "dvm \<Rightarrow> nat option" where
  "dvm_cache_evict s = do { i \<leftarrow> list_prev s; dvm_evict_from (dvm_entries s) i }"

section \<open>The transfer loop\<close>

record dvm_req =
  rq_pdrv :: u8
  rq_ptr :: u32
  rq_first :: lba
  rq_count :: u32
  rq_write :: bool

record 'd acc =
  a_dvm :: dvm
  a_dev :: 'd
  a_buf :: "sector list"
  a_pos :: nat
  a_first :: lba
  a_num :: u32
  a_p :: "nat option"
  a_sbase :: lba

type_synonym 'd acc_result = "dresult \<times> sector list \<times> dvm \<times> 'd"

text \<open>\<open>buffer += \<dots>; first_sector += \<dots>; num_sectors -= \<dots>\<close> at the end of an iteration.\<close>

definition advance :: "'d acc \<Rightarrow> u32 \<Rightarrow> 'd acc" where
  "advance st cur = st\<lparr>a_pos := a_pos st + unat cur, a_first := a_first st + ucast cur,
                       a_num := a_num st - cur\<rparr>"

definition cur_page_sector :: "lba \<Rightarrow> lba" where
  "cur_page_sector first = first AND NOT (ucast (DVM_PAGE_SECTORS - 1))"

definition cur_page_offset :: "lba \<Rightarrow> u32" where
  "cur_page_offset first = ucast (first AND ucast (DVM_PAGE_SECTORS - 1))"

definition buf_ptr :: "dvm_req \<Rightarrow> 'd acc \<Rightarrow> u32" where
  "buf_ptr rq st = rq_ptr rq + of_nat (a_pos st) * 512"

definition dvm_search_step :: "'d acc \<Rightarrow> 'd acc option" where
  "dvm_search_step st =
     (if cur_page_sector (a_first st) \<ge> a_sbase st
      then do {
        p \<leftarrow> dvm_cache_search (a_dvm st) (cur_page_sector (a_first st));
        Some (st\<lparr>a_p := p,
          a_sbase := (case p of Some i \<Rightarrow> base_sector (dvm_entries (a_dvm st) ! i) + 1
                              | None \<Rightarrow> DVM_EMPTY_PAGE)\<rparr>)
      }
      else Some st)"

definition dvm_hit_step ::
    "'d blk_ops \<Rightarrow> dvm_req \<Rightarrow> 'd acc \<Rightarrow> nat \<Rightarrow> ('d acc_result + 'd acc) option" where
  "dvm_hit_step ops rq st i =
     (let s = a_dvm st; off = cur_page_offset (a_first st);
          mx = DVM_PAGE_SECTORS - off;
          cur = (if a_num st < mx then a_num st else mx);
          whole = (off = 0 \<and> cur = DVM_PAGE_SECTORS);
          page = dvm_cache_data s ! i
      in if rq_write rq
         then (let chunk = sub_list (a_buf st) (a_pos st) (unat cur);
                   s1 = s\<lparr>dvm_cache_data := (dvm_cache_data s)[i := blit page (unat off) chunk]\<rparr>;
                   (res, d1) = raw_write ops (a_dev st) (rq_pdrv rq) (buf_ptr rq st) chunk
                                 (a_first st) cur
               in if res \<noteq> RES_OK then Some (Inl (RES_ERROR, a_buf st, s1, d1))
                  else do {
                    s2 \<leftarrow> (if whole then Some s1 else dvm_cache_promote s1 i);
                    Some (Inr (advance (st\<lparr>a_dvm := s2, a_dev := d1\<rparr>) cur))
                  })
         else do {
           s2 \<leftarrow> (if whole then Some s else dvm_cache_promote s i);
           Some (Inr (advance (st\<lparr>a_dvm := s2,
             a_buf := blit (a_buf st) (a_pos st) (sub_list page (unat off) (unat cur))\<rparr>) cur))
         })"

definition dvm_fill_step ::
    "'d blk_ops \<Rightarrow> dvm_req \<Rightarrow> 'd acc \<Rightarrow> ('d acc_result + 'd acc) option" where
  "dvm_fill_step ops rq st = do {
     let s = a_dvm st;
     let page = cur_page_sector (a_first st);
     i \<leftarrow> dvm_cache_evict s;
     let s1 = set_base s i page;
     let (res, data, d1) = raw_read ops (a_dev st) (rq_pdrv rq) (dvm_entry_data s1 i)
                             (dvm_cache_data s1 ! i) page DVM_PAGE_SECTORS;
     let s2 = s1\<lparr>dvm_cache_data := (dvm_cache_data s1)[i := data]\<rparr>;
     if res \<noteq> RES_OK
     then (let s3 = set_base s2 i DVM_EMPTY_PAGE;
               (res', buf', d2) = raw_read ops d1 (rq_pdrv rq) (rq_ptr rq) (a_buf st)
                                    (rq_first rq) (rq_count rq)
           in Some (Inl (res', buf', s3, d2)))
     else do {
       s3 \<leftarrow> dvm_cache_promote s2 i;
       Some (Inr (st\<lparr>a_dvm := s3, a_dev := d1, a_p := Some i, a_sbase := page + 1\<rparr>))
     }
   }"

definition dvm_direct_step ::
    "'d blk_ops \<Rightarrow> dvm_req \<Rightarrow> 'd acc \<Rightarrow> ('d acc_result + 'd acc) option" where
  "dvm_direct_step ops rq st =
     (let s = a_dvm st;
          mx = (case a_p st of
                  Some i \<Rightarrow> ucast (base_sector (dvm_entries s ! i) - a_first st)
                | None \<Rightarrow> a_num st);
          cur = (if a_num st < mx then a_num st else mx);
          chunk = sub_list (a_buf st) (a_pos st) (unat cur)
      in if rq_write rq
         then (let (res, d1) = raw_write ops (a_dev st) (rq_pdrv rq) (buf_ptr rq st) chunk
                                 (a_first st) cur
               in if res \<noteq> RES_OK then Some (Inl (res, a_buf st, s, d1))
                  else Some (Inr (advance (st\<lparr>a_dev := d1\<rparr>) cur)))
         else (let (res, data, d1) = raw_read ops (a_dev st) (rq_pdrv rq) (buf_ptr rq st) chunk
                                       (a_first st) cur;
                   buf' = blit (a_buf st) (a_pos st) data
               in if res \<noteq> RES_OK then Some (Inl (res, buf', s, d1))
                  else Some (Inr (advance (st\<lparr>a_dev := d1, a_buf := buf'\<rparr>) cur))))"

definition dvm_access_step ::
    "'d blk_ops \<Rightarrow> dvm_req \<Rightarrow> 'd acc \<Rightarrow> ('d acc_result + 'd acc) option" where
  "dvm_access_step ops rq st0 = do {
     st \<leftarrow> dvm_search_step st0;
     let page = cur_page_sector (a_first st);
     case a_p st of
       Some i \<Rightarrow>
         if base_sector (dvm_entries (a_dvm st) ! i) = page then dvm_hit_step ops rq st i
         else if \<not> rq_write rq \<and> (rq_count rq < DVM_PAGE_SECTORS \<or> \<not> dvm_is_aligned (rq_ptr rq))
         then dvm_fill_step ops rq st
         else dvm_direct_step ops rq st
     | None \<Rightarrow>
         if \<not> rq_write rq \<and> (rq_count rq < DVM_PAGE_SECTORS \<or> \<not> dvm_is_aligned (rq_ptr rq))
         then dvm_fill_step ops rq st
         else dvm_direct_step ops rq st
   }"

partial_function (option) dvm_access_loop ::
    "'d blk_ops \<Rightarrow> dvm_req \<Rightarrow> 'd acc \<Rightarrow> 'd acc_result option" where
  "dvm_access_loop ops rq st =
     (if a_num st = 0 then Some (RES_OK, a_buf st, a_dvm st, a_dev st)
      else do {
        r \<leftarrow> dvm_access_step ops rq st;
        (case r of Inl res \<Rightarrow> Some res | Inr st' \<Rightarrow> dvm_access_loop ops rq st')
      })"

declare dvm_search_from.simps [code] dvm_evict_from.simps [code] dvm_access_loop.simps [code]

definition dvm_cache_access ::
    "'d blk_ops \<Rightarrow> dvm \<Rightarrow> 'd \<Rightarrow> u8 \<Rightarrow> u32 \<Rightarrow> sector list \<Rightarrow> lba \<Rightarrow> u32 \<Rightarrow> bool \<Rightarrow> 'd acc_result option"
  where
  "dvm_cache_access ops s d pdrv ptr buf first num is_write =
     dvm_access_loop ops
       \<lparr>rq_pdrv = pdrv, rq_ptr = ptr, rq_first = first, rq_count = num, rq_write = is_write\<rparr>
       \<lparr>a_dvm = s, a_dev = d, a_buf = buf, a_pos = 0, a_first = first, a_num = num,
        a_p = None, a_sbase = 0\<rparr>"

definition dvm_cache_read ::
    "'d blk_ops \<Rightarrow> dvm \<Rightarrow> 'd \<Rightarrow> u8 \<Rightarrow> u32 \<Rightarrow> sector list \<Rightarrow> lba \<Rightarrow> u32 \<Rightarrow> 'd acc_result option" where
  "dvm_cache_read ops s d pdrv ptr buf sector count =
     (if count = 0 then Some (RES_OK, buf, s, d)
      else if dvm_disabled s
      then (let (res, buf', d') = raw_read ops d pdrv ptr buf sector count
            in Some (res, buf', s, d'))
      else dvm_cache_access ops (dvm_cache_claim s pdrv) d pdrv ptr buf sector count False)"

definition dvm_cache_write ::
    "'d blk_ops \<Rightarrow> dvm \<Rightarrow> 'd \<Rightarrow> u8 \<Rightarrow> u32 \<Rightarrow> sector list \<Rightarrow> lba \<Rightarrow> u32 \<Rightarrow> 'd acc_result option" where
  "dvm_cache_write ops s d pdrv ptr buf sector count =
     (if count = 0 then Some (RES_OK, buf, s, d)
      else if dvm_disabled s
      then (let (res, d') = raw_write ops d pdrv ptr buf sector count
            in Some (res, buf, s, d'))
      else dvm_cache_access ops (dvm_cache_claim s pdrv) d pdrv ptr buf sector count True)"

end
