(* ===== verification/DvmLru.thy ===== *)
theory DvmLru
  imports DvmCache
begin

text \<open>
  The doubly linked LRU list of the block cache, abstracted to the list of entry indices in
  most-recently-used order. \<open>dll s ord\<close> relates the two; the lemmas give, for each
  pointer-level operation of \<open>DvmCache\<close>, its effect on \<open>ord\<close>: \<open>dvm_cache_promote\<close> moves an
  entry to the front, \<open>dvm_cache_evict\<close> selects the first unused entry or else the last one,
  and \<open>dvm_cache_search\<close> finds the live entry with the least base at or above a page.
\<close>

section \<open>Linked segments\<close>

definition hdo :: "'a list \<Rightarrow> 'a option \<Rightarrow> 'a option" where
  "hdo xs q = (case xs of [] \<Rightarrow> q | x # _ \<Rightarrow> Some x)"

definition lasto :: "'a list \<Rightarrow> 'a option \<Rightarrow> 'a option" where
  "lasto xs p = (if xs = [] then p else Some (last xs))"

primrec dseg :: "dvm_cache_entry list \<Rightarrow> nat option \<Rightarrow> nat list \<Rightarrow> nat option \<Rightarrow> bool" where
  "dseg es p [] q \<longleftrightarrow> True"
| "dseg es p (x # xs) q \<longleftrightarrow> x < length es \<and> e_prev (es ! x) = p \<and> e_next (es ! x) = hdo xs q \<and>
     dseg es (Some x) xs q"

lemma hdo_simps [simp]: "hdo [] q = q" "hdo (x # xs) q = Some x"
  by (simp_all add: hdo_def)

lemma hdo_append [simp]: "hdo (xs @ ys) q = hdo xs (hdo ys q)"
  by (cases xs) simp_all

lemma lasto_simps [simp]: "lasto [] p = p" "lasto (xs @ [x]) p = Some x"
  "lasto (x # xs) p = lasto xs (Some x)"
  by (simp_all add: lasto_def)

lemma dseg_append [simp]:
  "dseg es p (xs @ ys) q \<longleftrightarrow> dseg es p xs (hdo ys q) \<and> dseg es (lasto xs p) ys q"
  by (induction xs arbitrary: p) auto

lemma dseg_bounds: "dseg es p xs q \<Longrightarrow> x \<in> set xs \<Longrightarrow> x < length es"
  by (induction xs arbitrary: p) auto

lemma dseg_cong:
  assumes "length es' = length es"
    and "\<And>x. x \<in> set xs \<Longrightarrow> e_next (es' ! x) = e_next (es ! x) \<and> e_prev (es' ! x) = e_prev (es ! x)"
  shows "dseg es' p xs q = dseg es p xs q"
  using assms(2) by (induction xs arbitrary: p) (auto simp: assms(1))

lemma length_sets [simp]:
  "length (set_next es i q) = length es" "length (set_prev es i q) = length es"
  by (simp_all add: set_next_def set_prev_def)

lemma nth_set_next:
  "j < length es \<Longrightarrow> set_next es i q ! j = (if i = j then (es ! j)\<lparr>e_next := q\<rparr> else es ! j)"
  by (auto simp: set_next_def nth_list_update)

lemma nth_set_prev:
  "j < length es \<Longrightarrow> set_prev es i q ! j = (if i = j then (es ! j)\<lparr>e_prev := q\<rparr> else es ! j)"
  by (auto simp: set_prev_def nth_list_update)

lemma base_sets [simp]:
  "base_sector (set_next es i q ! j) = base_sector (es ! j)"
  "base_sector (set_prev es i q ! j) = base_sector (es ! j)"
  by (cases "i = j"; cases "i < length es";
      simp add: set_next_def set_prev_def list_update_beyond)+

lemma dseg_set_next_out [simp]:
  "i \<notin> set xs \<Longrightarrow> dseg (set_next es i r) p xs q = dseg es p xs q"
  by (induction xs arbitrary: p) (auto simp: nth_set_next)

lemma dseg_set_prev_out [simp]:
  "i \<notin> set xs \<Longrightarrow> dseg (set_prev es i r) p xs q = dseg es p xs q"
  by (induction xs arbitrary: p) (auto simp: nth_set_prev)

lemma dseg_relink_last:
  "dseg es p (xs @ [x]) q \<Longrightarrow> x \<notin> set xs \<Longrightarrow> dseg (set_next es x r) p (xs @ [x]) r"
  by (simp add: nth_set_next)

lemma dseg_relink_first:
  "dseg es p (x # xs) q \<Longrightarrow> x \<notin> set xs \<Longrightarrow> dseg (set_prev es x r) r (x # xs) q"
  by (simp add: nth_set_prev)

section \<open>The whole list\<close>

definition dll :: "dvm \<Rightarrow> nat list \<Rightarrow> bool" where
  "dll s ord \<longleftrightarrow> ord \<noteq> [] \<and> distinct ord \<and> set ord = {..<length (dvm_entries s)} \<and>
     list_next s = Some (hd ord) \<and> list_prev s = Some (last ord) \<and>
     dseg (dvm_entries s) None ord None"

abbreviation base :: "dvm \<Rightarrow> nat \<Rightarrow> lba" where
  "base s i \<equiv> base_sector (dvm_entries s ! i)"

text \<open>The two states agree on everything a transfer reads, but for the links.\<close>

definition same_pages :: "dvm \<Rightarrow> dvm \<Rightarrow> bool" where
  "same_pages s' s \<longleftrightarrow> (\<forall>j. base s' j = base s j) \<and>
     length (dvm_entries s') = length (dvm_entries s) \<and>
     dvm_cache_data s' = dvm_cache_data s \<and> dvm_magic s' = dvm_magic s \<and>
     dvm_ready s' = dvm_ready s \<and> dvm_owner_pdrv s' = dvm_owner_pdrv s \<and>
     dvm_disabled s' = dvm_disabled s"

lemma same_pages_refl [simp]: "same_pages s s"
  by (simp add: same_pages_def)

lemma dseg_reset:
  "k + length xs = n \<Longrightarrow> xs = [k..<n] \<Longrightarrow>
   dseg (map (reset_entry n) [0..<n]) (if k = 0 then None else Some (k - 1)) xs None"
proof (induction xs arbitrary: k)
  case Nil
  then show ?case by simp
next
  case (Cons x xs)
  then have "[k..<n] = x # xs" by simp
  then have k: "x = k" "xs = [Suc k..<n]" "k < n" by (auto simp: upt_eq_Cons_conv)
  have "dseg (map (reset_entry n) [0..<n]) (if Suc k = 0 then None else Some (Suc k - 1)) xs None"
    using Cons.prems(1) k(2) by (intro Cons.IH) simp_all
  moreover have "hdo xs None = (if k + 1 < n then Some (k + 1) else None)"
    using k by (simp add: upt_rec)
  moreover have "e_prev (reset_entry n k) = (if k = 0 then None else Some (k - 1))"
    "e_next (reset_entry n k) = (if k + 1 < n then Some (k + 1) else None)"
    by (simp_all add: reset_entry_def)
  ultimately show ?case using k by simp
qed

lemma dll_reset:
  assumes "dvm_entries s \<noteq> []"
  shows "dll (dvm_cache_reset s) [0..<length (dvm_entries s)]"
  using assms dseg_reset [of 0 "[0..<length (dvm_entries s)]" "length (dvm_entries s)"]
  by (auto simp: dll_def dvm_cache_reset_def Let_def)

lemma base_reset: "i < length (dvm_entries s) \<Longrightarrow> base (dvm_cache_reset s) i = DVM_EMPTY_PAGE"
  by (simp add: dvm_cache_reset_def Let_def reset_entry_def)

section \<open>Promotion\<close>

lemma dll_promote_middle:
  assumes d: "dll s (xs @ [q, i] @ ys)"
  shows "\<exists>s'. dvm_cache_promote s i = Some s' \<and> dll s' (i # xs @ q # ys) \<and> same_pages s' s"
proof -
  let ?es = "dvm_entries s"
  let ?h = "hd (xs @ [q])"
  from d have dist: "distinct (xs @ [q, i] @ ys)" and sg: "dseg ?es None (xs @ [q, i] @ ys) None"
    and nx: "list_next s = Some ?h" and pv: "list_prev s = Some (last (i # ys))"
    and st: "set (xs @ [q, i] @ ys) = {..<length ?es}"
    by (auto simp: dll_def hd_append split: if_splits)
  have hi: "?h \<noteq> i" using dist by (cases xs) auto
  have il: "i < length ?es" using st by auto
  have links: "e_prev (?es ! i) = Some q" "e_next (?es ! i) = hdo ys None"
    using sg by simp_all
  define e1 where "e1 = set_next ?es q (hdo ys None)"
  define e2 where "e2 = (case ys of [] \<Rightarrow> e1 | r # _ \<Rightarrow> set_prev e1 r (Some q))"
  define lp where "lp = (case ys of [] \<Rightarrow> Some q | _ \<Rightarrow> list_prev s)"
  define e5 where "e5 = set_prev (set_prev (set_next e2 i (Some ?h)) ?h (Some i)) i None"
  have len: "length e1 = length ?es" "length e2 = length ?es" "length e5 = length ?es"
    by (simp_all add: e1_def e2_def e5_def split: list.splits)
  have "dvm_cache_promote s i =
    Some (s\<lparr>dvm_entries := e5, list_next := Some i, list_prev := lp\<rparr>)" (is "_ = Some ?s'")
    using hi by (auto simp: dvm_cache_promote_def nx links Let_def e5_def e2_def e1_def lp_def
        split: list.splits)
  moreover have "same_pages ?s' s"
    by (simp add: same_pages_def len) (simp add: e5_def e2_def e1_def split: list.splits)
  moreover have "dll ?s' (i # xs @ q # ys)"
  proof -
    have s1: "dseg e1 None (xs @ [q]) (hdo ys None)" "dseg e1 (Some i) ys None"
      using sg dist by (simp_all add: e1_def nth_set_next)
    have s2: "dseg e2 None (xs @ [q]) (hdo ys None)" "dseg e2 (Some q) ys None"
      using s1 dist by (auto simp: e2_def nth_set_prev split: list.splits)
    have s3: "dseg e5 (Some i) (xs @ [q]) (hdo ys None)"
    proof (cases xs)
      case Nil
      then show ?thesis using s2 dist hi by (simp add: e5_def nth_set_prev nth_set_next)
    next
      case (Cons x zs)
      then show ?thesis using s2 dist hi by (simp add: e5_def nth_set_prev nth_set_next)
    qed
    have "?h \<notin> set ys" using dist by (cases xs) auto
    then have s4: "dseg e5 (Some q) ys None"
      using s2 dist by (simp add: e5_def)
    have "dseg e5 None (i # (xs @ [q]) @ ys) None"
      unfolding dseg.simps dseg_append
      using s3 s4 il hi by (simp add: len) (auto simp: e5_def nth_set_prev nth_set_next len
          hdo_def hd_append split: list.splits)
    moreover have "lp = Some (last (i # xs @ q # ys))"
      by (auto simp: lp_def pv split: list.splits)
    ultimately show ?thesis using dist st by (auto simp: dll_def len)
  qed
  ultimately show ?thesis by blast
qed

lemma dll_promote:
  assumes d: "dll s (as @ i # bs)"
  shows "\<exists>s'. dvm_cache_promote s i = Some s' \<and> dll s' (i # as @ bs) \<and> same_pages s' s"
proof (cases as rule: rev_cases)
  case Nil
  then have "dvm_cache_promote s i = Some s"
    using d by (simp add: dll_def dvm_cache_promote_def)
  then show ?thesis using d Nil by auto
next
  case (snoc xs q)
  then show ?thesis using dll_promote_middle [of s xs q i bs] d by simp
qed

section \<open>Search and eviction\<close>

lemma search_from:
  assumes "dseg es p (live @ free) None"
    and "\<forall>i \<in> set live. base_sector (es ! i) \<noteq> DVM_EMPTY_PAGE"
    and "\<forall>i \<in> set free. base_sector (es ! i) = DVM_EMPTY_PAGE"
    and "case ret of None \<Rightarrow> mn = DVM_EMPTY_PAGE | Some k \<Rightarrow> mn = base_sector (es ! k) \<and> page < mn"
  shows "\<exists>r. dvm_search_from es page (hdo (live @ free) None) mn ret = Some r \<and>
    (case r of
       None \<Rightarrow> ret = None \<and> (\<forall>j \<in> set live. base_sector (es ! j) < page)
     | Some i \<Rightarrow> (i \<in> set live \<or> ret = Some i) \<and> page \<le> base_sector (es ! i) \<and>
         (\<forall>j \<in> set live. page \<le> base_sector (es ! j) \<longrightarrow> base_sector (es ! i) \<le> base_sector (es ! j)) \<and>
         (\<forall>k. ret = Some k \<longrightarrow> base_sector (es ! i) \<le> base_sector (es ! k)))"
  using assms
proof (induction live arbitrary: p mn ret)
  case Nil
  then have "dvm_search_from es page (hdo free None) mn ret = Some ret"
    by (cases free) (simp_all add: dvm_search_from.simps)
  with Nil.prems(4) show ?case by (auto split: option.splits)
next
  case (Cons x live)
  let ?b = "base_sector (es ! x)"
  have nx: "e_next (es ! x) = hdo (live @ free) None" and x: "?b \<noteq> DVM_EMPTY_PAGE"
    and sg: "dseg es (Some x) (live @ free) None"
    using Cons.prems by auto
  have unf: "dvm_search_from es page (hdo ((x # live) @ free) None) mn ret =
     (if ?b = page then Some (Some x)
      else if ?b > page \<and> ?b < mn then dvm_search_from es page (hdo (live @ free) None) ?b (Some x)
      else dvm_search_from es page (hdo (live @ free) None) mn ret)"
    using x nx by (subst dvm_search_from.simps) (simp add: Let_def)
  consider "?b = page" | "?b > page \<and> ?b < mn" | "?b \<noteq> page \<and> \<not> (?b > page \<and> ?b < mn)" by blast
  then show ?case
  proof cases
    case 1
    then have e: "dvm_search_from es page (hdo ((x # live) @ free) None) mn ret = Some (Some x)"
      unfolding unf by simp
    show ?thesis unfolding e using 1 Cons.prems(4) by (auto split: option.splits)
  next
    case 2
    have c: "case Some x of None \<Rightarrow> ?b = DVM_EMPTY_PAGE | Some k \<Rightarrow> ?b = base_sector (es ! k) \<and> page < ?b"
      using 2 by simp
    from 2 have "?b \<noteq> page" by auto
    with 2 have e: "dvm_search_from es page (hdo ((x # live) @ free) None) mn ret =
        dvm_search_from es page (hdo (live @ free) None) ?b (Some x)" unfolding unf by simp
    show ?thesis unfolding e
      using Cons.IH [OF sg _ _ c] Cons.prems(2,3,4) 2
      by (fastforce split: option.splits)
  next
    case 3
    then have e: "dvm_search_from es page (hdo ((x # live) @ free) None) mn ret =
        dvm_search_from es page (hdo (live @ free) None) mn ret" unfolding unf by auto
    have mx: "?b < DVM_EMPTY_PAGE"
      using x word_order.not_eq_extremum [of ?b] by (simp add: DVM_EMPTY_PAGE_def)
    show ?thesis unfolding e
      using Cons.IH [OF sg _ _ Cons.prems(4)] Cons.prems(2,3,4) 3 mx
      by (fastforce split: option.splits)
  qed
qed

lemma evict_from_free:
  assumes "dseg es p (f # fs) q" "\<forall>i \<in> set (f # fs). base_sector (es ! i) = DVM_EMPTY_PAGE"
    and "\<forall>k. p = Some k \<longrightarrow> base_sector (es ! k) \<noteq> DVM_EMPTY_PAGE"
  shows "dvm_evict_from es (last (f # fs)) = Some f"
  using assms
proof (induction fs arbitrary: q rule: rev_induct)
  case Nil
  then show ?case by (subst dvm_evict_from.simps) (auto split: option.splits)
next
  case (snoc x gs)
  have sg: "dseg es p ((f # gs) @ [x]) q" using snoc.prems(1) by simp
  then have pv: "e_prev (es ! x) = Some (last (f # gs))"
    unfolding dseg_append by (auto simp: lasto_def split: if_splits)
  have "dvm_evict_from es (last (f # gs)) = Some f"
    using snoc.IH [of "Some x"] snoc.prems sg by (simp only: dseg_append) auto
  moreover have "base_sector (es ! last (f # gs)) = DVM_EMPTY_PAGE"
    using snoc.prems(2) last_in_set [of "f # gs"] by (metis Un_iff append_Cons list.discI set_append)
  moreover have "last (f # gs @ [x]) = x" by simp
  ultimately show ?case
    using pv snoc.prems(2) by (simp only:) (subst dvm_evict_from.simps, simp del: last.simps)
qed

lemma evict_spec:
  assumes d: "dll s (live @ free)"
    and "\<forall>i \<in> set live. base s i \<noteq> DVM_EMPTY_PAGE" "\<forall>i \<in> set free. base s i = DVM_EMPTY_PAGE"
  shows "dvm_cache_evict s = Some (if free = [] then last live else hd free)"
proof (cases free)
  case Nil
  then have "live \<noteq> []" "list_prev s = Some (last live)" using d by (simp_all add: dll_def)
  moreover have "base s (last live) \<noteq> DVM_EMPTY_PAGE" using assms(2) calculation(1) by simp
  ultimately show ?thesis
    using Nil by (simp add: dvm_cache_evict_def dvm_evict_from.simps)
next
  case (Cons f fs)
  have "dseg (dvm_entries s) (lasto live None) (f # fs) None"
    using d Cons by (simp add: dll_def)
  then have "dvm_evict_from (dvm_entries s) (last (f # fs)) = Some f"
    by (rule evict_from_free) (use assms(2,3) Cons in \<open>auto simp: lasto_def split: if_splits\<close>)
  moreover have "list_prev s = Some (last (f # fs))" using d Cons by (simp add: dll_def)
  ultimately show ?thesis using Cons by (simp add: dvm_cache_evict_def)
qed

lemma search_spec:
  assumes d: "dll s (live @ free)"
    and "\<forall>i \<in> set live. base s i \<noteq> DVM_EMPTY_PAGE" "\<forall>i \<in> set free. base s i = DVM_EMPTY_PAGE"
  shows "\<exists>r. dvm_cache_search s page = Some r \<and>
    (case r of
       None \<Rightarrow> \<forall>j \<in> set live. base s j < page
     | Some i \<Rightarrow> i \<in> set live \<and> page \<le> base s i \<and>
         (\<forall>j \<in> set live. page \<le> base s j \<longrightarrow> base s i \<le> base s j))"
proof -
  have "list_next s = hdo (live @ free) None"
    using d by (cases "live @ free") (auto simp: dll_def)
  moreover have "dseg (dvm_entries s) None (live @ free) None" using d by (simp add: dll_def)
  ultimately obtain r where "dvm_cache_search s page = Some r"
    and "case r of
       None \<Rightarrow> (None :: nat option) = None \<and> (\<forall>j \<in> set live. base s j < page)
     | Some i \<Rightarrow> (i \<in> set live \<or> None = Some i) \<and> page \<le> base s i \<and>
         (\<forall>j \<in> set live. page \<le> base s j \<longrightarrow> base s i \<le> base s j) \<and>
         (\<forall>k. None = Some k \<longrightarrow> base s i \<le> base s k)"
    using search_from [OF _ assms(2,3), where ret = None and mn = DVM_EMPTY_PAGE and page = page]
    unfolding dvm_cache_search_def by fastforce
  then show ?thesis by (auto split: option.splits)
qed

end
