(* ===== verification/DvmCoherence.thy ===== *)
theory DvmCoherence
  imports DvmLru
begin

text \<open>
  Coherence of the block cache. \<open>block_device\<close> is the contract the cache needs of the layer
  below it (\<open>disk_read_raw\<close>, \<open>disk_write_raw\<close>); inside it, every cached read returns what
  the device holds, every successful write reaches the device and keeps the cached pages
  equal to it, and both always return. \<open>DiskIO\<close> interprets the locale on the drivers.
\<close>

section \<open>Runs of sectors\<close>

definition secs :: "(nat \<Rightarrow> 'a) \<Rightarrow> nat \<Rightarrow> nat \<Rightarrow> 'a list" where
  "secs cnt a n = map cnt [a..<a + n]"

definition overlay :: "(nat \<Rightarrow> 'a) \<Rightarrow> nat \<Rightarrow> 'a list \<Rightarrow> nat \<Rightarrow> 'a" where
  "overlay cnt a xs k = (if a \<le> k \<and> k < a + length xs then xs ! (k - a) else cnt k)"

lemma length_secs [simp]: "length (secs cnt a n) = n"
  by (simp add: secs_def)

lemma secs_0 [simp]: "secs cnt a 0 = []"
  by (simp add: secs_def)

lemma nth_secs [simp]: "i < n \<Longrightarrow> secs cnt a n ! i = cnt (a + i)"
  by (simp add: secs_def)

lemma secs_append: "secs cnt a m @ secs cnt (a + m) n = secs cnt a (m + n)"
  by (rule nth_equalityI) (auto simp: nth_append)

lemma sub_list_secs: "k + m \<le> n \<Longrightarrow> sub_list (secs cnt a n) k m = secs cnt (a + k) m"
  by (rule nth_equalityI) (auto simp: sub_list_def add.assoc)

lemma overlay_append:
  "overlay (overlay cnt a xs) (a + length xs) ys = overlay cnt a (xs @ ys)"
  by (rule ext) (auto simp: overlay_def nth_append)

lemma secs_overlay_inside:
  assumes "a \<le> b" "b + length xs \<le> a + n"
  shows "secs (overlay cnt b xs) a n = blit (secs cnt a n) (b - a) xs"
  using assms by (intro nth_equalityI) (auto simp: overlay_def nth_blit add.commute)

lemma secs_overlay_outside:
  assumes "a + n \<le> b \<or> b + length xs \<le> a"
  shows "secs (overlay cnt b xs) a n = secs cnt a n"
  using assms by (intro nth_equalityI) (auto simp: overlay_def)

lemma secs_cong: "(\<And>k. a \<le> k \<Longrightarrow> k < a + n \<Longrightarrow> f k = g k) \<Longrightarrow> secs f a n = secs g a n"
  by (simp add: secs_def)

lemma overlay_Nil [simp]: "overlay cnt a [] = cnt"
  by (rule ext) (auto simp: overlay_def)

lemma overlay_take_step:
  assumes "pos + n \<le> length xs"
  shows "overlay (overlay cnt a (take pos xs)) (a + pos) (sub_list xs pos n) =
    overlay cnt a (take (pos + n) xs)"
  using overlay_append [of cnt a "take pos xs" "sub_list xs pos n"] assms
  by (simp add: sub_list_def take_add)

section \<open>Page arithmetic\<close>

lemma page_mask: "(ucast (DVM_PAGE_SECTORS - 1) :: lba) = mask 2"
  by (simp add: DVM_PAGE_SECTORS_def mask_eq_exp_minus_1)

lemma unat_cur_page_offset: "unat (cur_page_offset f) = unat f mod 4"
proof -
  have "unat (f AND mask 2) < 2 ^ 32" by (simp add: unat_and_mask)
  then show ?thesis
    unfolding cur_page_offset_def page_mask
    by (simp add: unsigned_ucast_eq take_bit_nat_eq_self unat_and_mask)
qed

lemma unat_cur_page_sector: "unat (cur_page_sector f) = unat f - unat f mod 4"
  unfolding cur_page_sector_def page_mask unat_and_not_mask by simp

lemmas page_nat = unat_cur_page_offset unat_cur_page_sector

lemma page_le: "unat (cur_page_sector f) \<le> unat f" "unat f < unat (cur_page_sector f) + 4"
  "unat (cur_page_sector f) mod 4 = 0"
  "unat f = unat (cur_page_sector f) + unat (cur_page_offset f)"
  "unat (cur_page_offset f) < 4"
  unfolding page_nat by presburger+

lemma mult4_gap: "(a :: nat) mod 4 = 0 \<Longrightarrow> b mod 4 = 0 \<Longrightarrow> a < b \<Longrightarrow> a + 4 \<le> b"
  by presburger

section \<open>The invariant of the pages\<close>

definition sized :: "dvm \<Rightarrow> bool" where
  "sized s \<longleftrightarrow> dvm_entries s \<noteq> [] \<and> length (dvm_cache_data s) = length (dvm_entries s) \<and>
     (\<forall>i < length (dvm_entries s). length (dvm_cache_data s ! i) = 4)"

definition pages_inv :: "(nat \<Rightarrow> sector) \<Rightarrow> dvm \<Rightarrow> nat list \<Rightarrow> nat list \<Rightarrow> bool" where
  "pages_inv cnt s live free \<longleftrightarrow> sized s \<and> dll s (live @ free) \<and> inj_on (base s) (set live) \<and>
     (\<forall>i \<in> set live. unat (base s i) mod 4 = 0 \<and> unat (base s i) < 2 ^ 32 \<and>
        dvm_cache_data s ! i = secs cnt (unat (base s i)) 4) \<and>
     (\<forall>i \<in> set free. base s i = DVM_EMPTY_PAGE)"

text \<open>
  The cache as the rest of the program sees it between requests: if the sentinel and the
  ready flag are intact, the pages agree with the owner's contents. Nothing is claimed of a
  cache whose sentinel is gone, because the next request rebuilds it.
\<close>

definition dvm_ok :: "(u8 \<Rightarrow> nat \<Rightarrow> sector) \<Rightarrow> dvm \<Rightarrow> bool" where
  "dvm_ok cnt s \<longleftrightarrow> sized s \<and>
     (dvm_magic s = DVM_MAGIC \<and> dvm_ready s \<longrightarrow>
       (\<exists>live free. pages_inv (cnt (dvm_owner_pdrv s)) s live free))"

lemma base_live_not_empty: "unat (b :: lba) < 2 ^ 32 \<Longrightarrow> b \<noteq> DVM_EMPTY_PAGE"
  by (auto simp: DVM_EMPTY_PAGE_def unsigned_minus_1_eq_mask mask_eq_exp_minus_1)

lemma pages_live [simp]:
  "pages_inv cnt s live free \<Longrightarrow> i \<in> set live \<Longrightarrow> base s i \<noteq> DVM_EMPTY_PAGE"
  using base_live_not_empty [of "base s i"] by (auto simp: pages_inv_def)

lemma pages_index: "pages_inv cnt s live free \<Longrightarrow> i \<in> set (live @ free) \<Longrightarrow> i < length (dvm_entries s)"
  by (auto simp: pages_inv_def dll_def)

lemma pages_reset:
  assumes "sized s"
  shows "pages_inv cnt (dvm_cache_reset s) [] [0..<length (dvm_entries s)]"
  using assms dll_reset [of s] base_reset [of _ s]
  by (auto simp: pages_inv_def sized_def dvm_cache_reset_def Let_def)

lemma dll_owner [simp]: "dll (s\<lparr>dvm_owner_pdrv := p\<rparr>) ord = dll s ord"
  by (simp add: dll_def)

lemma pages_owner [simp]: "pages_inv cnt (s\<lparr>dvm_owner_pdrv := p\<rparr>) live free = pages_inv cnt s live free"
  by (simp add: pages_inv_def sized_def)

lemma claim_pages:
  assumes "dvm_ok cnt s"
  shows "\<exists>live free. pages_inv (cnt p) (dvm_cache_claim s p) live free"
    and "dvm_owner_pdrv (dvm_cache_claim s p) = p" "dvm_magic (dvm_cache_claim s p) = DVM_MAGIC"
    and "dvm_ready (dvm_cache_claim s p)"
  using assms pages_reset [of s "cnt p"]
  by (auto simp: dvm_ok_def dvm_cache_claim_def) (auto simp: dvm_cache_reset_def Let_def)

lemma pages_promote:
  assumes p: "pages_inv cnt s live free" and i: "i \<in> set live"
  shows "\<exists>s' live'. dvm_cache_promote s i = Some s' \<and> pages_inv cnt s' live' free \<and>
    set live' = set live \<and> same_pages s' s"
proof -
  obtain as bs where l: "live = as @ i # bs" using split_list [OF i] by blast
  with p have "dll s (as @ i # (bs @ free))" by (simp add: pages_inv_def)
  then obtain s' where s': "dvm_cache_promote s i = Some s'" "dll s' (i # as @ bs @ free)"
    "same_pages s' s" using dll_promote by blast
  have "pages_inv cnt s' (i # as @ bs) free"
    using p s'(2,3) by (auto simp: pages_inv_def same_pages_def sized_def l inj_on_def)
  then show ?thesis using s' l by (intro exI [of _ s'] exI [of _ "i # as @ bs"]) auto
qed

section \<open>The invariant of the transfer loop\<close>

text \<open>What \<open>p\<close> tells about the cache from \<open>page\<close> on, while \<open>search_base\<close> says it is current.\<close>

definition found :: "dvm \<Rightarrow> nat list \<Rightarrow> nat option \<Rightarrow> lba \<Rightarrow> lba \<Rightarrow> bool" where
  "found s live p sbase page \<longleftrightarrow>
     (case p of
        None \<Rightarrow> (\<forall>j \<in> set live. base s j < page)
      | Some i \<Rightarrow> i \<in> set live \<and> sbase = base s i + 1 \<and> page \<le> base s i \<and>
          (\<forall>j \<in> set live. page \<le> base s j \<longrightarrow> base s i \<le> base s j))"

definition acc_inv :: "(nat \<Rightarrow> sector) \<Rightarrow> dvm_req \<Rightarrow> 'd acc \<Rightarrow> nat list \<Rightarrow> nat list \<Rightarrow> bool" where
  "acc_inv cnt rq st live free \<longleftrightarrow>
     pages_inv cnt (a_dvm st) live free \<and>
     (cur_page_sector (a_first st) < a_sbase st \<longrightarrow>
        found (a_dvm st) live (a_p st) (a_sbase st) (cur_page_sector (a_first st))) \<and>
     unat (a_first st) + unat (a_num st) = unat (rq_first rq) + unat (rq_count rq) \<and>
     unat (rq_first rq) + unat (rq_count rq) \<le> 2 ^ 32 \<and> unat (rq_count rq) < 2 ^ 23 \<and>
     a_pos st + unat (a_num st) = unat (rq_count rq) \<and>
     length (a_buf st) = unat (rq_count rq) \<and>
     dvm_magic (a_dvm st) = DVM_MAGIC \<and> dvm_ready (a_dvm st) \<and>
     dvm_owner_pdrv (a_dvm st) = rq_pdrv rq"

definition at_hit :: "'d acc \<Rightarrow> bool" where
  "at_hit st \<longleftrightarrow> (\<exists>i. a_p st = Some i \<and> base (a_dvm st) i = cur_page_sector (a_first st)) \<and>
     cur_page_sector (a_first st) < a_sbase st"

definition acc_measure :: "'d acc \<Rightarrow> nat" where
  "acc_measure st = 2 * unat (a_num st) + (if at_hit st then 0 else 1)"

lemma word_plus1_gt: "unat (b :: lba) < 2 ^ 32 \<Longrightarrow> unat (b + 1) = unat b + 1"
  by (simp add: unat_word_ariths)

lemma search_step_inv:
  assumes inv: "acc_inv cnt rq st live free" and n: "a_num st \<noteq> 0"
  shows "\<exists>p sb. dvm_search_step st = Some (st\<lparr>a_p := p, a_sbase := sb\<rparr>) \<and>
    acc_inv cnt rq (st\<lparr>a_p := p, a_sbase := sb\<rparr>) live free \<and>
    cur_page_sector (a_first st) < sb \<and> (at_hit st \<longrightarrow> p = a_p st)"
proof (cases "cur_page_sector (a_first st) < a_sbase st")
  case True
  then have "dvm_search_step st = Some (st\<lparr>a_p := a_p st, a_sbase := a_sbase st\<rparr>)"
    by (simp add: dvm_search_step_def not_le [symmetric])
  then show ?thesis using True inv by (intro exI [of _ "a_p st"] exI [of _ "a_sbase st"]) simp
next
  case False
  let ?s = "a_dvm st" and ?pg = "cur_page_sector (a_first st)"
  from inv have pi: "pages_inv cnt ?s live free" by (simp add: acc_inv_def)
  from n have "unat (a_num st) \<noteq> 0" by (simp add: unat_eq_0)
  with inv have "unat (a_first st) < 2 ^ 32" by (simp add: acc_inv_def)
  then have pg: "unat ?pg < 2 ^ 32" using page_le(1) [of "a_first st"] by linarith
  from pi have "dll ?s (live @ free)" "\<forall>i \<in> set free. base ?s i = DVM_EMPTY_PAGE"
    by (simp_all add: pages_inv_def)
  with pi obtain r where r: "dvm_cache_search ?s ?pg = Some r"
    and rs: "case r of None \<Rightarrow> \<forall>j \<in> set live. base ?s j < ?pg
       | Some i \<Rightarrow> i \<in> set live \<and> ?pg \<le> base ?s i \<and>
           (\<forall>j \<in> set live. ?pg \<le> base ?s j \<longrightarrow> base ?s i \<le> base ?s j)"
    using search_spec [of ?s live free ?pg] by (meson pages_live)
  define sb where "sb = (case r of Some i \<Rightarrow> base ?s i + 1 | None \<Rightarrow> DVM_EMPTY_PAGE)"
  have "?pg < sb"
  proof (cases r)
    case None
    then show ?thesis using pg base_live_not_empty [OF pg]
      by (simp add: sb_def DVM_EMPTY_PAGE_def word_order.not_eq_extremum)
  next
    case (Some i)
    then have "unat (base ?s i) < 2 ^ 32" "?pg \<le> base ?s i" using rs pi by (auto simp: pages_inv_def)
    then show ?thesis using Some by (simp add: sb_def word_less_nat_alt word_plus1_gt word_le_nat_alt)
  qed
  moreover have "found ?s live r sb ?pg"
    using rs by (auto simp: found_def sb_def split: option.splits)
  moreover have "dvm_search_step st = Some (st\<lparr>a_p := r, a_sbase := sb\<rparr>)"
    using False r by (simp add: dvm_search_step_def sb_def)
  ultimately show ?thesis using inv False
    by (intro exI [of _ r] exI [of _ sb]) (auto simp: acc_inv_def at_hit_def)
qed

section \<open>One iteration\<close>

lemma unat_advance:
  assumes "cur \<le> a_num st" "unat (a_first st) + unat (a_num st) \<le> 2 ^ 32"
  shows "unat (a_first (advance st cur)) = unat (a_first st) + unat cur"
    and "unat (a_num (advance st cur)) = unat (a_num st) - unat cur"
proof -
  have c: "unat (ucast cur :: lba) = unat cur"
    by (simp add: unsigned_ucast_eq take_bit_nat_eq_self unat_u32_less [simplified] order_less_trans [OF unat_u32_less])
  have "unat cur \<le> unat (a_num st)" using assms(1) by (simp add: word_le_nat_alt)
  with assms(2) have "unat (a_first st) + unat cur < 2 ^ 64" by simp
  then show "unat (a_first (advance st cur)) = unat (a_first st) + unat cur"
    by (simp add: advance_def unat_word_ariths c)
  show "unat (a_num (advance st cur)) = unat (a_num st) - unat cur"
    using assms(1) by (simp add: advance_def unat_sub)
qed

lemma found_mono:
  assumes "found s live p sbase page" "page \<le> page'" "\<And>i. p = Some i \<Longrightarrow> page' \<le> base s i"
  shows "found s live p sbase page'"
  using assms by (force simp: found_def split: option.splits)

lemma acc_inv_advance:
  assumes inv: "acc_inv cnt rq st live free" and sb: "cur_page_sector (a_first st) < a_sbase st"
    and pi: "pages_inv cnt' s' live' free" and lv: "set live' = set live"
    and sp: "\<And>j. base s' j = base (a_dvm st) j"
    and fr: "dvm_magic s' = DVM_MAGIC" "dvm_ready s'" "dvm_owner_pdrv s' = rq_pdrv rq"
    and cur: "cur \<le> a_num st" and len: "length buf' = length (a_buf st)"
    and up: "\<And>i. a_p st = Some i \<Longrightarrow> base (a_dvm st) i = cur_page_sector (a_first st) \<or>
               unat (a_first st) + unat cur \<le> unat (base (a_dvm st) i)"
  shows "acc_inv cnt' rq (advance (st\<lparr>a_dvm := s', a_dev := d', a_buf := buf'\<rparr>) cur) live' free"
    (is "acc_inv _ _ ?st' _ _")
proof -
  let ?pg = "cur_page_sector (a_first st)" and ?pg' = "cur_page_sector (a_first ?st')"
  have le: "unat (a_first st) + unat (a_num st) \<le> 2 ^ 32" using inv by (simp add: acc_inv_def)
  have f': "unat (a_first ?st') = unat (a_first st) + unat cur"
    and n': "unat (a_num ?st') = unat (a_num st) - unat cur"
    using unat_advance [of cur "st\<lparr>a_dvm := s', a_dev := d', a_buf := buf'\<rparr>"] cur le by simp_all
  have cn: "unat cur \<le> unat (a_num st)" using cur by (simp add: word_le_nat_alt)
  have pgle: "?pg \<le> ?pg'"
    unfolding word_le_nat_alt using page_nat(2) f' by (metis div_le_mono le_add1 minus_mod_eq_div_mult mult_le_mono1)
  have fd: "found (a_dvm st) live (a_p st) (a_sbase st) ?pg" using inv sb by (simp add: acc_inv_def)
  have "found s' live' (a_p st) (a_sbase st) ?pg'" if lt: "?pg' < a_sbase st"
  proof -
    have "?pg' \<le> base (a_dvm st) i" if i: "a_p st = Some i" for i
    proof (cases "base (a_dvm st) i = ?pg")
      case True
      from fd i have "a_sbase st = base (a_dvm st) i + 1" by (simp add: found_def)
      with lt True show ?thesis by (metis inc_le less_le_not_le linorder_not_le)
    next
      case False
      then show ?thesis using up [OF i] f' page_le(1) [of "a_first ?st'"]
        by (simp add: word_le_nat_alt)
    qed
    then have "found (a_dvm st) live (a_p st) (a_sbase st) ?pg'"
      by (rule found_mono [OF fd pgle])
    then show ?thesis by (simp add: found_def sp lv split: option.splits)
  qed
  then show ?thesis
    using inv pi fr len f' n' cn
    by (simp add: acc_inv_def) (simp add: advance_def)
qed

lemma hit_geometry:
  assumes "num \<noteq> 0" "off = cur_page_offset f" "mx = DVM_PAGE_SECTORS - off"
    "cur = (if num < mx then num else mx)"
  shows "unat off + unat cur \<le> 4" "0 < unat cur" "cur \<le> num" "unat off < 4"
    "unat f = unat (cur_page_sector f) + unat off"
proof -
  have o: "unat off < 4" "unat f = unat (cur_page_sector f) + unat off"
    using page_le [of f] assms(2) by auto
  have "unat mx = 4 - unat off"
    using o unfolding assms(3) DVM_PAGE_SECTORS_def by (simp add: unat_sub word_le_nat_alt)
  moreover have "0 < unat num" using assms(1) by (simp add: unat_gt_0)
  ultimately show "unat off + unat cur \<le> 4" "0 < unat cur" "cur \<le> num" "unat off < 4"
    "unat f = unat (cur_page_sector f) + unat off"
    using o unfolding assms(4) by (auto simp: word_less_nat_alt word_le_nat_alt)
qed

lemma same_pages_frame:
  "same_pages s' s \<Longrightarrow> dvm_magic s = DVM_MAGIC \<Longrightarrow> dvm_ready s \<Longrightarrow> dvm_owner_pdrv s = p \<Longrightarrow>
   dvm_magic s' = DVM_MAGIC \<and> dvm_ready s' \<and> dvm_owner_pdrv s' = p \<and> (\<forall>j. base s' j = base s j)"
  by (simp add: same_pages_def)

text \<open>A page access either leaves the order alone (whole pages) or promotes the page.\<close>

lemma touch_page:
  assumes pi: "pages_inv cnt s live free" and i: "i \<in> set live"
  shows "\<exists>s' live'. (if w then Some s else dvm_cache_promote s i) = Some s' \<and>
    pages_inv cnt s' live' free \<and> set live' = set live \<and> same_pages s' s"
  using pages_promote [OF pi i] pi by (cases w) auto

lemma hit_read_step:
  assumes inv: "acc_inv cnt rq st live free" and sb: "cur_page_sector (a_first st) < a_sbase st"
    and n: "a_num st \<noteq> 0" and p: "a_p st = Some i"
    and hit: "base (a_dvm st) i = cur_page_sector (a_first st)" and w: "\<not> rq_write rq"
    and pre: "take (a_pos st) (a_buf st) = secs cnt (unat (rq_first rq)) (a_pos st)"
  shows "\<exists>st' live'. dvm_hit_step ops rq st i = Some (Inr st') \<and> acc_inv cnt rq st' live' free \<and>
    a_num st' < a_num st \<and> a_dev st' = a_dev st \<and>
    take (a_pos st') (a_buf st') = secs cnt (unat (rq_first rq)) (a_pos st')"
proof -
  let ?s = "a_dvm st"
  define off where "off = cur_page_offset (a_first st)"
  define mx where "mx = DVM_PAGE_SECTORS - off"
  define cur where "cur = (if a_num st < mx then a_num st else mx)"
  note geo = hit_geometry [OF n off_def mx_def cur_def]
  have pi: "pages_inv cnt ?s live free" and il: "i \<in> set live"
    using inv sb p by (auto simp: acc_inv_def found_def)
  obtain s' live' where s': "(if off = 0 \<and> cur = DVM_PAGE_SECTORS then Some ?s else dvm_cache_promote ?s i) = Some s'"
    "pages_inv cnt s' live' free" "set live' = set live" "same_pages s' ?s"
    using touch_page [OF pi il] by blast
  define chunk where "chunk = sub_list (dvm_cache_data ?s ! i) (unat off) (unat cur)"
  have "dvm_cache_data ?s ! i = secs cnt (unat (cur_page_sector (a_first st))) 4"
    using pi il hit by (auto simp: pages_inv_def)
  then have ch: "chunk = secs cnt (unat (a_first st)) (unat cur)"
    using geo by (simp add: chunk_def sub_list_secs)
  define buf' where "buf' = blit (a_buf st) (a_pos st) chunk"
  have cn: "unat cur \<le> unat (a_num st)" using geo(3) by (simp add: word_le_nat_alt)
  have sz: "a_pos st + unat cur \<le> length (a_buf st)" using inv cn by (simp add: acc_inv_def)
  define st' where "st' = advance (st\<lparr>a_dvm := s', a_dev := a_dev st, a_buf := buf'\<rparr>) cur"
  have step: "dvm_hit_step ops rq st i = Some (Inr st')"
    using w s'(1) unfolding dvm_hit_step_def Let_def off_def [symmetric] mx_def [symmetric] cur_def [symmetric]
    by (simp add: st'_def buf'_def chunk_def)
  have "acc_inv cnt rq st' live' free"
    unfolding st'_def
  proof (rule acc_inv_advance [OF inv sb s'(2,3)])
    show "base s' j = base ?s j" for j using s'(4) by (simp add: same_pages_def)
    show "dvm_magic s' = DVM_MAGIC" "dvm_ready s'" "dvm_owner_pdrv s' = rq_pdrv rq"
      using s'(4) inv by (simp_all add: same_pages_def acc_inv_def)
    show "cur \<le> a_num st" by (rule geo(3))
    show "length buf' = length (a_buf st)" using sz by (simp add: buf'_def ch)
    show "base ?s k = cur_page_sector (a_first st) \<or> unat (a_first st) + unat cur \<le> unat (base ?s k)"
      if "a_p st = Some k" for k using that p hit by simp
  qed
  moreover have "a_num st' < a_num st"
    using unat_advance(2) [of cur st] geo(2,3) cn inv
    by (simp add: st'_def advance_def word_less_nat_alt acc_inv_def)
  moreover have "take (a_pos st') (a_buf st') = secs cnt (unat (rq_first rq)) (a_pos st')"
  proof -
    have "unat (a_first st) = unat (rq_first rq) + a_pos st" using inv by (simp add: acc_inv_def)
    moreover have "take (a_pos st + unat cur) buf' = take (a_pos st) (a_buf st) @ chunk"
      using take_blit [of "a_pos st" chunk "a_buf st"] sz by (simp add: buf'_def ch)
    ultimately show ?thesis by (simp add: st'_def advance_def pre ch secs_append)
  qed
  ultimately show ?thesis using step by (intro exI [of _ st'] exI [of _ live']) (simp add: st'_def advance_def)
qed

lemma pages_write_page:
  assumes pi: "pages_inv cnt s live free" and i: "i \<in> set live"
    and off: "off + length chunk \<le> 4"
  shows "pages_inv (overlay cnt (unat (base s i) + off) chunk)
    (s\<lparr>dvm_cache_data := (dvm_cache_data s)[i := blit (dvm_cache_data s ! i) off chunk]\<rparr>) live free"
    (is "pages_inv ?cnt ?s live free")
proof -
  have il: "i < length (dvm_entries s)" using pages_index [OF pi] i by simp
  have sz: "sized s" and inj: "inj_on (base s) (set live)" using pi by (simp_all add: pages_inv_def)
  have "dvm_cache_data ?s ! j = secs ?cnt (unat (base s j)) 4" if j: "j \<in> set live" for j
  proof (cases "j = i")
    case True
    then show ?thesis using pi i il sz off
      by (simp add: pages_inv_def sized_def secs_overlay_inside)
  next
    case False
    then have "base s j \<noteq> base s i" using inj i j by (auto simp: inj_on_def)
    then have "unat (base s j) \<noteq> unat (base s i)" by (simp add: word_unat_eq_iff)
    moreover have "unat (base s j) mod 4 = 0" "unat (base s i) mod 4 = 0" using pi i j by (simp_all add: pages_inv_def)
    ultimately have "unat (base s j) + 4 \<le> unat (base s i) \<or> unat (base s i) + 4 \<le> unat (base s j)"
      using mult4_gap by (metis linorder_neqE_nat)
    then have "secs ?cnt (unat (base s j)) 4 = secs cnt (unat (base s j)) 4"
      using off by (intro secs_overlay_outside) auto
    then show ?thesis using pi j False by (simp add: pages_inv_def)
  qed
  moreover have "sized ?s" using sz off il
    by (auto simp: sized_def nth_list_update)
  ultimately show ?thesis using pi by (simp add: pages_inv_def dll_def)
qed

lemma pages_write_gap:
  assumes pi: "pages_inv cnt s live free"
    and gap: "\<And>j. j \<in> set live \<Longrightarrow> unat (base s j) + 4 \<le> a \<or> a + length chunk \<le> unat (base s j)"
  shows "pages_inv (overlay cnt a chunk) s live free"
proof -
  have "secs (overlay cnt a chunk) (unat (base s j)) 4 = secs cnt (unat (base s j)) 4"
    if "j \<in> set live" for j using gap [OF that] by (intro secs_overlay_outside) auto
  then show ?thesis using pi by (simp add: pages_inv_def)
qed

section \<open>The loop rule\<close>

lemma access_loop_rule:
  assumes "Inv st"
    and step: "\<And>st. Inv st \<Longrightarrow> a_num st \<noteq> 0 \<Longrightarrow>
      \<exists>r. dvm_access_step ops rq st = Some r \<and>
        (case r of Inl res \<Rightarrow> Q res | Inr st' \<Rightarrow> Inv st' \<and> m st' < (m st :: nat))"
    and fin: "\<And>st. Inv st \<Longrightarrow> a_num st = 0 \<Longrightarrow> Q (RES_OK, a_buf st, a_dvm st, a_dev st)"
  shows "\<exists>res. dvm_access_loop ops rq st = Some res \<and> Q res"
  using assms(1)
proof (induction "m st" arbitrary: st rule: less_induct)
  case less
  show ?case
  proof (cases "a_num st = 0")
    case True
    then show ?thesis using fin [OF less.prems] by (subst dvm_access_loop.simps) simp
  next
    case False
    then obtain r where r: "dvm_access_step ops rq st = Some r"
      "case r of Inl res \<Rightarrow> Q res | Inr st' \<Rightarrow> Inv st' \<and> m st' < m st"
      using step [OF less.prems] by blast
    then show ?thesis
      using less.hyps False by (subst dvm_access_loop.simps) (auto split: sum.splits)
  qed
qed

lemma acc_measure_dec: "a_num st' < a_num st \<Longrightarrow> acc_measure st' < acc_measure st"
  by (simp add: acc_measure_def word_less_nat_alt)

lemma acc_measure_hit: "a_num st' = a_num st \<Longrightarrow> at_hit st' \<Longrightarrow> \<not> at_hit st \<Longrightarrow> acc_measure st' < acc_measure st"
  by (simp add: acc_measure_def)

section \<open>Filling a page\<close>

lemma set_base_simps [simp]:
  "length (dvm_entries (set_base s i b)) = length (dvm_entries s)"
  "dvm_entries (set_base s i b) = [] \<longleftrightarrow> dvm_entries s = []"
  "dvm_cache_data (set_base s i b) = dvm_cache_data s"
  "dvm_magic (set_base s i b) = dvm_magic s" "dvm_ready (set_base s i b) = dvm_ready s"
  "dvm_owner_pdrv (set_base s i b) = dvm_owner_pdrv s"
  "list_next (set_base s i b) = list_next s" "list_prev (set_base s i b) = list_prev s"
  by (simp_all add: set_base_def)

lemma base_set_base:
  "i < length (dvm_entries s) \<Longrightarrow> base (set_base s i b) j = (if j = i then b else base s j)"
  by (simp add: set_base_def)

lemma dll_set_base [simp]: "dll (set_base s i b) ord = dll s ord"
proof -
  have "e_next (dvm_entries (set_base s i b) ! x) = e_next (dvm_entries s ! x) \<and>
      e_prev (dvm_entries (set_base s i b) ! x) = e_prev (dvm_entries s ! x)" for x
    by (cases "i = x"; cases "i < length (dvm_entries s)")
      (simp_all add: set_base_def list_update_beyond)
  then have "dseg (dvm_entries (set_base s i b)) None ord None = dseg (dvm_entries s) None ord None"
    by (intro dseg_cong) simp_all
  then show ?thesis by (simp add: dll_def)
qed

lemma dll_data [simp]: "dll (s\<lparr>dvm_cache_data := x\<rparr>) ord = dll s ord"
  by (simp add: dll_def)

lemma evict_split:
  assumes pi: "pages_inv cnt s live free"
  shows "\<exists>i as bs. dvm_cache_evict s = Some i \<and> live @ free = as @ i # bs \<and>
    set as \<subseteq> set live \<and> set bs \<subseteq> set free"
proof -
  have d: "dll s (live @ free)" and f: "\<forall>i \<in> set free. base s i = DVM_EMPTY_PAGE"
    using pi by (simp_all add: pages_inv_def)
  have ev: "dvm_cache_evict s = Some (if free = [] then last live else hd free)"
    using evict_spec [OF d _ f] pages_live [OF pi] by blast
  show ?thesis
  proof (cases free)
    case Nil
    then have "live = butlast live @ [last live]" using d by (simp add: dll_def)
    then show ?thesis using ev Nil
      by (intro exI [of _ "last live"] exI [of _ "butlast live"] exI [of _ "[]"])
        (auto dest: in_set_butlastD)
  next
    case (Cons f fs)
    then show ?thesis using ev by (intro exI [of _ f] exI [of _ live] exI [of _ fs]) auto
  qed
qed

lemma sized_same_pages: "sized s \<Longrightarrow> same_pages s' s \<Longrightarrow> sized s'"
  unfolding sized_def same_pages_def by (metis length_0_conv)

lemma fill_sized:
  assumes "sized s" "length data = 4"
  shows "sized ((set_base s i b)\<lparr>dvm_cache_data := (dvm_cache_data s)[i := data]\<rparr>)"
  using assms by (simp add: sized_def nth_update_if)

lemma fill_failed_pages:
  assumes pi: "pages_inv cnt s live free" and o: "live @ free = as @ i # bs"
    and as: "set as \<subseteq> set live" and bs: "set bs \<subseteq> set free" and len: "length data = 4"
  shows "pages_inv cnt (set_base ((set_base s i b)\<lparr>dvm_cache_data := (dvm_cache_data s)[i := data]\<rparr>)
      i DVM_EMPTY_PAGE) as (i # bs)" (is "pages_inv cnt ?s as (i # bs)")
proof -
  have i: "i < length (dvm_entries s)" using pages_index [OF pi] o by (metis in_set_conv_decomp)
  have dist: "i \<notin> set as" "i \<notin> set bs" using pi o by (auto simp: pages_inv_def dll_def)
  have bse: "base ?s j = (if j = i then DVM_EMPTY_PAGE else base s j)" for j
    using i by (simp add: base_set_base)
  have "sized ?s" using fill_sized [of s data i b] pi len
    by (auto simp: pages_inv_def sized_def)
  moreover have "dll ?s (as @ i # bs)" using pi o by (simp add: pages_inv_def)
  moreover have "dvm_cache_data ?s ! j = dvm_cache_data s ! j" if "j \<noteq> i" for j using that by simp
  ultimately show ?thesis
    using pi as bs dist unfolding pages_inv_def bse
    by (auto simp: inj_on_def subset_iff)
qed

lemma fill_done_pages:
  assumes pi: "pages_inv cnt s live free" and o: "live @ free = as @ i # bs"
    and as: "set as \<subseteq> set live" and bs: "set bs \<subseteq> set free"
    and dt: "data = secs cnt (unat b) 4" "unat b mod 4 = 0" "unat b < 2 ^ 32"
    and new: "\<And>j. j \<in> set as \<Longrightarrow> base s j \<noteq> b"
  shows "\<exists>s'. dvm_cache_promote ((set_base s i b)\<lparr>dvm_cache_data := (dvm_cache_data s)[i := data]\<rparr>) i = Some s' \<and>
    pages_inv cnt s' (i # as) bs \<and>
    same_pages s' ((set_base s i b)\<lparr>dvm_cache_data := (dvm_cache_data s)[i := data]\<rparr>)"
    (is "\<exists>s'. dvm_cache_promote ?s i = _ \<and> _ \<and> _")
proof -
  have i: "i < length (dvm_entries s)" using pages_index [OF pi] o by (metis in_set_conv_decomp)
  have dist: "i \<notin> set as" "i \<notin> set bs" using pi o by (auto simp: pages_inv_def dll_def)
  have bse: "base ?s j = (if j = i then b else base s j)" for j
    using i by (simp add: base_set_base) 
  have sz: "sized ?s" using fill_sized [of s data i b] pi dt by (simp add: pages_inv_def)
  have "dll ?s (as @ i # bs)" using pi o by (simp add: pages_inv_def)
  then obtain s' where s': "dvm_cache_promote ?s i = Some s'" "dll s' (i # as @ bs)" "same_pages s' ?s"
    using dll_promote by blast
  have bs': "base s' j = (if j = i then b else base s j)" for j
    using s'(3) bse by (simp add: same_pages_def)
  have da: "dvm_cache_data s' ! i = data" "\<And>j. j \<noteq> i \<Longrightarrow> dvm_cache_data s' ! j = dvm_cache_data s ! j"
    using s'(3) i pi by (simp_all add: same_pages_def pages_inv_def sized_def)
  have "sized s'" using sz s'(3) by (rule sized_same_pages)
  moreover have "inj_on (base s') (set (i # as))"
    using pi as dist new unfolding pages_inv_def bs' by (auto simp: inj_on_def subset_iff)
  moreover have "dvm_cache_data s' ! j = secs cnt (unat (base s j)) 4" if "j \<in> set as" for j
    using da(2) [of j] that dist(1) pi as by (fastforce simp: pages_inv_def)
  ultimately have "pages_inv cnt s' (i # as) bs"
    using s'(2) pi as bs dist da(1) dt unfolding pages_inv_def bs' by auto
  then show ?thesis using s' by blast
qed

section \<open>The contract of the layer below\<close>

definition reads_succeed :: "'d blk_ops \<Rightarrow> u8 \<Rightarrow> bool" where
  "reads_succeed ops p \<longleftrightarrow> (\<forall>d ptr buf lba n. fst (raw_read ops d p ptr buf lba n) = RES_OK)"

lemma reads_succeedD:
  "raw_read ops d p ptr buf lba n = (r, buf', d') \<Longrightarrow> r \<noteq> RES_OK \<Longrightarrow> \<not> reads_succeed ops p"
  unfolding reads_succeed_def by (metis fst_conv)

locale block_device =
  fixes ops :: "'d blk_ops"
    and content :: "'d \<Rightarrow> u8 \<Rightarrow> nat \<Rightarrow> sector"
    and dinv :: "'d \<Rightarrow> bool"
  assumes read_ok: "dinv d \<Longrightarrow> raw_read ops d p ptr buf lba n = (RES_OK, buf', d') \<Longrightarrow>
      length buf = unat n \<Longrightarrow> unat n < 2 ^ 23 \<Longrightarrow> unat lba + unat n \<le> 2 ^ 32 \<Longrightarrow>
      buf' = secs (content d p) (unat lba) (unat n)"
    and read_frame: "dinv d \<Longrightarrow> raw_read ops d p ptr buf lba n = (r, buf', d') \<Longrightarrow>
      length buf = unat n \<Longrightarrow> unat n < 2 ^ 23 \<Longrightarrow> dinv d' \<and> content d' = content d \<and> length buf' = length buf"
    and write_ok: "dinv d \<Longrightarrow> raw_write ops d p ptr buf lba n = (RES_OK, d') \<Longrightarrow>
      length buf = unat n \<Longrightarrow> unat lba + unat n \<le> 2 ^ 32 \<Longrightarrow>
      content d' = (content d)(p := overlay (content d p) (unat lba) buf)"
    and write_frame: "dinv d \<Longrightarrow> raw_write ops d p ptr buf lba n = (r, d') \<Longrightarrow>
      length buf = unat n \<Longrightarrow> dinv d'"
begin

lemma hit_write_step:
  assumes inv: "acc_inv (content (a_dev st) (rq_pdrv rq)) rq st live free"
    and sb: "cur_page_sector (a_first st) < a_sbase st" and di: "dinv (a_dev st)"
    and n: "a_num st \<noteq> 0" and p: "a_p st = Some i"
    and hit: "base (a_dvm st) i = cur_page_sector (a_first st)" and w: "rq_write rq"
  shows "\<exists>r. dvm_hit_step ops rq st i = Some r \<and>
    (case r of Inl (res, buf, s, d) \<Rightarrow> res \<noteq> RES_OK \<and> buf = a_buf st \<and> dinv d
     | Inr st' \<Rightarrow> dinv (a_dev st') \<and> a_buf st' = a_buf st \<and> a_num st' < a_num st \<and>
         (\<exists>n. a_pos st' = a_pos st + n \<and> a_pos st + n \<le> length (a_buf st) \<and>
            content (a_dev st') = (content (a_dev st))(rq_pdrv rq :=
              overlay (content (a_dev st) (rq_pdrv rq)) (unat (a_first st)) (sub_list (a_buf st) (a_pos st) n))) \<and>
         (\<exists>live'. acc_inv (content (a_dev st') (rq_pdrv rq)) rq st' live' free))"
proof -
  let ?s = "a_dvm st" and ?cnt = "content (a_dev st) (rq_pdrv rq)"
  define off where "off = cur_page_offset (a_first st)"
  define mx where "mx = DVM_PAGE_SECTORS - off"
  define cur where "cur = (if a_num st < mx then a_num st else mx)"
  note geo = hit_geometry [OF n off_def mx_def cur_def]
  have pi: "pages_inv ?cnt ?s live free" and il: "i \<in> set live"
    using inv sb p by (auto simp: acc_inv_def found_def)
  have cn: "unat cur \<le> unat (a_num st)" using geo(3) by (simp add: word_le_nat_alt)
  define chunk where "chunk = sub_list (a_buf st) (a_pos st) (unat cur)"
  have lc: "length chunk = unat cur" using inv cn by (simp add: chunk_def acc_inv_def)
  define s1 where "s1 = ?s\<lparr>dvm_cache_data := (dvm_cache_data ?s)[i := blit (dvm_cache_data ?s ! i) (unat off) chunk]\<rparr>"
  obtain res d1 where wr: "raw_write ops (a_dev st) (rq_pdrv rq) (buf_ptr rq st) chunk (a_first st) cur = (res, d1)"
    by fastforce
  have di1: "dinv d1" using write_frame [OF di wr] lc by simp
  have unf: "dvm_hit_step ops rq st i =
    (if res \<noteq> RES_OK then Some (Inl (RES_ERROR, a_buf st, s1, d1))
     else (if off = 0 \<and> cur = DVM_PAGE_SECTORS then Some s1 else dvm_cache_promote s1 i) \<bind>
       (\<lambda>s2. Some (Inr (advance (st\<lparr>a_dvm := s2, a_dev := d1\<rparr>) cur))))"
    using w wr unfolding dvm_hit_step_def Let_def off_def [symmetric] mx_def [symmetric] cur_def [symmetric]
      chunk_def [symmetric] s1_def [symmetric] by simp
  show ?thesis
  proof (cases "res = RES_OK")
    case False
    then show ?thesis using di1 by (simp add: unf)
  next
    case True
    have up: "unat (a_first st) + unat cur \<le> 2 ^ 32" using inv cn by (simp add: acc_inv_def)
    have cont: "content d1 = (content (a_dev st))(rq_pdrv rq := overlay ?cnt (unat (a_first st)) chunk)"
      using write_ok [OF di wr [unfolded True] lc up] .
    have pi1: "pages_inv (content d1 (rq_pdrv rq)) s1 live free"
      using pages_write_page [OF pi il, of "unat off" chunk] geo hit lc by (simp add: s1_def cont)
    obtain s' live' where s': "(if off = 0 \<and> cur = DVM_PAGE_SECTORS then Some s1 else dvm_cache_promote s1 i) = Some s'"
      "pages_inv (content d1 (rq_pdrv rq)) s' live' free" "set live' = set live" "same_pages s' s1"
      using touch_page [OF pi1 il] by blast
    define st' where "st' = advance (st\<lparr>a_dvm := s', a_dev := d1, a_buf := a_buf st\<rparr>) cur"
    have "acc_inv (content d1 (rq_pdrv rq)) rq st' live' free"
      unfolding st'_def
    proof (rule acc_inv_advance [OF inv sb s'(2,3)])
      show "base s' j = base ?s j" for j using s'(4) by (simp add: same_pages_def s1_def)
      show "dvm_magic s' = DVM_MAGIC" "dvm_ready s'" "dvm_owner_pdrv s' = rq_pdrv rq"
        using s'(4) inv by (simp_all add: same_pages_def acc_inv_def s1_def)
      show "cur \<le> a_num st" by (rule geo(3))
      show "base ?s k = cur_page_sector (a_first st) \<or> unat (a_first st) + unat cur \<le> unat (base ?s k)"
        if "a_p st = Some k" for k using that p hit by simp
    qed simp
    moreover have "a_num st' < a_num st"
      using unat_advance(2) [of cur st] geo(2,3) cn inv
      by (simp add: st'_def advance_def word_less_nat_alt acc_inv_def)
    moreover have "dvm_hit_step ops rq st i = Some (Inr st')"
      unfolding unf s'(1) using True by (simp add: st'_def)
    moreover have "a_pos st + unat cur \<le> length (a_buf st)" using inv cn by (simp add: acc_inv_def)
    ultimately show ?thesis using di1 cont
      by (intro exI [of _ "Inr st'"]) (auto simp: st'_def advance_def chunk_def)
  qed
qed

lemma direct_geometry:
  assumes inv: "acc_inv cnt rq st live free" and sb: "cur_page_sector (a_first st) < a_sbase st"
    and n: "a_num st \<noteq> 0"
    and miss: "\<And>i. a_p st = Some i \<Longrightarrow> base (a_dvm st) i \<noteq> cur_page_sector (a_first st)"
    and mx: "mx = (case a_p st of Some i \<Rightarrow> ucast (base (a_dvm st) i - a_first st) | None \<Rightarrow> a_num st)"
    and cur: "cur = (if a_num st < mx then a_num st else mx)"
  shows "cur \<le> a_num st" "0 < unat cur"
    "\<And>i. a_p st = Some i \<Longrightarrow> unat (a_first st) + unat cur \<le> unat (base (a_dvm st) i)"
    "\<And>j. j \<in> set live \<Longrightarrow> unat (base (a_dvm st) j) + 4 \<le> unat (a_first st) \<or>
       unat (a_first st) + unat cur \<le> unat (base (a_dvm st) j)"
proof -
  let ?f = "a_first st" and ?pg = "cur_page_sector (a_first st)" and ?s = "a_dvm st"
  have fd: "found ?s live (a_p st) (a_sbase st) ?pg" using inv sb by (simp add: acc_inv_def)
  have al: "unat (base ?s j) mod 4 = 0" "unat (base ?s j) < 2 ^ 32" if "j \<in> set live" for j
    using inv that by (auto simp: acc_inv_def pages_inv_def)
  have n0: "0 < unat (a_num st)" using n by (simp add: unat_gt_0)
  show c1: "cur \<le> a_num st" by (auto simp: cur)
  have some: "unat mx = unat (base ?s i) - unat ?f \<and> unat ?f < unat (base ?s i)" if i: "a_p st = Some i" for i
  proof -
    have l: "i \<in> set live" "?pg \<le> base ?s i" using fd i by (auto simp: found_def)
    then have "unat ?pg < unat (base ?s i)"
      using miss [OF i] by (simp add: word_le_nat_alt word_unat_eq_iff)
    then have lt: "unat ?f < unat (base ?s i)"
      using mult4_gap [OF page_le(3) al(1) [OF l(1)]] page_le(2) [of ?f] by fastforce
    then have "unat (base ?s i - ?f) = unat (base ?s i) - unat ?f"
      by (simp add: unat_sub word_le_nat_alt)
    moreover have "unat (ucast (base ?s i - ?f) :: u32) = unat (base ?s i - ?f)"
      using al(2) [OF l(1)] calculation by (simp add: unsigned_ucast_eq take_bit_nat_eq_self)
    ultimately show ?thesis using i lt by (simp add: mx)
  qed
  show c3: "unat ?f + unat cur \<le> unat (base ?s i)" if i: "a_p st = Some i" for i
    using some [OF i] by (auto simp: cur word_less_nat_alt)
  show "0 < unat cur"
  proof (cases "a_p st")
    case None
    then show ?thesis using n0 by (simp add: cur mx)
  next
    case (Some i)
    then show ?thesis using some [OF Some] n0 by (auto simp: cur)
  qed
  show "unat (base ?s j) + 4 \<le> unat ?f \<or> unat ?f + unat cur \<le> unat (base ?s j)" if j: "j \<in> set live" for j
  proof (cases "base ?s j < ?pg")
    case True
    then show ?thesis using mult4_gap [OF al(1) [OF j] page_le(3) [of ?f]] page_le(1) [of ?f]
      by (auto simp: word_less_nat_alt)
  next
    case False
    then obtain i where i: "a_p st = Some i" using fd j by (auto simp: found_def split: option.splits)
    then have "base ?s i \<le> base ?s j" using fd j False by (auto simp: found_def)
    then show ?thesis using c3 [OF i] by (simp add: word_le_nat_alt)
  qed
qed

lemma direct_advance:
  assumes inv: "acc_inv cnt rq st live free" and sb: "cur_page_sector (a_first st) < a_sbase st"
    and pi: "pages_inv cnt' (a_dvm st) live free"
    and cur: "cur \<le> a_num st" "0 < unat cur"
    and up: "\<And>i. a_p st = Some i \<Longrightarrow> unat (a_first st) + unat cur \<le> unat (base (a_dvm st) i)"
    and len: "length buf' = length (a_buf st)"
  shows "acc_inv cnt' rq (advance (st\<lparr>a_dev := d', a_buf := buf'\<rparr>) cur) live free"
    and "a_num (advance (st\<lparr>a_dev := d', a_buf := buf'\<rparr>) cur) < a_num st"
proof -
  have "acc_inv cnt' rq (advance (st\<lparr>a_dvm := a_dvm st, a_dev := d', a_buf := buf'\<rparr>) cur) live free"
    using inv by (intro acc_inv_advance [OF inv sb pi refl]) (auto simp: acc_inv_def cur len up)
  then show "acc_inv cnt' rq (advance (st\<lparr>a_dev := d', a_buf := buf'\<rparr>) cur) live free" by simp
  have "unat cur \<le> unat (a_num st)" using cur(1) by (simp add: word_le_nat_alt)
  then show "a_num (advance (st\<lparr>a_dev := d', a_buf := buf'\<rparr>) cur) < a_num st"
    using cur by (simp add: advance_def word_less_nat_alt unat_sub)
qed

lemma direct_read_step:
  assumes inv: "acc_inv (content (a_dev st) (rq_pdrv rq)) rq st live free"
    and sb: "cur_page_sector (a_first st) < a_sbase st" and di: "dinv (a_dev st)"
    and n: "a_num st \<noteq> 0" and w: "\<not> rq_write rq"
    and miss: "\<And>i. a_p st = Some i \<Longrightarrow> base (a_dvm st) i \<noteq> cur_page_sector (a_first st)"
    and pre: "take (a_pos st) (a_buf st) =
      secs (content (a_dev st) (rq_pdrv rq)) (unat (rq_first rq)) (a_pos st)"
  shows "\<exists>r. dvm_direct_step ops rq st = Some r \<and>
    (case r of Inl (res, buf, s, d) \<Rightarrow> res \<noteq> RES_OK \<and> length buf = length (a_buf st) \<and> s = a_dvm st \<and>
        dinv d \<and> content d = content (a_dev st) \<and>
        \<not> reads_succeed ops (rq_pdrv rq)
     | Inr st' \<Rightarrow> dinv (a_dev st') \<and> content (a_dev st') = content (a_dev st) \<and> a_num st' < a_num st \<and>
         acc_inv (content (a_dev st) (rq_pdrv rq)) rq st' live free \<and>
         take (a_pos st') (a_buf st') =
           secs (content (a_dev st) (rq_pdrv rq)) (unat (rq_first rq)) (a_pos st'))"
proof -
  let ?cnt = "content (a_dev st) (rq_pdrv rq)"
  define mx :: u32 where "mx = (case a_p st of Some i \<Rightarrow> ucast (base (a_dvm st) i - a_first st) | None \<Rightarrow> a_num st)"
  define cur where "cur = (if a_num st < mx then a_num st else mx)"
  note geo = direct_geometry [OF inv sb n miss mx_def cur_def]
  have cn: "unat cur \<le> unat (a_num st)" using geo(1) by (simp add: word_le_nat_alt)
  have sz: "a_pos st + unat cur \<le> length (a_buf st)" using inv cn by (simp add: acc_inv_def)
  define chunk where "chunk = sub_list (a_buf st) (a_pos st) (unat cur)"
  have lc: "length chunk = unat cur" using sz by (simp add: chunk_def)
  obtain res data d1 where rd: "raw_read ops (a_dev st) (rq_pdrv rq) (buf_ptr rq st) chunk (a_first st) cur = (res, data, d1)"
    by (metis prod_cases3)
  have c23: "unat cur < 2 ^ 23" using inv cn by (simp add: acc_inv_def)
  have fr: "dinv d1" "content d1 = content (a_dev st)" "length data = unat cur"
    using read_frame [OF di rd lc c23] lc by auto
  define buf' where "buf' = blit (a_buf st) (a_pos st) data"
  have lb: "length buf' = length (a_buf st)" using sz fr(3) by (simp add: buf'_def)
  have unf: "dvm_direct_step ops rq st = (if res \<noteq> RES_OK then Some (Inl (res, buf', a_dvm st, d1))
      else Some (Inr (advance (st\<lparr>a_dev := d1, a_buf := buf'\<rparr>) cur)))"
    using w rd unfolding dvm_direct_step_def Let_def mx_def [symmetric] cur_def [symmetric]
      chunk_def [symmetric] by (simp add: buf'_def)
  show ?thesis
  proof (cases "res = RES_OK")
    case False
    then show ?thesis using fr lb reads_succeedD [OF rd] unfolding unf by simp
  next
    case True
    have pi: "pages_inv ?cnt (a_dvm st) live free" using inv by (simp add: acc_inv_def)
    have up: "unat (a_first st) + unat cur \<le> 2 ^ 32" using inv cn by (simp add: acc_inv_def)
    have dt: "data = secs ?cnt (unat (a_first st)) (unat cur)"
      using read_ok [OF di rd [unfolded True] lc c23 up] .
    have "unat (a_first st) = unat (rq_first rq) + a_pos st" using inv by (simp add: acc_inv_def)
    moreover have "take (a_pos st + unat cur) buf' = take (a_pos st) (a_buf st) @ data"
      using take_blit [of "a_pos st" data "a_buf st"] sz fr(3) by (simp add: buf'_def)
    ultimately have "take (a_pos st + unat cur) buf' = secs ?cnt (unat (rq_first rq)) (a_pos st + unat cur)"
      by (simp add: pre dt secs_append)
    moreover define st' where "st' = advance (st\<lparr>a_dev := d1, a_buf := buf'\<rparr>) cur"
    moreover have "acc_inv ?cnt rq st' live free" "a_num st' < a_num st"
      unfolding st'_def by (rule direct_advance [OF inv sb pi geo(1,2) geo(3) lb]; assumption)+
    moreover have "a_dev st' = d1" "a_buf st' = buf'" "a_pos st' = a_pos st + unat cur"
      by (simp_all add: st'_def advance_def)
    moreover have "dvm_direct_step ops rq st = Some (Inr st')" using True by (simp add: unf st'_def)
    ultimately show ?thesis using fr by simp
  qed
qed

lemma direct_write_step:
  assumes inv: "acc_inv (content (a_dev st) (rq_pdrv rq)) rq st live free"
    and sb: "cur_page_sector (a_first st) < a_sbase st" and di: "dinv (a_dev st)"
    and n: "a_num st \<noteq> 0" and w: "rq_write rq"
    and miss: "\<And>i. a_p st = Some i \<Longrightarrow> base (a_dvm st) i \<noteq> cur_page_sector (a_first st)"
  shows "\<exists>r. dvm_direct_step ops rq st = Some r \<and>
    (case r of Inl (res, buf, s, d) \<Rightarrow> res \<noteq> RES_OK \<and> buf = a_buf st \<and> dinv d
     | Inr st' \<Rightarrow> dinv (a_dev st') \<and> a_buf st' = a_buf st \<and> a_num st' < a_num st \<and>
         (\<exists>n. a_pos st' = a_pos st + n \<and> a_pos st + n \<le> length (a_buf st) \<and>
            content (a_dev st') = (content (a_dev st))(rq_pdrv rq :=
              overlay (content (a_dev st) (rq_pdrv rq)) (unat (a_first st)) (sub_list (a_buf st) (a_pos st) n))) \<and>
         (\<exists>live'. acc_inv (content (a_dev st') (rq_pdrv rq)) rq st' live' free))"
proof -
  let ?cnt = "content (a_dev st) (rq_pdrv rq)"
  define mx :: u32 where "mx = (case a_p st of Some i \<Rightarrow> ucast (base (a_dvm st) i - a_first st) | None \<Rightarrow> a_num st)"
  define cur where "cur = (if a_num st < mx then a_num st else mx)"
  note geo = direct_geometry [OF inv sb n miss mx_def cur_def]
  have cn: "unat cur \<le> unat (a_num st)" using geo(1) by (simp add: word_le_nat_alt)
  have sz: "a_pos st + unat cur \<le> length (a_buf st)" using inv cn by (simp add: acc_inv_def)
  define chunk where "chunk = sub_list (a_buf st) (a_pos st) (unat cur)"
  have lc: "length chunk = unat cur" using sz by (simp add: chunk_def)
  obtain res d1 where wr: "raw_write ops (a_dev st) (rq_pdrv rq) (buf_ptr rq st) chunk (a_first st) cur = (res, d1)"
    by fastforce
  have fr: "dinv d1" using write_frame [OF di wr lc] .
  have unf: "dvm_direct_step ops rq st = (if res \<noteq> RES_OK then Some (Inl (res, a_buf st, a_dvm st, d1))
      else Some (Inr (advance (st\<lparr>a_dev := d1, a_buf := a_buf st\<rparr>) cur)))"
    using w wr unfolding dvm_direct_step_def Let_def mx_def [symmetric] cur_def [symmetric]
      chunk_def [symmetric] by simp
  show ?thesis
  proof (cases "res = RES_OK")
    case False
    then show ?thesis using fr unfolding unf by auto
  next
    case True
    have up: "unat (a_first st) + unat cur \<le> 2 ^ 32" using inv cn by (simp add: acc_inv_def)
    have cont: "content d1 = (content (a_dev st))(rq_pdrv rq := overlay ?cnt (unat (a_first st)) chunk)"
      using write_ok [OF di wr [unfolded True] lc up] .
    have pi: "pages_inv (content d1 (rq_pdrv rq)) (a_dvm st) live free"
      using inv pages_write_gap [of ?cnt "a_dvm st" live free "unat (a_first st)" chunk] geo(4) lc
      by (simp add: cont acc_inv_def)
    define st' where "st' = advance (st\<lparr>a_dev := d1, a_buf := a_buf st\<rparr>) cur"
    have "acc_inv (content d1 (rq_pdrv rq)) rq st' live free" "a_num st' < a_num st"
      unfolding st'_def by (rule direct_advance [OF inv sb pi geo(1,2) geo(3) refl]; assumption)+
    moreover have "a_dev st' = d1" "a_buf st' = a_buf st" "a_pos st' = a_pos st + unat cur"
      by (simp_all add: st'_def advance_def)
    moreover have "dvm_direct_step ops rq st = Some (Inr st')" using True by (simp add: unf st'_def)
    ultimately show ?thesis using fr cont sz unfolding chunk_def
      by (intro exI [of _ "Inr st'"]) auto
  qed
qed

lemma fill_step:
  assumes inv: "acc_inv (content (a_dev st) (rq_pdrv rq)) rq st live free"
    and sb: "cur_page_sector (a_first st) < a_sbase st" and di: "dinv (a_dev st)"
    and n: "a_num st \<noteq> 0"
    and miss: "\<And>i. a_p st = Some i \<Longrightarrow> base (a_dvm st) i \<noteq> cur_page_sector (a_first st)"
  shows "\<exists>r. dvm_fill_step ops rq st = Some r \<and>
    (case r of Inl (res, buf, s, d) \<Rightarrow> dinv d \<and> content d = content (a_dev st) \<and>
        (\<exists>live free. pages_inv (content (a_dev st) (rq_pdrv rq)) s live free) \<and>
        dvm_owner_pdrv s = rq_pdrv rq \<and>
        (res = RES_OK \<longrightarrow> buf = secs (content (a_dev st) (rq_pdrv rq)) (unat (rq_first rq)) (unat (rq_count rq))) \<and>
        \<not> reads_succeed ops (rq_pdrv rq)
     | Inr st' \<Rightarrow> dinv (a_dev st') \<and> content (a_dev st') = content (a_dev st) \<and>
         a_num st' = a_num st \<and> at_hit st' \<and> a_pos st' = a_pos st \<and> a_buf st' = a_buf st \<and>
         (\<exists>live free. acc_inv (content (a_dev st) (rq_pdrv rq)) rq st' live free))"
proof -
  let ?cnt = "content (a_dev st) (rq_pdrv rq)" and ?s = "a_dvm st" and ?pg = "cur_page_sector (a_first st)"
  have pi: "pages_inv ?cnt ?s live free" using inv by (simp add: acc_inv_def)
  have "0 < unat (a_num st)" using n by (simp add: unat_gt_0)
  then have "unat (a_first st) < 2 ^ 32" using inv by (simp add: acc_inv_def)
  then have pg: "unat ?pg < 2 ^ 32" "unat ?pg mod 4 = 0" "unat ?pg + 4 \<le> 2 ^ 32"
    using page_le [of "a_first st"] mult4_gap [of "unat ?pg" "2 ^ 32"] by auto
  obtain i as bs where ev: "dvm_cache_evict ?s = Some i" "live @ free = as @ i # bs"
    "set as \<subseteq> set live" "set bs \<subseteq> set free" using evict_split [OF pi] by blast
  have i: "i < length (dvm_entries ?s)" using pages_index [OF pi] ev(2) by (metis in_set_conv_decomp)
  obtain res data d1 where rd: "raw_read ops (a_dev st) (rq_pdrv rq) (dvm_entry_data (set_base ?s i ?pg) i)
      (dvm_cache_data ?s ! i) ?pg DVM_PAGE_SECTORS = (res, data, d1)" by (metis prod_cases3)
  have l4: "length (dvm_cache_data ?s ! i) = unat DVM_PAGE_SECTORS"
    using pi i by (simp add: pages_inv_def sized_def DVM_PAGE_SECTORS_def)
  have fr: "dinv d1" "content d1 = content (a_dev st)" "length data = 4"
    using read_frame [OF di rd l4] l4 by (auto simp: DVM_PAGE_SECTORS_def)
  define s2 where "s2 = (set_base ?s i ?pg)\<lparr>dvm_cache_data := (dvm_cache_data ?s)[i := data]\<rparr>"
  show ?thesis
  proof (cases "res = RES_OK")
    case False
    obtain res' buf' d2 where rd2: "raw_read ops d1 (rq_pdrv rq) (rq_ptr rq) (a_buf st) (rq_first rq) (rq_count rq) = (res', buf', d2)"
      by (metis prod_cases3)
    have lb: "length (a_buf st) = unat (rq_count rq)" "unat (rq_count rq) < 2 ^ 23"
      "unat (rq_first rq) + unat (rq_count rq) \<le> 2 ^ 32"
      using inv by (simp_all add: acc_inv_def)
    have "dvm_fill_step ops rq st = Some (Inl (res', buf', set_base s2 i DVM_EMPTY_PAGE, d2))"
      using False ev(1) rd rd2 by (simp add: dvm_fill_step_def s2_def Let_def)
    moreover have "pages_inv ?cnt (set_base s2 i DVM_EMPTY_PAGE) as (i # bs)"
      using fill_failed_pages [OF pi ev(2,3,4) fr(3)] by (simp add: s2_def)
    moreover have "dvm_owner_pdrv (set_base s2 i DVM_EMPTY_PAGE) = rq_pdrv rq"
      using inv by (simp add: s2_def acc_inv_def)
    moreover have "res' = RES_OK \<Longrightarrow> buf' = secs ?cnt (unat (rq_first rq)) (unat (rq_count rq))"
      using read_ok [OF fr(1) _ lb] rd2 fr(2) by auto
    ultimately show ?thesis
      using read_frame [OF fr(1) rd2 lb(1,2)] fr(2) reads_succeedD [OF rd False] by auto
  next
    case True
    have dt: "data = secs ?cnt (unat ?pg) 4"
      using read_ok [OF di rd [unfolded True] l4] pg(3) by (simp add: DVM_PAGE_SECTORS_def)
    have "found ?s live (a_p st) (a_sbase st) ?pg" using inv sb by (simp add: acc_inv_def)
    then have new: "base ?s j \<noteq> ?pg" if "j \<in> set as" for j
      using that ev(3) miss by (fastforce simp: found_def split: option.splits)
    obtain s3 where s3: "dvm_cache_promote s2 i = Some s3" "pages_inv ?cnt s3 (i # as) bs" "same_pages s3 s2"
      using fill_done_pages [OF pi ev(2,3,4) dt pg(2,1) new] by (auto simp: s2_def)
    define st' where "st' = st\<lparr>a_dvm := s3, a_dev := d1, a_p := Some i, a_sbase := ?pg + 1\<rparr>"
    have step: "dvm_fill_step ops rq st = Some (Inr st')"
      using True ev(1) rd s3(1) by (simp add: dvm_fill_step_def s2_def st'_def Let_def)
    have bi: "base s3 i = ?pg" using s3(3) i by (simp add: same_pages_def s2_def base_set_base)
    have lt: "?pg < ?pg + 1" using pg(1) by (simp add: word_less_nat_alt word_plus1_gt)
    have "found s3 (i # as) (Some i) (?pg + 1) ?pg" using bi by (simp add: found_def)
    then have "acc_inv ?cnt rq st' (i # as) bs"
      using inv s3 by (simp add: acc_inv_def st'_def same_pages_def s2_def)
    moreover have "at_hit st'" using bi lt by (simp add: at_hit_def st'_def)
    ultimately show ?thesis using step fr by (auto simp: st'_def)
  qed
qed

text \<open>The invariants of the two kinds of transfer, and that an iteration keeps them.\<close>

definition read_inv :: "(u8 \<Rightarrow> nat \<Rightarrow> sector) \<Rightarrow> dvm_req \<Rightarrow> 'd acc \<Rightarrow> bool" where
  "read_inv cnt rq st \<longleftrightarrow> dinv (a_dev st) \<and> content (a_dev st) = cnt \<and>
     (\<exists>live free. acc_inv (cnt (rq_pdrv rq)) rq st live free) \<and>
     take (a_pos st) (a_buf st) = secs (cnt (rq_pdrv rq)) (unat (rq_first rq)) (a_pos st)"

definition read_post :: "(u8 \<Rightarrow> nat \<Rightarrow> sector) \<Rightarrow> dvm_req \<Rightarrow> 'd acc_result \<Rightarrow> bool" where
  "read_post cnt rq = (\<lambda>(res, buf, s, d). dinv d \<and> content d = cnt \<and>
     (\<exists>live free. pages_inv (cnt (rq_pdrv rq)) s live free) \<and> dvm_owner_pdrv s = rq_pdrv rq \<and>
     (res = RES_OK \<longrightarrow> buf = secs (cnt (rq_pdrv rq)) (unat (rq_first rq)) (unat (rq_count rq))) \<and>
     (reads_succeed ops (rq_pdrv rq) \<longrightarrow> res = RES_OK))"

lemma read_step:
  assumes inv: "read_inv cnt rq st" and n: "a_num st \<noteq> 0" and w: "\<not> rq_write rq"
  shows "\<exists>r. dvm_access_step ops rq st = Some r \<and>
    (case r of Inl res \<Rightarrow> read_post cnt rq res
             | Inr st' \<Rightarrow> read_inv cnt rq st' \<and> acc_measure st' < acc_measure st)"
proof -
  obtain live free where ai: "acc_inv (cnt (rq_pdrv rq)) rq st live free"
    and di: "dinv (a_dev st)" "content (a_dev st) = cnt"
    and pre: "take (a_pos st) (a_buf st) = secs (cnt (rq_pdrv rq)) (unat (rq_first rq)) (a_pos st)"
    using inv by (auto simp: read_inv_def)
  obtain p sb where ss: "dvm_search_step st = Some (st\<lparr>a_p := p, a_sbase := sb\<rparr>)"
    and ai': "acc_inv (cnt (rq_pdrv rq)) rq (st\<lparr>a_p := p, a_sbase := sb\<rparr>) live free"
    and lt: "cur_page_sector (a_first st) < sb" and ph: "at_hit st \<longrightarrow> p = a_p st"
    using search_step_inv [OF ai n] by blast
  define t where "t = st\<lparr>a_p := p, a_sbase := sb\<rparr>"
  have t: "acc_inv (content (a_dev t) (rq_pdrv rq)) rq t live free" "dinv (a_dev t)" "a_num t \<noteq> 0"
    "cur_page_sector (a_first t) < a_sbase t" "a_dvm t = a_dvm st" "a_first t = a_first st" "a_p t = p"
    "content (a_dev t) = cnt" "a_num t = a_num st"
    "take (a_pos t) (a_buf t) = secs (content (a_dev t) (rq_pdrv rq)) (unat (rq_first rq)) (a_pos t)"
    using ai' di n lt pre by (simp_all add: t_def)
  show ?thesis
  proof (cases "\<exists>i. p = Some i \<and> base (a_dvm st) i = cur_page_sector (a_first st)")
    case True
    then obtain i where i: "p = Some i" "base (a_dvm st) i = cur_page_sector (a_first st)" by blast
    have "dvm_access_step ops rq st = dvm_hit_step ops rq t i"
      using i ss by (simp add: dvm_access_step_def t_def)
    moreover have pa: "a_p t = Some i" and hb: "base (a_dvm t) i = cur_page_sector (a_first t)"
      using i t(5,6,7) by simp_all
    obtain st' live' where h: "dvm_hit_step ops rq t i = Some (Inr st')"
      "acc_inv (content (a_dev t) (rq_pdrv rq)) rq st' live' free" "a_num st' < a_num t" "a_dev st' = a_dev t"
      "take (a_pos st') (a_buf st') = secs (content (a_dev t) (rq_pdrv rq)) (unat (rq_first rq)) (a_pos st')"
      using hit_read_step [OF t(1,4,3) pa hb w t(10), where ops = ops] by blast
    moreover have "read_inv cnt rq st'"
      unfolding read_inv_def h(4) t(8) using h(2,5) t(2) unfolding t(8) by blast
    moreover have "acc_measure st' < acc_measure st" by (rule acc_measure_dec) (use h(3) t(9) in simp)
    ultimately show ?thesis by (intro exI [of _ "Inr st'"]) simp
  next
    case False
    have miss: "\<And>i. a_p t = Some i \<Longrightarrow> base (a_dvm t) i \<noteq> cur_page_sector (a_first t)"
      using False t(5,6,7) by auto
    have nh: "\<not> at_hit st"
    proof
      assume h: "at_hit st"
      then have "\<exists>i. a_p st = Some i \<and> base (a_dvm st) i = cur_page_sector (a_first st)"
        unfolding at_hit_def by blast
      with False h ph show False by metis
    qed
    let ?c = "rq_count rq < DVM_PAGE_SECTORS \<or> \<not> dvm_is_aligned (rq_ptr rq)"
    have acc: "dvm_access_step ops rq st = (if ?c then dvm_fill_step ops rq t else dvm_direct_step ops rq t)"
      using False ss w by (auto simp: dvm_access_step_def t_def split: option.splits)
    show ?thesis
    proof (cases ?c)
      case True
      obtain r where r: "dvm_fill_step ops rq t = Some r" and rs:
        "case r of Inl (res, buf, s, d) \<Rightarrow> dinv d \<and> content d = content (a_dev t) \<and>
          (\<exists>live free. pages_inv (content (a_dev t) (rq_pdrv rq)) s live free) \<and> dvm_owner_pdrv s = rq_pdrv rq \<and>
          (res = RES_OK \<longrightarrow> buf = secs (content (a_dev t) (rq_pdrv rq)) (unat (rq_first rq)) (unat (rq_count rq))) \<and>
          \<not> reads_succeed ops (rq_pdrv rq)
        | Inr st' \<Rightarrow> dinv (a_dev st') \<and> content (a_dev st') = content (a_dev t) \<and>
           a_num st' = a_num t \<and> at_hit st' \<and> a_pos st' = a_pos t \<and> a_buf st' = a_buf t \<and>
           (\<exists>live free. acc_inv (content (a_dev t) (rq_pdrv rq)) rq st' live free)"
        using fill_step [OF t(1,4,2,3) miss] by blast
      show ?thesis
      proof (cases r)
        case (Inl a)
        then show ?thesis using r rs acc True t(8) by (cases a) (auto simp: read_post_def)
      next
        case (Inr st')
        then show ?thesis using r rs acc True t(8,9,10) acc_measure_hit [OF _ _ nh, of st']
          by (auto simp: read_inv_def)
      qed
    next
      case False
      obtain r where r: "dvm_direct_step ops rq t = Some r" and rs:
        "case r of Inl (res, buf, s, d) \<Rightarrow> res \<noteq> RES_OK \<and> length buf = length (a_buf t) \<and> s = a_dvm t \<and>
          dinv d \<and> content d = content (a_dev t) \<and> \<not> reads_succeed ops (rq_pdrv rq)
        | Inr st' \<Rightarrow> dinv (a_dev st') \<and> content (a_dev st') = content (a_dev t) \<and> a_num st' < a_num t \<and>
           acc_inv (content (a_dev t) (rq_pdrv rq)) rq st' live free \<and>
           take (a_pos st') (a_buf st') =
             secs (content (a_dev t) (rq_pdrv rq)) (unat (rq_first rq)) (a_pos st')"
        using direct_read_step [OF t(1,4,2,3) w miss t(10)] by blast
      show ?thesis
      proof (cases r)
        case (Inl a)
        then show ?thesis using r rs acc False t(1,8)
          by (cases a) (auto simp: read_post_def acc_inv_def)
      next
        case (Inr st')
        then show ?thesis using r rs acc False t(8,9) acc_measure_dec [of st' st]
          by (auto simp: read_inv_def)
      qed
    qed
  qed
qed

definition write_inv :: "(u8 \<Rightarrow> nat \<Rightarrow> sector) \<Rightarrow> sector list \<Rightarrow> dvm_req \<Rightarrow> 'd acc \<Rightarrow> bool" where
  "write_inv cnt buf rq st \<longleftrightarrow> dinv (a_dev st) \<and> a_buf st = buf \<and>
     content (a_dev st) = cnt(rq_pdrv rq :=
       overlay (cnt (rq_pdrv rq)) (unat (rq_first rq)) (take (a_pos st) buf)) \<and>
     (\<exists>live free. acc_inv (content (a_dev st) (rq_pdrv rq)) rq st live free)"

definition write_post :: "(u8 \<Rightarrow> nat \<Rightarrow> sector) \<Rightarrow> sector list \<Rightarrow> dvm_req \<Rightarrow> 'd acc_result \<Rightarrow> bool" where
  "write_post cnt buf rq = (\<lambda>(res, buf', s, d). dinv d \<and> buf' = buf \<and>
     (res = RES_OK \<longrightarrow>
        content d = cnt(rq_pdrv rq := overlay (cnt (rq_pdrv rq)) (unat (rq_first rq)) buf) \<and>
        (\<exists>live free. pages_inv (content d (rq_pdrv rq)) s live free) \<and> dvm_owner_pdrv s = rq_pdrv rq))"

lemma write_inv_step:
  assumes inv: "write_inv cnt buf rq st" and f: "unat (a_first st) = unat (rq_first rq) + a_pos st"
    and di: "dinv (a_dev st')" and b: "a_buf st' = a_buf st"
    and n: "a_pos st' = a_pos st + n" "a_pos st + n \<le> length (a_buf st)"
    and c: "content (a_dev st') = (content (a_dev st))(rq_pdrv rq :=
      overlay (content (a_dev st) (rq_pdrv rq)) (unat (a_first st)) (sub_list (a_buf st) (a_pos st) n))"
    and ai: "acc_inv (content (a_dev st') (rq_pdrv rq)) rq st' live' free"
  shows "write_inv cnt buf rq st'"
proof -
  have bf: "a_buf st = buf" and ct: "content (a_dev st) = cnt(rq_pdrv rq :=
      overlay (cnt (rq_pdrv rq)) (unat (rq_first rq)) (take (a_pos st) buf))"
    using inv by (simp_all add: write_inv_def)
  have "content (a_dev st') = cnt(rq_pdrv rq :=
      overlay (cnt (rq_pdrv rq)) (unat (rq_first rq)) (take (a_pos st') buf))"
    unfolding c ct f bf n(1) using overlay_take_step [of "a_pos st" n buf] n(2) bf by simp
  then show ?thesis unfolding write_inv_def using di b bf ai by blast
qed

lemma write_step:
  assumes inv: "write_inv cnt buf rq st" and n: "a_num st \<noteq> 0" and w: "rq_write rq"
  shows "\<exists>r. dvm_access_step ops rq st = Some r \<and>
    (case r of Inl res \<Rightarrow> write_post cnt buf rq res
             | Inr st' \<Rightarrow> write_inv cnt buf rq st' \<and> acc_measure st' < acc_measure st)"
proof -
  obtain live free where ai: "acc_inv (content (a_dev st) (rq_pdrv rq)) rq st live free"
    using inv by (auto simp: write_inv_def)
  obtain p sb where ss: "dvm_search_step st = Some (st\<lparr>a_p := p, a_sbase := sb\<rparr>)"
    and ai': "acc_inv (content (a_dev st) (rq_pdrv rq)) rq (st\<lparr>a_p := p, a_sbase := sb\<rparr>) live free"
    and lt: "cur_page_sector (a_first st) < sb"
    using search_step_inv [OF ai n] by blast
  define t where "t = st\<lparr>a_p := p, a_sbase := sb\<rparr>"
  have t: "acc_inv (content (a_dev t) (rq_pdrv rq)) rq t live free"
    "cur_page_sector (a_first t) < a_sbase t" "a_num t \<noteq> 0" "a_p t = p" "a_num t = a_num st"
    "a_dvm t = a_dvm st" "a_first t = a_first st"
    using ai' n lt by (simp_all add: t_def)
  have ti: "write_inv cnt buf rq t" using inv t(1) unfolding write_inv_def t_def by auto
  then have di: "dinv (a_dev t)" and bf: "a_buf t = buf" by (simp_all add: write_inv_def)
  have f: "unat (a_first t) = unat (rq_first rq) + a_pos t" using t(1) by (simp add: acc_inv_def)
  define Q where "Q r \<longleftrightarrow> (case r of Inl (res, buf, s, d) \<Rightarrow> res \<noteq> RES_OK \<and> buf = a_buf t \<and> dinv d
     | Inr st' \<Rightarrow> dinv (a_dev st') \<and> a_buf st' = a_buf t \<and> a_num st' < a_num t \<and>
         (\<exists>n. a_pos st' = a_pos t + n \<and> a_pos t + n \<le> length (a_buf t) \<and>
            content (a_dev st') = (content (a_dev t))(rq_pdrv rq :=
              overlay (content (a_dev t) (rq_pdrv rq)) (unat (a_first t)) (sub_list (a_buf t) (a_pos t) n))) \<and>
         (\<exists>live'. acc_inv (content (a_dev st') (rq_pdrv rq)) rq st' live' free))"
    for r :: "'d acc_result + 'd acc"
  have "\<exists>r. dvm_access_step ops rq st = Some r \<and> Q r"
  proof (cases "\<exists>i. p = Some i \<and> base (a_dvm st) i = cur_page_sector (a_first st)")
    case True
    then obtain i where i: "p = Some i" "base (a_dvm st) i = cur_page_sector (a_first st)" by blast
    have "dvm_access_step ops rq st = dvm_hit_step ops rq t i"
      using i ss by (simp add: dvm_access_step_def t_def)
    moreover have pa: "a_p t = Some i" and hb: "base (a_dvm t) i = cur_page_sector (a_first t)"
      using i t(4,6,7) by simp_all
    moreover obtain r where "dvm_hit_step ops rq t i = Some r" "Q r"
      using hit_write_step [OF t(1,2) di t(3) pa hb w] unfolding Q_def by blast
    ultimately show ?thesis by simp
  next
    case False
    have miss: "\<And>i. a_p t = Some i \<Longrightarrow> base (a_dvm t) i \<noteq> cur_page_sector (a_first t)"
      using False t(4,6,7) by auto
    have "dvm_access_step ops rq st = dvm_direct_step ops rq t"
      using False ss w by (auto simp: dvm_access_step_def t_def split: option.splits)
    moreover obtain r where "dvm_direct_step ops rq t = Some r" "Q r"
      using direct_write_step [OF t(1,2) di t(3) w miss] unfolding Q_def by blast
    ultimately show ?thesis by simp
  qed
  then obtain r where r: "dvm_access_step ops rq st = Some r" "Q r" by blast
  have "case r of Inl res \<Rightarrow> write_post cnt buf rq res
      | Inr st' \<Rightarrow> write_inv cnt buf rq st' \<and> acc_measure st' < acc_measure st"
  proof (cases r)
    case (Inl a)
    then show ?thesis using r(2) bf by (cases a) (simp add: Q_def write_post_def)
  next
    case (Inr st')
    then have q: "Q (Inr st')" using r(2) by simp
    then obtain n live' where "a_pos st' = a_pos t + n" "a_pos t + n \<le> length (a_buf t)"
      "content (a_dev st') = (content (a_dev t))(rq_pdrv rq :=
        overlay (content (a_dev t) (rq_pdrv rq)) (unat (a_first t)) (sub_list (a_buf t) (a_pos t) n))"
      "acc_inv (content (a_dev st') (rq_pdrv rq)) rq st' live' free"
      "dinv (a_dev st')" "a_buf st' = a_buf t" "a_num st' < a_num t"
      unfolding Q_def sum.case by blast
    then show ?thesis
      using write_inv_step [OF ti f] acc_measure_dec [of st' st] t(5) Inr by simp
  qed
  then show ?thesis using r(1) by blast
qed

text \<open>The two entry points, on a cache the rest of the program may have left in any state.\<close>

lemma acc_inv_start:
  assumes ok: "dvm_ok cnt s" and len: "length buf = unat count"
    and cnt: "unat count < 2 ^ 23" and rng: "unat sector + unat count \<le> 2 ^ 32" and c: "cnt p = c"
  shows "\<exists>live free. acc_inv c \<lparr>rq_pdrv = p, rq_ptr = ptr, rq_first = sector, rq_count = count, rq_write = w\<rparr>
    \<lparr>a_dvm = dvm_cache_claim s p, a_dev = d, a_buf = buf, a_pos = 0, a_first = sector, a_num = count,
     a_p = None, a_sbase = 0\<rparr> live free"
  using claim_pages [OF ok, of p] assms by (auto simp: acc_inv_def)

lemma pages_ok: "pages_inv (cnt (dvm_owner_pdrv s)) s live free \<Longrightarrow> dvm_ok cnt s"
  by (auto simp: dvm_ok_def pages_inv_def)

lemma cached_read:
  assumes ok: "dvm_ok (content d) s" and di: "dinv d" and len: "length buf = unat count"
    and cnt: "unat count < 2 ^ 23" and rng: "unat sector + unat count \<le> 2 ^ 32"
  shows "\<exists>res buf' s' d'. dvm_cache_read ops s d p ptr buf sector count = Some (res, buf', s', d') \<and>
    dvm_ok (content d') s' \<and> dinv d' \<and> content d' = content d \<and>
    (res = RES_OK \<longrightarrow> buf' = secs (content d p) (unat sector) (unat count)) \<and>
    (reads_succeed ops p \<longrightarrow> res = RES_OK)"
proof -
  consider (zero) "count = 0" | (dis) "count \<noteq> 0" "dvm_disabled s" | (on) "count \<noteq> 0" "\<not> dvm_disabled s"
    by blast
  then show ?thesis
  proof cases
    case zero
    then show ?thesis using assms by (simp add: dvm_cache_read_def)
  next
    case dis
    obtain res buf' d' where r: "raw_read ops d p ptr buf sector count = (res, buf', d')"
      by (metis prod_cases3)
    have "res = RES_OK \<longrightarrow> buf' = secs (content d p) (unat sector) (unat count)"
      using read_ok [OF di _ len cnt rng] r by blast
    then show ?thesis using dis r read_frame [OF di r len cnt] ok reads_succeedD [OF r]
      by (auto simp: dvm_cache_read_def)
  next
    case on
    define rq where "rq = \<lparr>rq_pdrv = p, rq_ptr = ptr, rq_first = sector, rq_count = count, rq_write = False\<rparr>"
    define st where "st = \<lparr>a_dvm = dvm_cache_claim s p, a_dev = d, a_buf = buf, a_pos = 0,
      a_first = sector, a_num = count, a_p = None, a_sbase = 0\<rparr>"
    have i0: "read_inv (content d) rq st"
      using acc_inv_start [OF ok len cnt rng refl] di by (simp add: read_inv_def rq_def st_def)
    have fin: "read_post (content d) rq (RES_OK, a_buf t, a_dvm t, a_dev t)"
      if t: "read_inv (content d) rq t" and z: "a_num t = 0" for t
    proof -
      obtain live free where a: "acc_inv (content d p) rq t live free"
        using t by (auto simp: read_inv_def rq_def)
      then have "take (a_pos t) (a_buf t) = a_buf t" "a_pos t = unat count"
        using z by (simp_all add: acc_inv_def rq_def)
      then show ?thesis using t a unfolding read_post_def by (auto simp: read_inv_def acc_inv_def rq_def)
    qed
    have w: "\<not> rq_write rq" by (simp add: rq_def)
    have "\<exists>r. dvm_access_loop ops rq st = Some r \<and> read_post (content d) rq r"
      by (rule access_loop_rule [where m = acc_measure, OF i0 read_step [OF _ _ w] fin])
    then obtain r where r: "dvm_access_loop ops rq st = Some r" "read_post (content d) rq r" by blast
    moreover have "dvm_cache_read ops s d p ptr buf sector count = dvm_access_loop ops rq st"
      using on by (simp add: dvm_cache_read_def dvm_cache_access_def rq_def st_def)
    ultimately show ?thesis
      using pages_ok by (cases r) (fastforce simp: read_post_def rq_def)
  qed
qed

lemma cached_write:
  assumes ok: "dvm_ok (content d) s" and di: "dinv d" and len: "length buf = unat count"
    and cnt: "unat count < 2 ^ 23" and rng: "unat sector + unat count \<le> 2 ^ 32" and en: "\<not> dvm_disabled s"
  shows "\<exists>res s' d'. dvm_cache_write ops s d p ptr buf sector count = Some (res, buf, s', d') \<and> dinv d' \<and>
    (res = RES_OK \<longrightarrow> dvm_ok (content d') s' \<and>
       content d' = (content d)(p := overlay (content d p) (unat sector) buf))"
proof (cases "count = 0")
  case True
  then show ?thesis using assms by (simp add: dvm_cache_write_def)
next
  case False
  define rq where "rq = \<lparr>rq_pdrv = p, rq_ptr = ptr, rq_first = sector, rq_count = count, rq_write = True\<rparr>"
  define st where "st = \<lparr>a_dvm = dvm_cache_claim s p, a_dev = d, a_buf = buf, a_pos = 0,
    a_first = sector, a_num = count, a_p = None, a_sbase = 0\<rparr>"
  have i0: "write_inv (content d) buf rq st"
    using acc_inv_start [OF ok len cnt rng refl] di by (simp add: write_inv_def rq_def st_def)
  have fin: "write_post (content d) buf rq (RES_OK, a_buf t, a_dvm t, a_dev t)"
    if t: "write_inv (content d) buf rq t" and z: "a_num t = 0" for t
  proof -
    obtain live free where a: "acc_inv (content (a_dev t) p) rq t live free"
      using t by (auto simp: write_inv_def rq_def)
    then have "take (a_pos t) buf = buf" using z t by (simp add: acc_inv_def rq_def write_inv_def)
    then show ?thesis using t a unfolding write_post_def by (auto simp: write_inv_def acc_inv_def rq_def)
  qed
  have w: "rq_write rq" by (simp add: rq_def)
  have "\<exists>r. dvm_access_loop ops rq st = Some r \<and> write_post (content d) buf rq r"
    by (rule access_loop_rule [where m = acc_measure, OF i0 write_step [OF _ _ w] fin])
  then obtain r where r: "dvm_access_loop ops rq st = Some r" "write_post (content d) buf rq r" by blast
  moreover have "dvm_cache_write ops s d p ptr buf sector count = dvm_access_loop ops rq st"
    using False en by (simp add: dvm_cache_write_def dvm_cache_access_def rq_def st_def)
  ultimately show ?thesis
    using pages_ok by (cases r) (fastforce simp: write_post_def rq_def)
qed

end

end
