(* ===== verification/SectorDriver.thy ===== *)
theory SectorDriver
  imports DvmCoherence
begin

text \<open>
  What the storage drivers (emu/tsd.c, emu/ata.c, emu/gcode.c) have in common: a driver moves
  whole 512-byte sectors and addresses them with 32 bits. \<open>sector_driver\<close> is the contract the
  disk layer needs of one drive, \<open>sector_io\<close> the smaller one of a driver that moves one
  sector at a time, and the \<open>sublocale\<close> shows that the loop over sectors lifts the second to
  the first.
\<close>

record exi_port =
  chn :: u8
  dev :: u8

section \<open>The loop over sectors\<close>

text \<open>
  \<open>for (i = 0; i < len; i++) { if (!one(addr, data)) return false; data += 512; addr += 1; }\<close>.
  A failing transfer may leave anything in the sector it was filling.
\<close>

fun for_sectors :: "('d \<Rightarrow> u32 \<Rightarrow> sector \<Rightarrow> bool \<times> sector \<times> 'd) \<Rightarrow> 'd \<Rightarrow> u32 \<Rightarrow> sector list \<Rightarrow> nat \<Rightarrow> nat
    \<Rightarrow> bool \<times> sector list \<times> 'd" where
  "for_sectors one d addr buf i 0 = (True, buf, d)"
| "for_sectors one d addr buf i (Suc n) =
     (let (ok, s, d') = one d addr (buf ! i); buf' = buf[i := s]
      in if ok then for_sectors one d' (addr + 1) buf' (i + 1) n else (False, buf', d'))"

lemma for_sectors_keeps:
  assumes "\<And>d a s k s' d'. P d \<Longrightarrow> one d a s = (k, s', d') \<Longrightarrow> P d'"
  shows "P d \<Longrightarrow> for_sectors one d a buf i n = (ok, buf', d') \<Longrightarrow> P d'"
proof (induction n arbitrary: d a buf i)
  case (Suc n)
  obtain k s e where o: "one d a (buf ! i) = (k, s, e)" by (metis prod_cases3)
  have "P e" using assms Suc.prems(1) o by blast
  then show ?case using Suc.prems(2) Suc.IH o by (cases k) auto
qed simp

section \<open>Contracts\<close>

locale sector_driver =
  fixes rd :: "'d \<Rightarrow> u32 \<Rightarrow> u32 \<Rightarrow> sector list \<Rightarrow> u32 \<Rightarrow> bool \<times> sector list \<times> 'd"
    and media :: "'d \<Rightarrow> u8 \<Rightarrow> nat \<Rightarrow> sector"
    and p :: u8
    and inv :: "'d \<Rightarrow> bool"
  assumes rd_ok: "inv d \<Longrightarrow> rd d a ptr buf n = (True, buf', d') \<Longrightarrow> length buf = unat n \<Longrightarrow>
      unat n < 2 ^ 23 \<Longrightarrow> unat a + unat n \<le> 2 ^ 32 \<Longrightarrow> buf' = secs (media d p) (unat a) (unat n)"
    and rd_frame: "inv d \<Longrightarrow> rd d a ptr buf n = (ok, buf', d') \<Longrightarrow> length buf = unat n \<Longrightarrow>
      unat n < 2 ^ 23 \<Longrightarrow> inv d' \<and> media d' = media d \<and> length buf' = length buf"

locale sector_io =
  fixes one :: "'d \<Rightarrow> u32 \<Rightarrow> sector \<Rightarrow> bool \<times> sector \<times> 'd"
    and media :: "'d \<Rightarrow> u8 \<Rightarrow> nat \<Rightarrow> sector"
    and p :: u8
    and inv :: "'d \<Rightarrow> bool"
  assumes one_ok: "inv d \<Longrightarrow> one d a s = (True, s', d') \<Longrightarrow> s' = media d p (unat a)"
    and one_frame: "inv d \<Longrightarrow> one d a s = (ok, s', d') \<Longrightarrow> inv d' \<and> media d' = media d"
begin

lemma for_sectors_frame:
  "inv d \<Longrightarrow> for_sectors one d a buf i n = (ok, buf', d') \<Longrightarrow>
     inv d' \<and> media d' = media d \<and> length buf' = length buf"
proof (induction n arbitrary: d a buf i)
  case (Suc n)
  obtain k s e where o: "one d a (buf ! i) = (k, s, e)" by (metis prod_cases3)
  note f = one_frame [OF Suc.prems(1) o]
  show ?case
  proof (cases k)
    case True
    then have "for_sectors one e (a + 1) (buf[i := s]) (i + 1) n = (ok, buf', d')"
      using Suc.prems(2) o by simp
    then show ?thesis using Suc.IH f by fastforce
  next
    case False
    then show ?thesis using Suc.prems(2) o f by auto
  qed
qed simp

lemma for_sectors_ok:
  assumes "inv d" "for_sectors one d a buf i n = (True, buf', d')" "i + n \<le> length buf"
    "unat a + n \<le> 2 ^ 32"
  shows "take (i + n) buf' = take i buf @ secs (media d p) (unat a) n"
  using assms
proof (induction n arbitrary: d a buf i)
  case (Suc n)
  obtain k s e where o: "one d a (buf ! i) = (k, s, e)" by (metis prod_cases3)
  then have k: "k" and r: "for_sectors one e (a + 1) (buf[i := s]) (i + 1) n = (True, buf', d')"
    using Suc.prems(2) by (auto simp: Let_def split: if_splits)
  have s: "s = media d p (unat a)" using one_ok [OF Suc.prems(1)] o k by auto
  have f: "inv e" "media e = media d" using one_frame [OF Suc.prems(1) o] by auto
  have tk: "take (i + 1) (buf[i := s]) = take i buf @ [s]"
    using Suc.prems(3) by (simp add: take_Suc_conv_app_nth)
  show ?case
  proof (cases n)
    case 0
    then show ?thesis using r tk s by (simp add: secs_def)
  next
    case (Suc m)
    then have a1: "unat (a + 1) = unat a + 1" using Suc.prems(4) by (simp add: unat_word_ariths)
    then have "take (i + 1 + n) buf' = take (i + 1) (buf[i := s]) @ secs (media e p) (unat a + 1) n"
      using Suc.IH [OF f(1) r] Suc.prems(3,4) by simp
    then show ?thesis using tk s f(2) secs_append [of "media d p" "unat a" 1 n]
      by (simp add: secs_def)
  qed
qed simp

end

sublocale sector_io \<subseteq> sector_driver
  "\<lambda>d a ptr buf n. for_sectors one d a buf 0 (unat n)" media p inv
proof
  fix d a and ptr :: u32 and buf and n :: u32 and buf' d'
  assume *: "inv d" "for_sectors one d a buf 0 (unat n) = (True, buf', d')" "length buf = unat n"
    "unat a + unat n \<le> 2 ^ 32"
  then have "length buf' = length buf" using for_sectors_frame by blast
  then show "buf' = secs (media d p) (unat a) (unat n)"
    using for_sectors_ok [of d a buf 0 "unat n" buf' d'] * by simp
next
  fix d a and ptr :: u32 and buf and n :: u32 and ok buf' d'
  assume "inv d" "for_sectors one d a buf 0 (unat n) = (ok, buf', d')"
  then show "inv d' \<and> media d' = media d \<and> length buf' = length buf"
    by (rule for_sectors_frame)
qed

end
