(* ===== verification/Hardware.thy ===== *)
theory Hardware
  imports SectorDriver
begin

text \<open>
  The hardware and the library calls below the drivers, as parameters. \<open>'h\<close> is the state of
  the machine outside the program; \<open>hwops\<close> has one field per register access and per
  libogc function the drivers call, and a state of the program (\<open>plat\<close>) carries \<open>'h\<close>
  beside the static variables of the drivers. Nothing is assumed of the fields here: what a
  driver relies on is stated where it is used. The polling loops shared by the disc-interface
  drivers are here too, with the fact that they end.
\<close>

section \<open>Parameters\<close>

record 'h hwops =
  di_load :: "'h \<Rightarrow> nat \<Rightarrow> u32 \<times> 'h"
  di_store :: "'h \<Rightarrow> nat \<Rightarrow> u32 \<Rightarrow> 'h"
  ram_load :: "'h \<Rightarrow> u32 \<Rightarrow> nat \<Rightarrow> bytes"
  ram_store :: "'h \<Rightarrow> u32 \<Rightarrow> bytes \<Rightarrow> 'h"
  DCInvalidateRange :: "'h \<Rightarrow> u32 \<Rightarrow> u32 \<Rightarrow> 'h"
  DCFlushRange :: "'h \<Rightarrow> u32 \<Rightarrow> u32 \<Rightarrow> 'h"
  settle_ms :: "'h \<Rightarrow> nat \<Rightarrow> 'h"
  EXILock :: "'h \<Rightarrow> u8 \<Rightarrow> u8 \<Rightarrow> bool \<times> 'h"
  EXIUnlock :: "'h \<Rightarrow> u8 \<Rightarrow> 'h"
  EXISelect :: "'h \<Rightarrow> u8 \<Rightarrow> u8 \<Rightarrow> nat \<Rightarrow> bool \<times> 'h"
  EXIDeselect :: "'h \<Rightarrow> u8 \<Rightarrow> 'h"
  EXIImmEx :: "'h \<Rightarrow> u8 \<Rightarrow> u32 \<Rightarrow> nat \<Rightarrow> nat \<Rightarrow> u32 \<times> 'h"
  EXI_DmaEx :: "'h \<Rightarrow> u8 \<Rightarrow> bytes \<Rightarrow> nat \<Rightarrow> bytes \<times> 'h"
  sdgecko_initIODefault :: "'h \<Rightarrow> 'h"
  sdgecko_initIO :: "'h \<Rightarrow> u8 \<Rightarrow> bool \<times> 'h"
  sdgecko_readSector :: "'h \<Rightarrow> u8 \<Rightarrow> sector \<Rightarrow> u32 \<Rightarrow> bool \<times> sector \<times> 'h"
  sdgecko_writeSector :: "'h \<Rightarrow> u8 \<Rightarrow> sector \<Rightarrow> u32 \<Rightarrow> bool \<times> 'h"

text \<open>
  The static variables of gcode.c, ata.c and tsd.c with the machine. \<open>sdgecko_\<dots>\<close> report
  \<open>CARDIO_ERROR_READY\<close> as \<open>True\<close>; \<open>gcode_info\<close> and \<open>gcode_bounce\<close> are the addresses of
  the static DMA buffers.
\<close>

record 'h plat =
  hw :: 'h
  has_gcode :: int
  gcode_info :: u32
  gcode_bounce :: u32
  ata_lba48 :: "bool list"
  ata_buf :: bytes
  sd_initialized :: bool

section \<open>Disc interface registers\<close>

definition DI_SR :: nat where "DI_SR = 0"
definition DI_CVR :: nat where "DI_CVR = 1"
definition DI_CMDBUF0 :: nat where "DI_CMDBUF0 = 2"
definition DI_CMDBUF1 :: nat where "DI_CMDBUF1 = 3"
definition DI_CMDBUF2 :: nat where "DI_CMDBUF2 = 4"
definition DI_MAR :: nat where "DI_MAR = 5"
definition DI_LENGTH :: nat where "DI_LENGTH = 6"
definition DI_CR :: nat where "DI_CR = 7"

definition DI_SR_BRKINTMASK :: u32 where "DI_SR_BRKINTMASK = 0x20"
definition DI_SR_TCINTMASK :: u32 where "DI_SR_TCINTMASK = 0x08"
definition DI_SR_DEINT :: u32 where "DI_SR_DEINT = 0x04"
definition DI_SR_DEINTMASK :: u32 where "DI_SR_DEINTMASK = 0x02"
definition DI_CR_RW :: u32 where "DI_CR_RW = 4"
definition DI_CR_DMA :: u32 where "DI_CR_DMA = 2"
definition DI_CR_TSTART :: u32 where "DI_CR_TSTART = 1"

definition DVD_OEM_INQUIRY :: u32 where "DVD_OEM_INQUIRY = 0x12000000"
definition GCODE_REL_DATE :: u32 where "GCODE_REL_DATE = 0x20196c64"

lemmas di_reg_defs = DI_SR_def DI_CVR_def DI_CMDBUF0_def DI_CMDBUF1_def DI_CMDBUF2_def
  DI_MAR_def DI_LENGTH_def DI_CR_def

lemmas di_bit_defs = DI_SR_BRKINTMASK_def DI_SR_TCINTMASK_def DI_SR_DEINT_def
  DI_SR_DEINTMASK_def DI_CR_RW_def DI_CR_DMA_def DI_CR_TSTART_def

definition phys :: "u32 \<Rightarrow> u32" where
  "phys a = a AND 0x1FFFFFFF"

definition di_prepare :: "'h hwops \<Rightarrow> 'h \<Rightarrow> 'h" where
  "di_prepare H h =
     di_store H (di_store H h DI_SR
       (DI_SR_BRKINTMASK OR DI_SR_TCINTMASK OR DI_SR_DEINT OR DI_SR_DEINTMASK)) DI_CVR 0"

definition di_setup :: "'h hwops \<Rightarrow> 'h \<Rightarrow> u32 \<Rightarrow> u32 \<Rightarrow> u32 \<Rightarrow> u32 \<Rightarrow> u32 \<Rightarrow> 'h" where
  "di_setup H h c0 c1 c2 mar len =
     (let h = di_store H h DI_CMDBUF0 c0; h = di_store H h DI_CMDBUF1 c1;
          h = di_store H h DI_CMDBUF2 c2; h = di_store H h DI_MAR mar
      in di_store H h DI_LENGTH len)"

section \<open>Bounded polling\<close>

text \<open>
  \<open>while ((_di_regs[DI_CR] & DI_CR_TSTART) && --timeout);\<close>: the result is the value of
  \<open>timeout\<close> after the loop. The loop ends whatever the device does.
\<close>

function di_poll :: "'h hwops \<Rightarrow> 'h \<Rightarrow> u32 \<Rightarrow> u32 \<times> 'h" where
  "di_poll H h timeout =
     (let (cr, h') = di_load H h DI_CR
      in if cr AND DI_CR_TSTART \<noteq> 0
         then (if timeout - 1 \<noteq> 0 then di_poll H h' (timeout - 1) else (0, h'))
         else (timeout, h'))"
  by pat_completeness auto

termination
proof (relation "measure (\<lambda>(H, h, t). unat (t - 1))")
  show "((H, h', t - 1), (H, h, t)) \<in> measure (\<lambda>(H, h, t). unat (t - 1))"
    if "t - 1 \<noteq> 0" for H :: "'h hwops" and h h' :: 'h and t :: u32
    using unat_minus_one [of "t - 1"] that by (simp add: unat_gt_0)
qed simp_all

declare di_poll.simps [simp del]

text \<open>The same loop as an abstract count: how many reads still show the busy bit.\<close>

primrec di_busy_for :: "'h hwops \<Rightarrow> nat \<Rightarrow> 'h \<Rightarrow> bool" where
  "di_busy_for H 0 h = True"
| "di_busy_for H (Suc n) h =
     (fst (di_load H h DI_CR) AND DI_CR_TSTART \<noteq> 0 \<and> di_busy_for H n (snd (di_load H h DI_CR)))"

lemma di_poll_timeout:
  "t \<noteq> 0 \<Longrightarrow> (fst (di_poll H h t) = 0) = di_busy_for H (unat t) h"
proof (induction H h t rule: di_poll.induct)
  case (1 H h t)
  obtain cr h' where l: "di_load H h DI_CR = (cr, h')" by (metis prod.exhaust)
  have u: "unat t = Suc (unat (t - 1))" using 1(2) by (simp add: unat_minus_one unat_gt_0)
  have z: "unat (t - 1) = 0" if "t - 1 = 0" using that by simp
  show ?case
  proof (cases "cr AND DI_CR_TSTART \<noteq> 0 \<and> t - 1 \<noteq> 0")
    case True
    then have "fst (di_poll H h' (t - 1)) = 0 \<longleftrightarrow> di_busy_for H (unat (t - 1)) h'"
      using 1(1) [OF l [symmetric] refl] by simp
    then show ?thesis using True l by (simp add: u di_poll.simps [of H h t])
  next
    case False
    then show ?thesis using l 1(2) z by (auto simp: u di_poll.simps [of H h t])
  qed
qed

lemma di_poll_last:
  "\<lbrakk>fst (di_poll H h t) \<noteq> 0; t \<noteq> 0\<rbrakk> \<Longrightarrow>
     \<exists>g cr. di_load H g DI_CR = (cr, snd (di_poll H h t)) \<and> cr AND DI_CR_TSTART = 0"
proof (induction H h t rule: di_poll.induct)
  case (1 H h t)
  obtain cr h' where l: "di_load H h DI_CR = (cr, h')" by (metis prod.exhaust)
  show ?case
  proof (cases "cr AND DI_CR_TSTART \<noteq> 0 \<and> t - 1 \<noteq> 0")
    case True
    then show ?thesis using 1(1) [OF l [symmetric] refl] 1(2) l
      by (simp add: di_poll.simps [of H h t])
  next
    case False
    then show ?thesis using l 1(2) by (auto simp: di_poll.simps [of H h t] split: if_splits)
  qed
qed

text \<open>What every read of the control register keeps, the whole loop keeps.\<close>

lemma di_poll_keeps:
  assumes "\<And>h cr h'. P h \<Longrightarrow> di_load H h DI_CR = (cr, h') \<Longrightarrow> P h'" "P h"
  shows "P (snd (di_poll H h t))"
  using assms
proof (induction H h t rule: di_poll.induct)
  case (1 H h t)
  obtain cr h' where l: "di_load H h DI_CR = (cr, h')" by (metis prod.exhaust)
  have p: "P h'" using 1(2,3) l by blast
  show ?case
  proof (cases "cr AND DI_CR_TSTART \<noteq> 0 \<and> t - 1 \<noteq> 0")
    case True
    have "P (snd (di_poll H h' (t - 1)))"
      using 1(1) [OF l [symmetric] refl] True 1(2) p by (metis l prod.inject)
    then show ?thesis using True l by (simp add: di_poll.simps [of H h t])
  next
    case False
    then show ?thesis using l p by (auto simp: di_poll.simps [of H h t])
  qed
qed

end
