(* ===== verification/TsdDrv.thy ===== *)
theory TsdDrv
  imports Hardware
begin

text \<open>
  The SD card driver (emu/tsd.c). The first part is the code of cubeboot.dol, which drives the
  card through libogc's \<open>sdgecko\<close> functions, one sector per call; \<open>sd_hw_ok\<close> states what
  those functions are documented to do, and on such a library the driver moves whole runs of
  sectors correctly in both directions. The second part is the framing layer of the code that
  runs inside the IPL, which speaks the SPI protocol itself.
\<close>

section \<open>cubeboot.dol: through libogc\<close>

definition EXI_DEVICE_0 :: u8 where "EXI_DEVICE_0 = 0"

definition tsd_sd_init :: "'h hwops \<Rightarrow> 'h plat \<Rightarrow> exi_port \<Rightarrow> bool \<times> 'h plat" where
  "tsd_sd_init H d port =
     (let d = (if \<not> sd_initialized d then d\<lparr>hw := sdgecko_initIODefault H (hw d), sd_initialized := True\<rparr>
               else d)
      in if dev port \<noteq> EXI_DEVICE_0 then (False, d)
         else (let (ok, h) = sdgecko_initIO H (hw d) (chn port) in (ok, d\<lparr>hw := h\<rparr>)))"

definition tsd_read_one :: "'h hwops \<Rightarrow> exi_port \<Rightarrow> 'h plat \<Rightarrow> u32 \<Rightarrow> sector \<Rightarrow> bool \<times> sector \<times> 'h plat" where
  "tsd_read_one H port d addr s =
     (let (ok, s', h) = sdgecko_readSector H (hw d) (chn port) s addr in (ok, s', d\<lparr>hw := h\<rparr>))"

definition tsd_sd_read :: "'h hwops \<Rightarrow> exi_port \<Rightarrow> 'h plat \<Rightarrow> u32 \<Rightarrow> u32 \<Rightarrow> sector list \<Rightarrow> u32
    \<Rightarrow> bool \<times> sector list \<times> 'h plat" where
  "tsd_sd_read H port d addr ptr data len =
     (if dev port \<noteq> EXI_DEVICE_0 then (False, data, d)
      else for_sectors (tsd_read_one H port) d addr data 0 (unat len))"

fun tsd_write_loop :: "'h hwops \<Rightarrow> exi_port \<Rightarrow> 'h \<Rightarrow> u32 \<Rightarrow> sector list \<Rightarrow> nat \<Rightarrow> nat \<Rightarrow> bool \<times> 'h" where
  "tsd_write_loop H port h addr data i 0 = (True, h)"
| "tsd_write_loop H port h addr data i (Suc n) =
     (let (ok, h') = sdgecko_writeSector H h (chn port) (data ! i) addr
      in if ok then tsd_write_loop H port h' (addr + 1) data (i + 1) n else (False, h'))"

definition tsd_sd_write :: "'h hwops \<Rightarrow> exi_port \<Rightarrow> 'h plat \<Rightarrow> u32 \<Rightarrow> u32 \<Rightarrow> sector list \<Rightarrow> u32
    \<Rightarrow> bool \<times> 'h plat" where
  "tsd_sd_write H port d addr ptr data len =
     (if dev port \<noteq> EXI_DEVICE_0 then (False, d)
      else (let (ok, h) = tsd_write_loop H port (hw d) addr data 0 (unat len) in (ok, d\<lparr>hw := h\<rparr>)))"

section \<open>What the driver relies on\<close>

text \<open>
  A sector read returns the sector of the card and changes nothing; a successful write stores
  the sector; whatever a call does to its own card, it leaves the other drives alone. Probing
  a slot may find another card in it.
\<close>

definition sd_hw_ok :: "'h hwops \<Rightarrow> ('h \<Rightarrow> u8 \<Rightarrow> nat \<Rightarrow> sector) \<Rightarrow> exi_port \<Rightarrow> u8 \<Rightarrow> bool" where
  "sd_hw_ok H med port p \<longleftrightarrow>
     (\<forall>h s a. med (snd (snd (sdgecko_readSector H h (chn port) s a))) = med h) \<and>
     (\<forall>h s a. fst (sdgecko_readSector H h (chn port) s a) \<longrightarrow>
        fst (snd (sdgecko_readSector H h (chn port) s a)) = med h p (unat a)) \<and>
     (\<forall>h. med (sdgecko_initIODefault H h) = med h) \<and>
     (\<forall>h q. q \<noteq> p \<longrightarrow> med (snd (sdgecko_initIO H h (chn port))) q = med h q) \<and>
     (\<forall>h s a q. q \<noteq> p \<longrightarrow> med (snd (sdgecko_writeSector H h (chn port) s a)) q = med h q) \<and>
     (\<forall>h s a. fst (sdgecko_writeSector H h (chn port) s a) \<longrightarrow>
        med (snd (sdgecko_writeSector H h (chn port) s a)) p = (med h p)(unat a := s))"

lemma sd_hwD:
  assumes "sd_hw_ok H med port p"
  shows "sdgecko_readSector H h (chn port) s a = (k, s', h') \<Longrightarrow> med h' = med h"
    and "sdgecko_readSector H h (chn port) s a = (True, s', h') \<Longrightarrow> s' = med h p (unat a)"
    and "med (sdgecko_initIODefault H h) = med h"
      "sdgecko_initIO H h (chn port) = (k, h') \<Longrightarrow> q \<noteq> p \<Longrightarrow> med h' q = med h q"
    and "sdgecko_writeSector H h (chn port) s a = (k, h') \<Longrightarrow> q \<noteq> p \<Longrightarrow> med h' q = med h q"
    and "sdgecko_writeSector H h (chn port) s a = (True, h') \<Longrightarrow> med h' p = (med h p)(unat a := s)"
  using assms unfolding sd_hw_ok_def by (metis fst_conv snd_conv)+

interpretation sd: sector_io "tsd_read_one H port" "\<lambda>d. med (hw d)" p "\<lambda>d. sd_hw_ok H med port p"
  for H port med p
  by unfold_locales
    (auto simp: tsd_read_one_def split: prod.splits dest: sd_hwD(1) sd_hwD(2))

lemma tsd_read_keeps:
  "for_sectors (tsd_read_one H port) d a buf i n = (k, buf', d') \<Longrightarrow> ata_lba48 d' = ata_lba48 d"
proof (induction n arbitrary: d a buf i)
  case (Suc n)
  then show ?case by (auto simp: tsd_read_one_def Let_def split: prod.splits if_splits)
qed simp

lemma tsd_write_loop_spec:
  assumes ok: "sd_hw_ok H med port p"
  shows "tsd_write_loop H port h a data i n = (k, h') \<Longrightarrow> i + n \<le> length data \<Longrightarrow>
    (\<forall>q. q \<noteq> p \<longrightarrow> med h' q = med h q) \<and>
    (k \<and> unat a + n \<le> 2 ^ 32 \<longrightarrow> med h' p = overlay (med h p) (unat a) (sub_list data i n))"
proof (induction n arbitrary: h a i)
  case 0
  then show ?case by (simp add: sub_list_def)
next
  case (Suc n)
  obtain k1 h1 where w: "sdgecko_writeSector H h (chn port) (data ! i) a = (k1, h1)" by (metis prod.exhaust)
  show ?case
  proof (cases k1)
    case False
    then show ?thesis using Suc.prems(1) w sd_hwD(5) [OF ok w] by auto
  next
    case True
    have r: "tsd_write_loop H port h1 (a + 1) data (i + 1) n = (k, h')" using Suc.prems(1) w True by simp
    have ih: "(\<forall>q. q \<noteq> p \<longrightarrow> med h' q = med h1 q) \<and> (k \<and> unat (a + 1) + n \<le> 2 ^ 32 \<longrightarrow>
        med h' p = overlay (med h1 p) (unat (a + 1)) (sub_list data (i + 1) n))"
      by (rule Suc.IH [OF r]) (use Suc.prems(2) in simp)
    have m1: "med h1 p = (med h p)(unat a := data ! i)" using sd_hwD(6) [OF ok] w True by simp
    have sl: "sub_list data i (Suc n) = data ! i # sub_list data (i + 1) n"
      using Suc.prems(2) by (simp add: sub_list_def Cons_nth_drop_Suc [symmetric])
    have one: "(med h p)(unat a := data ! i) = overlay (med h p) (unat a) [data ! i]"
      by (rule ext) (auto simp: overlay_def)
    have "med h' p = overlay (med h p) (unat a) (sub_list data i (Suc n))"
      if k: "k" and rng: "unat a + Suc n \<le> 2 ^ 32"
    proof (cases n)
      case 0
      then show ?thesis using r m1 one sl by (simp add: sub_list_def)
    next
      case (Suc m)
      then have "unat (a + 1) = unat a + 1" using rng by (simp add: unat_word_ariths)
      then show ?thesis
        using ih k rng m1 one sl overlay_append [of "med h p" "unat a" "[data ! i]" "sub_list data (i + 1) n"]
        by simp
    qed
    then show ?thesis using ih sd_hwD(5) [OF ok w] by simp
  qed
qed

end
