(* ===== verification/AtaDrv.thy ===== *)
theory AtaDrv
  imports Hardware
begin

text \<open>
  The IDE-EXI driver (emu/ata.c), as compiled into cubeboot.dol, with the register reads of
  its debug prints (\<open>GECKO_PRINT_ENABLE\<close> is set in config.h): register
  access over EXI, bounded status polling, IDENTIFY, LBA28/LBA48 sector reads with retries.
  \<open>ata_hw_ok\<close> states what libogc's EXI functions and an ATA drive are documented to do; on
  such hardware the driver implements \<open>sector_io\<close>, hence \<open>sector_driver\<close>.
\<close>

section \<open>Registers and commands\<close>

definition ATA_REG_ERROR :: u8 where "ATA_REG_ERROR = 0x11"
definition ATA_REG_SECCOUNT :: u8 where "ATA_REG_SECCOUNT = 0x12"
definition ATA_REG_LBALO :: u8 where "ATA_REG_LBALO = 0x13"
definition ATA_REG_LBAMID :: u8 where "ATA_REG_LBAMID = 0x14"
definition ATA_REG_LBAHI :: u8 where "ATA_REG_LBAHI = 0x15"
definition ATA_REG_DEVICE :: u8 where "ATA_REG_DEVICE = 0x16"
definition ATA_REG_COMMAND :: u8 where "ATA_REG_COMMAND = 0x17"
definition ATA_REG_STATUS :: u8 where "ATA_REG_STATUS = 0x17"
definition ATA_REG_DEVCTRL :: u8 where "ATA_REG_DEVCTRL = 0x0E"

definition ATA_DCR_SRST :: u8 where "ATA_DCR_SRST = 0x04"
definition ATA_DCR_NIEN :: u8 where "ATA_DCR_NIEN = 0x02"
definition ATA_CMD_IDENTIFY :: u8 where "ATA_CMD_IDENTIFY = 0xEC"
definition ATA_CMD_READSECT :: u8 where "ATA_CMD_READSECT = 0x21"
definition ATA_CMD_READSECTEXT :: u8 where "ATA_CMD_READSECTEXT = 0x24"
definition ATA_SR_BSY :: u8 where "ATA_SR_BSY = 0x80"
definition ATA_SR_DRQ :: u8 where "ATA_SR_DRQ = 0x08"
definition ATA_SR_ERR :: u8 where "ATA_SR_ERR = 0x01"
definition ATA_HEAD_USE_LBA :: u8 where "ATA_HEAD_USE_LBA = 0x40"
definition ATA_EXI_FREQ :: nat where "ATA_EXI_FREQ = 5"
definition ATA_READ_RETRIES :: nat where "ATA_READ_RETRIES = 4"
definition ATA_NUM_CHN :: u8 where "ATA_NUM_CHN = 3"
definition EXI_READ :: nat where "EXI_READ = 0"
definition EXI_WRITE :: nat where "EXI_WRITE = 1"

lemmas ata_reg_defs = ATA_REG_SECCOUNT_def ATA_REG_LBALO_def ATA_REG_LBAMID_def ATA_REG_LBAHI_def
  ATA_REG_DEVICE_def ATA_REG_COMMAND_def ATA_REG_STATUS_def ATA_REG_DEVCTRL_def

lemmas ata_bit_defs = ATA_CMD_READSECT_def ATA_CMD_READSECTEXT_def ATA_SR_BSY_def ATA_SR_DRQ_def
  ATA_SR_ERR_def ATA_HEAD_USE_LBA_def ATA_DCR_SRST_def ATA_DCR_NIEN_def ATA_CMD_IDENTIFY_def

section \<open>Register access\<close>

definition ata_select :: "'h hwops \<Rightarrow> 'h \<Rightarrow> exi_port \<Rightarrow> bool \<times> 'h" where
  "ata_select H h port =
     (let (ok, h) = EXILock H h (chn port) (dev port)
      in if \<not> ok then (False, h)
         else (let (ok, h) = EXISelect H h (chn port) (dev port) ATA_EXI_FREQ
               in if \<not> ok then (False, EXIUnlock H h (chn port)) else (True, h)))"

definition ata_deselect :: "'h hwops \<Rightarrow> 'h \<Rightarrow> exi_port \<Rightarrow> 'h" where
  "ata_deselect H h port = EXIUnlock H (EXIDeselect H h (chn port)) (chn port)"

definition ata_imm :: "'h hwops \<Rightarrow> 'h \<Rightarrow> exi_port \<Rightarrow> u32 \<Rightarrow> nat \<Rightarrow> nat \<Rightarrow> u32 \<times> 'h" where
  "ata_imm H h port val len mode = EXIImmEx H h (chn port) val len mode"

definition ata_rd8 :: "'h hwops \<Rightarrow> 'h \<Rightarrow> exi_port \<Rightarrow> u8 \<Rightarrow> u8 \<times> 'h" where
  "ata_rd8 H h port reg =
     (let (ok, h) = ata_select H h port
      in if \<not> ok then (0xFF, h)
         else (let (_, h) = ata_imm H h port (push_bit 24 (ucast reg)) 2 EXI_WRITE;
                   (r, h) = ata_imm H h port 0 1 EXI_READ;
                   h = ata_deselect H h port
               in (ucast (drop_bit 24 r), h)))"

definition ata_wr8_word :: "u8 \<Rightarrow> u8 \<Rightarrow> u32" where
  "ata_wr8_word reg val = 0x80000000 OR push_bit 24 (ucast reg) OR push_bit 16 (ucast val)"

definition ata_wr8 :: "'h hwops \<Rightarrow> 'h \<Rightarrow> exi_port \<Rightarrow> u8 \<Rightarrow> u8 \<Rightarrow> 'h" where
  "ata_wr8 H h port reg val =
     (let (ok, h) = ata_select H h port
      in if \<not> ok then h
         else ata_deselect H (snd (ata_imm H h port (ata_wr8_word reg val) 3 EXI_WRITE)) port)"

definition ATA_BURST_CMD :: u32 where
  "ATA_BURST_CMD = 0x70000000 OR push_bit 16 (128 AND 0xff) OR push_bit 8 (drop_bit 8 128 AND 0xff)"

definition ata_rd_buffer :: "'h hwops \<Rightarrow> 'h plat \<Rightarrow> exi_port \<Rightarrow> sector \<Rightarrow> bool \<times> sector \<times> 'h plat" where
  "ata_rd_buffer H d port dst =
     (let (ok, h) = ata_select H (hw d) port
      in if \<not> ok then (False, dst, d\<lparr>hw := h\<rparr>)
         else (let (_, h) = ata_imm H h port ATA_BURST_CMD 4 EXI_WRITE;
                   (buf, h) = EXI_DmaEx H h (chn port) (ata_buf d) EXI_READ;
                   h = ata_deselect H h port
               in (True, buf, d\<lparr>hw := h, ata_buf := buf\<rparr>)))"

function ata_wait_from :: "'h hwops \<Rightarrow> exi_port \<Rightarrow> u8 \<Rightarrow> u8 \<Rightarrow> int \<Rightarrow> 'h \<Rightarrow> bool \<times> 'h" where
  "ata_wait_from H port msk want i h =
     (if i < 100000
      then (let (st, h') = ata_rd8 H h port ATA_REG_STATUS
            in if st = 0xFF then (False, h')
               else if st AND msk = want then (True, h')
               else ata_wait_from H port msk want (i + 1) h')
      else (False, h))"
  by pat_completeness auto

termination
  by (relation "measure (\<lambda>(H, p, m, w, i, h). nat (100000 - i))") auto

declare ata_wait_from.simps [simp del]

definition ata_wait :: "'h hwops \<Rightarrow> 'h \<Rightarrow> exi_port \<Rightarrow> u8 \<Rightarrow> u8 \<Rightarrow> bool \<times> 'h" where
  "ata_wait H h port msk want = ata_wait_from H port msk want 0 h"

definition ata_soft_reset :: "'h hwops \<Rightarrow> 'h \<Rightarrow> exi_port \<Rightarrow> 'h" where
  "ata_soft_reset H h port =
     (let h = ata_wr8 H h port ATA_REG_DEVCTRL (ATA_DCR_SRST OR ATA_DCR_NIEN);
          h = ata_wr8 H h port ATA_REG_DEVCTRL ATA_DCR_NIEN
      in snd (ata_wait H h port ATA_SR_BSY 0))"

section \<open>Driver entry points\<close>

definition ata_init :: "'h hwops \<Rightarrow> 'h plat \<Rightarrow> exi_port \<Rightarrow> bool \<times> 'h plat" where
  "ata_init H d port =
     (if chn port \<ge> ATA_NUM_CHN then (False, d)
      else (let (_, h) = ata_rd8 H (hw d) port ATA_REG_STATUS;
                h = ata_wr8 H h port ATA_REG_DEVICE ATA_HEAD_USE_LBA;
                (ok, h) = ata_wait H h port ATA_SR_BSY 0
            in if \<not> ok then (False, d\<lparr>hw := h\<rparr>)
               else (let h = ata_wr8 H h port ATA_REG_COMMAND ATA_CMD_IDENTIFY;
                         (ok, h) = ata_wait H h port (ATA_SR_BSY OR ATA_SR_DRQ) ATA_SR_DRQ
                     in if \<not> ok then (False, d\<lparr>hw := snd (ata_rd8 H h port ATA_REG_STATUS)\<rparr>)
                        else (let (st, h) = ata_rd8 H h port ATA_REG_STATUS
                              in if st AND ATA_SR_ERR \<noteq> 0 then (False, d\<lparr>hw := h\<rparr>)
                                 else (let (ok, idb, d) = ata_rd_buffer H (d\<lparr>hw := h\<rparr>) port []
                                       in if \<not> ok then (False, d)
                                          else (True, d\<lparr>ata_lba48 := (ata_lba48 d)[unat (chn port) :=
                                            be16 idb 166 AND 0x400 \<noteq> 0 \<or> be16 idb 0 = 0]\<rparr>))))))"

text \<open>The task-file writes of \<open>ata_read_one\<close>, in order.\<close>

definition ata_taskfile :: "bool \<Rightarrow> u32 \<Rightarrow> (u8 \<times> u8) list" where
  "ata_taskfile lba48 lba =
     (if lba48
      then [(ATA_REG_DEVICE, ATA_HEAD_USE_LBA), (ATA_REG_SECCOUNT, 0),
            (ATA_REG_LBALO, ucast (drop_bit 24 lba AND 0xFF)), (ATA_REG_LBAMID, 0), (ATA_REG_LBAHI, 0),
            (ATA_REG_SECCOUNT, 1), (ATA_REG_LBALO, ucast (lba AND 0xFF)),
            (ATA_REG_LBAMID, ucast (drop_bit 8 lba AND 0xFF)),
            (ATA_REG_LBAHI, ucast (drop_bit 16 lba AND 0xFF)), (ATA_REG_COMMAND, ATA_CMD_READSECTEXT)]
      else [(ATA_REG_DEVICE, ATA_HEAD_USE_LBA OR ucast (drop_bit 24 lba AND 0x0F)),
            (ATA_REG_SECCOUNT, 1), (ATA_REG_LBALO, ucast (lba AND 0xFF)),
            (ATA_REG_LBAMID, ucast (drop_bit 8 lba AND 0xFF)),
            (ATA_REG_LBAHI, ucast (drop_bit 16 lba AND 0xFF)), (ATA_REG_COMMAND, ATA_CMD_READSECT)])"

definition ata_wr_all :: "'h hwops \<Rightarrow> exi_port \<Rightarrow> (u8 \<times> u8) list \<Rightarrow> 'h \<Rightarrow> 'h" where
  "ata_wr_all H port = fold (\<lambda>(r, v) h. ata_wr8 H h port r v)"

definition ata_read_one :: "'h hwops \<Rightarrow> exi_port \<Rightarrow> 'h plat \<Rightarrow> u32 \<Rightarrow> sector \<Rightarrow> bool \<times> sector \<times> 'h plat" where
  "ata_read_one H port d lba dst =
     (let (ok, h) = ata_wait H (hw d) port ATA_SR_BSY 0
      in if \<not> ok then (False, dst, d\<lparr>hw := snd (ata_rd8 H h port ATA_REG_STATUS)\<rparr>)
         else (let h = ata_wr_all H port (ata_taskfile (ata_lba48 d ! unat (chn port)) lba) h;
                   (ok, h) = ata_wait H h port (ATA_SR_BSY OR ATA_SR_DRQ) ATA_SR_DRQ
               in if \<not> ok
                  then (False, dst, d\<lparr>hw := snd (ata_rd8 H (snd (ata_rd8 H h port ATA_REG_STATUS)) port ATA_REG_ERROR)\<rparr>)
                  else (let (st, h) = ata_rd8 H h port ATA_REG_STATUS
                        in if st AND ATA_SR_ERR \<noteq> 0
                           then (False, dst, d\<lparr>hw := snd (ata_rd8 H h port ATA_REG_ERROR)\<rparr>)
                           else ata_rd_buffer H (d\<lparr>hw := h\<rparr>) port dst)))"

text \<open>The attempts for one sector: \<open>t\<close> attempts were made, the drive is reset before a retry.\<close>

fun ata_attempts :: "'h hwops \<Rightarrow> exi_port \<Rightarrow> nat \<Rightarrow> nat \<Rightarrow> 'h plat \<Rightarrow> u32 \<Rightarrow> sector \<Rightarrow> bool \<times> sector \<times> 'h plat" where
  "ata_attempts H port 0 t d lba dst = (False, dst, d)"
| "ata_attempts H port (Suc n) t d lba dst =
     (let d = (if t > 0 then d\<lparr>hw := ata_soft_reset H (hw d) port\<rparr> else d);
          (ok, dst', d') = ata_read_one H port d lba dst
      in if ok then (True, dst', d') else ata_attempts H port n (t + 1) d' lba dst')"

definition ata_read :: "'h hwops \<Rightarrow> exi_port \<Rightarrow> 'h plat \<Rightarrow> u32 \<Rightarrow> u32 \<Rightarrow> sector list \<Rightarrow> u32
    \<Rightarrow> bool \<times> sector list \<times> 'h plat" where
  "ata_read H port d sector data buf count =
     for_sectors (ata_attempts H port ATA_READ_RETRIES 0) d sector buf 0 (unat count)"

definition ata_write :: "'h plat \<Rightarrow> exi_port \<Rightarrow> u32 \<Rightarrow> sector list \<Rightarrow> u32 \<Rightarrow> bool \<times> 'h plat" where
  "ata_write d port sector data count = (False, d)"

section \<open>What the driver relies on\<close>

text \<open>
  The sector a task file addresses, after the ATA standard: for READ SECTOR(S) EXT each
  register is a two-deep FIFO and the older value is the high half; READ SECTOR(S) takes the
  top four bits from the device register.
\<close>

definition reg_hist :: "(u8 \<times> u8) list \<Rightarrow> u8 \<Rightarrow> u8 list" where
  "reg_hist tf r = map snd (filter (\<lambda>(a, _). a = r) (rev tf))"

definition tf_lba48 :: "(u8 \<times> u8) list \<Rightarrow> nat" where
  "tf_lba48 tf = (let b = (\<lambda>r k. unat (reg_hist tf r ! k)) in
     b ATA_REG_LBALO 0 + 2 ^ 8 * b ATA_REG_LBAMID 0 + 2 ^ 16 * b ATA_REG_LBAHI 0 +
     2 ^ 24 * b ATA_REG_LBALO 1 + 2 ^ 32 * b ATA_REG_LBAMID 1 + 2 ^ 40 * b ATA_REG_LBAHI 1)"

definition tf_lba28 :: "(u8 \<times> u8) list \<Rightarrow> nat" where
  "tf_lba28 tf = (let b = (\<lambda>r. unat (reg_hist tf r ! 0)) in
     b ATA_REG_LBALO + 2 ^ 8 * b ATA_REG_LBAMID + 2 ^ 16 * b ATA_REG_LBAHI +
     2 ^ 24 * (b ATA_REG_DEVICE mod 16))"

definition tf_command :: "(u8 \<times> u8) list \<Rightarrow> u8" where
  "tf_command tf = hd (reg_hist tf ATA_REG_COMMAND)"

text \<open>
  Ghost views of one port: which port is selected, the register a following read returns,
  whether the burst command was sent, the task-file writes the drive has received, and whether
  a status read showed data ready and no error since the last of them.
\<close>

record 'h ata_view =
  exi_sel :: "'h \<Rightarrow> bool"
  exi_rdreg :: "'h \<Rightarrow> u8"
  exi_burst :: "'h \<Rightarrow> bool"
  tf_log :: "'h \<Rightarrow> (u8 \<times> u8) list"
  ata_drq :: "'h \<Rightarrow> bool"
  ata_noerr :: "'h \<Rightarrow> bool"

definition quiet :: "'h ata_view \<Rightarrow> ('h \<Rightarrow> u8 \<Rightarrow> nat \<Rightarrow> sector) \<Rightarrow> 'h \<Rightarrow> 'h \<Rightarrow> bool" where
  "quiet V med h h' \<longleftrightarrow> med h' = med h \<and> tf_log V h' = tf_log V h \<and>
     (ata_drq V h \<longrightarrow> ata_drq V h') \<and> (ata_noerr V h \<longrightarrow> ata_noerr V h')"

definition ata_hw_ok ::
    "'h hwops \<Rightarrow> 'h ata_view \<Rightarrow> ('h \<Rightarrow> u8 \<Rightarrow> nat \<Rightarrow> sector) \<Rightarrow> exi_port \<Rightarrow> u8 \<Rightarrow> bool" where
  "ata_hw_ok H V med port p \<longleftrightarrow>
     ((\<exists>h. fst (ata_select H h port)) \<longrightarrow> (\<forall>h. fst (ata_select H h port))) \<and>
     (\<forall>h. quiet V med h (snd (EXILock H h (chn port) (dev port)))) \<and>
     (\<forall>h. quiet V med h (EXIUnlock H h (chn port))) \<and>
     (\<forall>h. quiet V med h (EXIDeselect H h (chn port))) \<and>
     (\<forall>h f. quiet V med h (snd (EXISelect H h (chn port) (dev port) f)) \<and>
        (fst (EXISelect H h (chn port) (dev port) f) \<longrightarrow>
           exi_sel V (snd (EXISelect H h (chn port) (dev port) f)))) \<and>
     (\<forall>h x n m. exi_sel V h \<longrightarrow> exi_sel V (snd (EXIImmEx H h (chn port) x n m)) \<and>
        (n \<noteq> 3 \<or> m \<noteq> EXI_WRITE \<longrightarrow> quiet V med h (snd (EXIImmEx H h (chn port) x n m)))) \<and>
     (\<forall>h reg. exi_sel V h \<longrightarrow>
        exi_rdreg V (snd (EXIImmEx H h (chn port) (push_bit 24 (ucast reg)) 2 EXI_WRITE)) = reg) \<and>
     (\<forall>h reg v. exi_sel V h \<longrightarrow>
        (let h' = snd (EXIImmEx H h (chn port) (ata_wr8_word reg v) 3 EXI_WRITE)
         in med h' = med h \<and> tf_log V h' = tf_log V h @ [(reg, v)])) \<and>
     (\<forall>h. exi_sel V h \<longrightarrow> exi_burst V (snd (EXIImmEx H h (chn port) ATA_BURST_CMD 4 EXI_WRITE))) \<and>
     (\<forall>h x. exi_sel V h \<and> exi_rdreg V h = ATA_REG_STATUS \<longrightarrow>
        (let r = EXIImmEx H h (chn port) x 1 EXI_READ; st = ucast (drop_bit 24 (fst r)) :: u8
         in (st AND (ATA_SR_BSY OR ATA_SR_DRQ) = ATA_SR_DRQ \<longrightarrow> ata_drq V (snd r)) \<and>
            (st AND ATA_SR_ERR = 0 \<longrightarrow> ata_noerr V (snd r)))) \<and>
     (\<forall>h b. quiet V med h (snd (EXI_DmaEx H h (chn port) b EXI_READ))) \<and>
     (\<forall>h b. exi_sel V h \<and> exi_burst V h \<and> ata_drq V h \<and> ata_noerr V h \<longrightarrow>
        (tf_command (tf_log V h) = ATA_CMD_READSECTEXT \<longrightarrow>
           fst (EXI_DmaEx H h (chn port) b EXI_READ) = med h p (tf_lba48 (tf_log V h))) \<and>
        (tf_command (tf_log V h) = ATA_CMD_READSECT \<longrightarrow>
           fst (EXI_DmaEx H h (chn port) b EXI_READ) = med h p (tf_lba28 (tf_log V h))))"

section \<open>The task file addresses the requested sector\<close>

lemma unat_byte_of:
  "unat (ucast (drop_bit k lba AND 0xFF) :: u8) = unat (lba :: u32) div 2 ^ k mod 256"
proof -
  have "(0xFF :: u32) = mask 8" by (simp add: mask_eq_exp_minus_1)
  then have "unat (drop_bit k lba AND 0xFF) = unat lba div 2 ^ k mod 2 ^ 8"
    by (simp only: unat_and_mask unat_drop_bit_div)
  then show ?thesis by (simp add: unsigned_ucast_eq take_bit_nat_eq_self)
qed

lemma unat_byte0_of: "unat (ucast (lba AND 0xFF) :: u8) = unat (lba :: u32) mod 256"
  using unat_byte_of [of 0 lba] by simp

lemma mod_split: "n mod (a * b) = a * (n div a mod b) + n mod a" for n :: nat
  by (rule mod_mult2_eq)

lemma bytes_sum:
  fixes n :: nat
  shows "n mod 256 + 256 * (n div 256 mod 256) + 65536 * (n div 65536 mod 256) = n mod 16777216"
  using mod_split [of n 256 256] mod_split [of n 65536 256] by simp

lemma taskfile48:
  "tf_command (tf @ ata_taskfile True lba) = ATA_CMD_READSECTEXT"
  "tf_lba48 (tf @ ata_taskfile True lba) = unat lba"
proof -
  show "tf_command (tf @ ata_taskfile True lba) = ATA_CMD_READSECTEXT"
    by (simp add: tf_command_def ata_taskfile_def reg_hist_def ata_reg_defs)
  have "unat lba div 16777216 < 256" using unat_u32_less [of lba] by (simp add: div_less_iff_less_mult)
  then show "tf_lba48 (tf @ ata_taskfile True lba) = unat lba"
    using bytes_sum [of "unat lba"] div_mult_mod_eq [of "unat lba" 16777216]
    by (simp add: tf_lba48_def ata_taskfile_def reg_hist_def ata_reg_defs unat_byte_of unat_byte0_of
        unat_drop_bit_div)
qed

lemma unat_head_nibble:
  "unat (ATA_HEAD_USE_LBA OR ucast (drop_bit 24 lba AND 0x0F) :: u8) mod 16 =
   unat (lba :: u32) div 16777216 mod 16"
proof -
  have m: "(0x0F :: u32) = mask 4" by (simp add: mask_eq_exp_minus_1)
  have "unat (drop_bit 24 lba AND 0x0F) = unat lba div 2 ^ 24 mod 2 ^ 4"
    unfolding m by (simp only: unat_and_mask unat_drop_bit_div)
  then have u: "unat (ucast (drop_bit 24 lba AND 0x0F) :: u8) = unat lba div 16777216 mod 16"
    by (simp add: unsigned_ucast_eq take_bit_nat_eq_self)
  have "unat (ATA_HEAD_USE_LBA OR x) mod 16 = unat x mod 16" for x :: u8
  proof -
    have "(ATA_HEAD_USE_LBA OR x) AND mask 4 = x AND mask 4"
      unfolding take_bit_eq_mask [symmetric] take_bit_or by (simp add: ATA_HEAD_USE_LBA_def)
    then have "unat (ATA_HEAD_USE_LBA OR x) mod 2 ^ 4 = unat x mod 2 ^ 4"
      by (simp only: unat_and_mask [symmetric])
    then show ?thesis by simp
  qed
  then show ?thesis using u by simp
qed

lemma taskfile28:
  "tf_command (tf @ ata_taskfile False lba) = ATA_CMD_READSECT"
  "tf_lba28 (tf @ ata_taskfile False lba) = unat lba mod 2 ^ 28"
proof -
  show "tf_command (tf @ ata_taskfile False lba) = ATA_CMD_READSECT"
    by (simp add: tf_command_def ata_taskfile_def reg_hist_def ata_reg_defs)
  have "n mod 256 + 256 * (n div 256 mod 256) + 65536 * (n div 65536 mod 256) +
      16777216 * (n div 16777216 mod 16) = n mod 268435456" for n :: nat
    using bytes_sum [of n] mod_split [of n 16777216 16] by simp
  then show "tf_lba28 (tf @ ata_taskfile False lba) = unat lba mod 2 ^ 28"
    by (simp add: tf_lba28_def ata_taskfile_def reg_hist_def ata_reg_defs unat_byte_of unat_byte0_of
        unat_head_nibble unat_drop_bit_div)
qed

section \<open>Correctness\<close>

lemma quiet_refl [simp]: "quiet V med h h"
  by (simp add: quiet_def)

lemma quiet_trans: "quiet V med a b \<Longrightarrow> quiet V med b c \<Longrightarrow> quiet V med a c"
  by (simp add: quiet_def)

lemma ata_hwD:
  assumes "ata_hw_ok H V med port p"
  shows "fst (ata_select H h port) \<Longrightarrow> fst (ata_select H h2 port)"
    and "quiet V med h (snd (EXILock H h (chn port) (dev port)))"
      "quiet V med h (EXIUnlock H h (chn port))" "quiet V med h (EXIDeselect H h (chn port))"
      "quiet V med h (snd (EXISelect H h (chn port) (dev port) f))"
    and "fst (EXISelect H h (chn port) (dev port) f) \<Longrightarrow> exi_sel V (snd (EXISelect H h (chn port) (dev port) f))"
    and "exi_sel V h \<Longrightarrow> exi_sel V (snd (EXIImmEx H h (chn port) x n m))"
    and "exi_sel V h \<Longrightarrow> n \<noteq> 3 \<or> m \<noteq> EXI_WRITE \<Longrightarrow> quiet V med h (snd (EXIImmEx H h (chn port) x n m))"
    and "exi_sel V h \<Longrightarrow> exi_rdreg V (snd (EXIImmEx H h (chn port) (push_bit 24 (ucast reg)) 2 EXI_WRITE)) = reg"
    and "exi_sel V h \<Longrightarrow> med (snd (EXIImmEx H h (chn port) (ata_wr8_word reg v) 3 EXI_WRITE)) = med h"
      "exi_sel V h \<Longrightarrow> tf_log V (snd (EXIImmEx H h (chn port) (ata_wr8_word reg v) 3 EXI_WRITE)) = tf_log V h @ [(reg, v)]"
    and "exi_sel V h \<Longrightarrow> exi_burst V (snd (EXIImmEx H h (chn port) ATA_BURST_CMD 4 EXI_WRITE))"
    and "quiet V med h (snd (EXI_DmaEx H h (chn port) b EXI_READ))"
  using assms unfolding ata_hw_ok_def Let_def by (blast | metis)+

lemma ata_hw_status:
  assumes "ata_hw_ok H V med port p" "exi_sel V h" "exi_rdreg V h = ATA_REG_STATUS"
    "EXIImmEx H h (chn port) x 1 EXI_READ = (r, h')"
  shows "(ucast (drop_bit 24 r) :: u8) AND (ATA_SR_BSY OR ATA_SR_DRQ) = ATA_SR_DRQ \<Longrightarrow> ata_drq V h'"
    and "(ucast (drop_bit 24 r) :: u8) AND ATA_SR_ERR = 0 \<Longrightarrow> ata_noerr V h'"
  using assms unfolding ata_hw_ok_def Let_def by (metis fst_conv snd_conv)+

lemma ata_hw_data:
  assumes "ata_hw_ok H V med port p" "exi_sel V h" "exi_burst V h" "ata_drq V h" "ata_noerr V h"
  shows "tf_command (tf_log V h) = ATA_CMD_READSECTEXT \<Longrightarrow>
      fst (EXI_DmaEx H h (chn port) b EXI_READ) = med h p (tf_lba48 (tf_log V h))"
    and "tf_command (tf_log V h) = ATA_CMD_READSECT \<Longrightarrow>
      fst (EXI_DmaEx H h (chn port) b EXI_READ) = med h p (tf_lba28 (tf_log V h))"
  using assms unfolding ata_hw_ok_def by blast+

lemma ata_select_quiet:
  assumes ok: "ata_hw_ok H V med port p" and s: "ata_select H h port = (k, h')"
  shows "quiet V med h h'" and "k \<Longrightarrow> exi_sel V h'"
proof -
  obtain k1 h1 where l: "EXILock H h (chn port) (dev port) = (k1, h1)" by (metis prod.exhaust)
  obtain k2 h2 where e: "EXISelect H h1 (chn port) (dev port) ATA_EXI_FREQ = (k2, h2)" by (metis prod.exhaust)
  have q: "quiet V med h h1" "quiet V med h1 h2" "quiet V med h2 (EXIUnlock H h2 (chn port))"
    "k2 \<Longrightarrow> exi_sel V h2"
    using ata_hwD(2,3,5,6) [OF ok] l e by (metis fst_conv snd_conv)+
  have "(k, h') = (if \<not> k1 then (False, h1) else if \<not> k2 then (False, EXIUnlock H h2 (chn port)) else (True, h2))"
    using s l e by (cases k1; cases k2) (simp_all add: ata_select_def)
  then show "quiet V med h h'" "k \<Longrightarrow> exi_sel V h'"
    using q by (auto split: if_splits intro: quiet_trans)
qed

lemma ata_deselect_quiet:
  "ata_hw_ok H V med port p \<Longrightarrow> quiet V med h (ata_deselect H h port)"
  unfolding ata_deselect_def by (rule quiet_trans [OF ata_hwD(4) ata_hwD(3)])

lemma ata_rd8_quiet:
  assumes ok: "ata_hw_ok H V med port p" and r: "ata_rd8 H h port reg = (v, h')"
  shows "quiet V med h h'"
    and "reg = ATA_REG_STATUS \<Longrightarrow> v AND (ATA_SR_BSY OR ATA_SR_DRQ) = ATA_SR_DRQ \<Longrightarrow> ata_drq V h'"
    and "reg = ATA_REG_STATUS \<Longrightarrow> v AND ATA_SR_ERR = 0 \<Longrightarrow> ata_noerr V h'"
proof -
  obtain k h1 where s: "ata_select H h port = (k, h1)" by (metis prod.exhaust)
  obtain y h2 where w: "EXIImmEx H h1 (chn port) (push_bit 24 (ucast reg)) 2 EXI_WRITE = (y, h2)"
    by (metis prod.exhaust)
  obtain x h3 where i: "EXIImmEx H h2 (chn port) 0 1 EXI_READ = (x, h3)" by (metis prod.exhaust)
  have q1: "quiet V med h h1" and k: "k \<Longrightarrow> exi_sel V h1" using ata_select_quiet [OF ok s] by auto
  have u: "(v, h') = (if \<not> k then (0xFF, h1) else (ucast (drop_bit 24 x), ata_deselect H h3 port))"
    using r s w i by (cases k) (simp_all add: ata_rd8_def ata_imm_def)
  have q: "quiet V med h h3" "exi_sel V h2" "exi_rdreg V h2 = reg" if k
  proof -
    have s1: "exi_sel V h1" using k that .
    show s2: "exi_sel V h2" "exi_rdreg V h2 = reg" using ata_hwD(7,9) [OF ok s1] w by (metis snd_conv)+
    have "quiet V med h1 h2" using ata_hwD(8) [OF ok s1, of 2 EXI_WRITE] w by (metis snd_conv numeral_eq_iff num.distinct(5))
    moreover have "quiet V med h2 h3" using ata_hwD(8) [OF ok s2(1), of 1 EXI_READ 0] i by simp
    ultimately show "quiet V med h h3" using q1 by (blast intro: quiet_trans)
  qed
  show "quiet V med h h'" using u q1 q(1) ata_deselect_quiet [OF ok] by (auto split: if_splits intro: quiet_trans)
  have d: "quiet V med h3 (ata_deselect H h3 port)" by (rule ata_deselect_quiet [OF ok])
  show "ata_drq V h'" if "reg = ATA_REG_STATUS" "v AND (ATA_SR_BSY OR ATA_SR_DRQ) = ATA_SR_DRQ"
    using u that q ata_hw_status(1) [OF ok _ _ i] d by (auto simp: ata_bit_defs quiet_def split: if_splits)
  show "ata_noerr V h'" if "reg = ATA_REG_STATUS" "v AND ATA_SR_ERR = 0"
    using u that q ata_hw_status(2) [OF ok _ _ i] d by (auto simp: ata_bit_defs quiet_def split: if_splits)
qed

lemma ata_wr8_log:
  assumes ok: "ata_hw_ok H V med port p"
  shows "med (ata_wr8 H h port reg v) = med h"
    and "fst (ata_select H h0 port) \<Longrightarrow> tf_log V (ata_wr8 H h port reg v) = tf_log V h @ [(reg, v)]"
proof -
  obtain k h1 where s: "ata_select H h port = (k, h1)" by (metis prod.exhaust)
  obtain y h2 where w: "EXIImmEx H h1 (chn port) (ata_wr8_word reg v) 3 EXI_WRITE = (y, h2)"
    by (metis prod.exhaust)
  have q1: "quiet V med h h1" and k: "k \<Longrightarrow> exi_sel V h1" using ata_select_quiet [OF ok s] by auto
  have q2: "med h2 = med h1" "tf_log V h2 = tf_log V h1 @ [(reg, v)]" if k
    using ata_hwD(10,11) [OF ok k [OF that]] w by (metis snd_conv)+
  have q3: "quiet V med h2 (ata_deselect H h2 port)" by (rule ata_deselect_quiet [OF ok])
  have u: "ata_wr8 H h port reg v = (if \<not> k then h1 else ata_deselect H h2 port)"
    using s w by (cases k) (simp_all add: ata_wr8_def ata_imm_def)
  show "med (ata_wr8 H h port reg v) = med h" using u q1 q2 q3 by (auto simp: quiet_def)
  show "tf_log V (ata_wr8 H h port reg v) = tf_log V h @ [(reg, v)]" if "fst (ata_select H h0 port)"
    using ata_hwD(1) [OF ok that, of h] s u q1 q2 q3 by (auto simp: quiet_def)
qed

lemma ata_wr_all_log:
  assumes ok: "ata_hw_ok H V med port p"
  shows "med (ata_wr_all H port tf h) = med h"
    and "fst (ata_select H h0 port) \<Longrightarrow> tf_log V (ata_wr_all H port tf h) = tf_log V h @ tf"
proof -
  show "med (ata_wr_all H port tf h) = med h"
    by (induction tf arbitrary: h) (auto simp: ata_wr_all_def ata_wr8_log(1) [OF ok])
  show "tf_log V (ata_wr_all H port tf h) = tf_log V h @ tf" if "fst (ata_select H h0 port)"
    by (induction tf arbitrary: h) (auto simp: ata_wr_all_def ata_wr8_log(2) [OF ok that])
qed

lemma ata_wait_from_step:
  "ata_rd8 H h port ATA_REG_STATUS = (st, h1) \<Longrightarrow> ata_wait_from H port m w i h =
     (if i < 100000 then if st = 0xFF then (False, h1) else if st AND m = w then (True, h1)
        else ata_wait_from H port m w (i + 1) h1 else (False, h))"
  by (simp add: ata_wait_from.simps [of H port m w i h])

lemma ata_wait_from_quiet:
  assumes ok: "ata_hw_ok H V med port p"
  shows "ata_wait_from H port m w i h = (k, h') \<Longrightarrow> quiet V med h h' \<and>
    (k \<longrightarrow> (\<exists>g st. ata_rd8 H g port ATA_REG_STATUS = (st, h') \<and> st AND m = w \<and> st \<noteq> 0xFF))"
proof (induction "nat (100000 - i)" arbitrary: i h rule: less_induct)
  case less
  obtain st h1 where r: "ata_rd8 H h port ATA_REG_STATUS = (st, h1)" by (metis prod.exhaust)
  have q: "quiet V med h h1" by (rule ata_rd8_quiet(1) [OF ok r])
  note u = ata_wait_from_step [OF r, of m w i]
  show ?case
  proof (cases "i < 100000 \<and> st \<noteq> 0xFF \<and> st AND m \<noteq> w")
    case True
    then have "ata_wait_from H port m w (i + 1) h1 = (k, h')" using u less.prems by simp
    moreover have "nat (100000 - (i + 1)) < nat (100000 - i)" using True by simp
    ultimately have "quiet V med h1 h' \<and> (k \<longrightarrow>
        (\<exists>g st. ata_rd8 H g port ATA_REG_STATUS = (st, h') \<and> st AND m = w \<and> st \<noteq> 0xFF))"
      using less.hyps by blast
    then show ?thesis using quiet_trans [OF q] by blast
  next
    case False
    then show ?thesis using u less.prems q r by (auto split: if_splits)
  qed
qed

lemma ata_wait_quiet:
  assumes ok: "ata_hw_ok H V med port p" and w: "ata_wait H h port m want = (k, h')"
  shows "quiet V med h h'"
    and "k \<Longrightarrow> m = ATA_SR_BSY OR ATA_SR_DRQ \<Longrightarrow> want = ATA_SR_DRQ \<Longrightarrow> ata_drq V h'"
    and "k \<Longrightarrow> fst (ata_select H g port)"
proof -
  have e: "quiet V med h h' \<and> (k \<longrightarrow>
      (\<exists>g st. ata_rd8 H g port ATA_REG_STATUS = (st, h') \<and> st AND m = want \<and> st \<noteq> 0xFF))"
    using ata_wait_from_quiet [OF ok] w by (simp add: ata_wait_def)
  show "quiet V med h h'" using e by blast
  show "ata_drq V h'" if "k" "m = ATA_SR_BSY OR ATA_SR_DRQ" "want = ATA_SR_DRQ"
    using e that ata_rd8_quiet(2) [OF ok] by blast
  show "fst (ata_select H g port)" if "k"
  proof -
    obtain f st where "ata_rd8 H f port ATA_REG_STATUS = (st, h')" "st \<noteq> 0xFF" using e \<open>k\<close> by blast
    then have "fst (ata_select H f port)" by (auto simp: ata_rd8_def split: prod.splits if_splits)
    then show ?thesis by (rule ata_hwD(1) [OF ok])
  qed
qed

lemma ata_rd_buffer_ok:
  assumes ok: "ata_hw_ok H V med port p" and r: "ata_rd_buffer H d port dst = (k, s, d')"
  shows "med (hw d') = med (hw d)" "ata_lba48 d' = ata_lba48 d"
    and "k \<Longrightarrow> ata_drq V (hw d) \<Longrightarrow> ata_noerr V (hw d) \<Longrightarrow>
      (tf_command (tf_log V (hw d)) = ATA_CMD_READSECTEXT \<longrightarrow> s = med (hw d) p (tf_lba48 (tf_log V (hw d)))) \<and>
      (tf_command (tf_log V (hw d)) = ATA_CMD_READSECT \<longrightarrow> s = med (hw d) p (tf_lba28 (tf_log V (hw d))))"
proof -
  obtain k1 h1 where s: "ata_select H (hw d) port = (k1, h1)" by (metis prod.exhaust)
  obtain y h2 where w: "EXIImmEx H h1 (chn port) ATA_BURST_CMD 4 EXI_WRITE = (y, h2)" by (metis prod.exhaust)
  obtain b h3 where dm: "EXI_DmaEx H h2 (chn port) (ata_buf d) EXI_READ = (b, h3)" by (metis prod.exhaust)
  have q1: "quiet V med (hw d) h1" and k: "k1 \<Longrightarrow> exi_sel V h1" using ata_select_quiet [OF ok s] by auto
  have q2: "quiet V med h1 h2" "exi_sel V h2" "exi_burst V h2" if k1
    using ata_hwD(8) [OF ok k [OF that], of 4 EXI_WRITE ATA_BURST_CMD] ata_hwD(7,12) [OF ok k [OF that]] w
    by (auto dest: sym) (metis snd_conv)+
  have q3: "quiet V med h2 h3" using ata_hwD(13) [OF ok, of h2 "ata_buf d"] dm by simp
  have q4: "quiet V med h3 (ata_deselect H h3 port)" by (rule ata_deselect_quiet [OF ok])
  have u: "(k, s, d') = (if \<not> k1 then (False, dst, d\<lparr>hw := h1\<rparr>)
      else (True, b, d\<lparr>hw := ata_deselect H h3 port, ata_buf := b\<rparr>))"
    using r s w dm by (cases k1) (auto simp: ata_rd_buffer_def ata_imm_def)
  show "med (hw d') = med (hw d)" "ata_lba48 d' = ata_lba48 d"
    using u q1 q2 q3 q4 by (auto simp: quiet_def split: if_splits)
  show "(tf_command (tf_log V (hw d)) = ATA_CMD_READSECTEXT \<longrightarrow> s = med (hw d) p (tf_lba48 (tf_log V (hw d)))) \<and>
      (tf_command (tf_log V (hw d)) = ATA_CMD_READSECT \<longrightarrow> s = med (hw d) p (tf_lba28 (tf_log V (hw d))))"
    if kk: "k" "ata_drq V (hw d)" "ata_noerr V (hw d)"
  proof -
    have k1: "k1" and sb: "s = b" using u kk(1) by (auto split: if_splits)
    have qq: "quiet V med (hw d) h2" using q1 q2(1) [OF k1] by (rule quiet_trans)
    then have "ata_drq V h2" "ata_noerr V h2" "med h2 = med (hw d)" "tf_log V h2 = tf_log V (hw d)"
      using kk by (simp_all add: quiet_def)
    then show ?thesis
      using ata_hw_data [OF ok q2(2,3) [OF k1], of "ata_buf d"] dm sb by simp
  qed
qed

lemma ata_read_one_ok:
  assumes ok: "ata_hw_ok H V med port p" and r: "ata_read_one H port d lba dst = (k, s, d')"
  shows "med (hw d') = med (hw d)" "ata_lba48 d' = ata_lba48 d"
    and "k \<Longrightarrow> s = med (hw d) p (if ata_lba48 d ! unat (chn port) then unat lba else unat lba mod 2 ^ 28)"
proof -
  let ?b = "ata_lba48 d ! unat (chn port)"
  obtain k1 h1 where w1: "ata_wait H (hw d) port ATA_SR_BSY 0 = (k1, h1)" by (metis prod.exhaust)
  define h2 where "h2 = ata_wr_all H port (ata_taskfile ?b lba) h1"
  obtain k2 h3 where w2: "ata_wait H h2 port (ATA_SR_BSY OR ATA_SR_DRQ) ATA_SR_DRQ = (k2, h3)"
    by (metis prod.exhaust)
  obtain st h4 where rs: "ata_rd8 H h3 port ATA_REG_STATUS = (st, h4)" by (metis prod.exhaust)
  obtain kb sb db where rb: "ata_rd_buffer H (d\<lparr>hw := h4\<rparr>) port dst = (kb, sb, db)" by (metis prod_cases3)
  have rd: "med (snd (ata_rd8 H h port x)) = med h" for h x
    using ata_rd8_quiet(1) [OF ok, of h x] by (metis prod.collapse quiet_def)
  have q1: "quiet V med (hw d) h1" by (rule ata_wait_quiet(1) [OF ok w1])
  have m2: "med h2 = med h1" unfolding h2_def by (rule ata_wr_all_log(1) [OF ok])
  have q3: "quiet V med h2 h3" by (rule ata_wait_quiet(1) [OF ok w2])
  have q4: "quiet V med h3 h4" by (rule ata_rd8_quiet(1) [OF ok rs])
  note B = ata_rd_buffer_ok [OF ok rb]
  have u: "(k, s, d') = (if \<not> k1 then (False, dst, d\<lparr>hw := snd (ata_rd8 H h1 port ATA_REG_STATUS)\<rparr>)
      else if \<not> k2 then (False, dst, d\<lparr>hw := snd (ata_rd8 H (snd (ata_rd8 H h3 port ATA_REG_STATUS)) port ATA_REG_ERROR)\<rparr>)
      else if st AND ATA_SR_ERR \<noteq> 0 then (False, dst, d\<lparr>hw := snd (ata_rd8 H h4 port ATA_REG_ERROR)\<rparr>)
      else (kb, sb, db))"
    using r w1 w2 rs rb unfolding ata_read_one_def h2_def by (cases k1; cases k2) (auto simp: Let_def)
  have md: "med h1 = med (hw d)" "med h3 = med (hw d)" "med h4 = med (hw d)"
    using q1 m2 q3 q4 by (simp_all add: quiet_def)
  show "med (hw d') = med (hw d)" "ata_lba48 d' = ata_lba48 d"
    using u md rd B(1,2) by (auto split: if_splits)
  show "s = med (hw d) p (if ?b then unat lba else unat lba mod 2 ^ 28)" if k
  proof -
    have kk: "k1" "k2" "st AND ATA_SR_ERR = 0" "kb" "s = sb" using u that by (auto split: if_splits)
    have "tf_log V h2 = tf_log V h1 @ ata_taskfile ?b lba"
      unfolding h2_def by (rule ata_wr_all_log(2) [OF ok ata_wait_quiet(3) [OF ok w1 kk(1)]])
    then have lg: "tf_log V h4 = tf_log V h1 @ ata_taskfile ?b lba" using q3 q4 by (simp add: quiet_def)
    have "ata_drq V h4" using ata_wait_quiet(2) [OF ok w2 kk(2)] q4 by (simp add: quiet_def)
    moreover have "ata_noerr V h4" using ata_rd8_quiet(3) [OF ok rs] kk(3) by simp
    ultimately show ?thesis using B(3) [OF kk(4)] lg md(3) kk(5) taskfile48 taskfile28
      by (cases ?b) simp_all
  qed
qed

text \<open>
  A drive without LBA48 has only \<open>2 ^ 28\<close> addresses; the driver sends it the low 28 bits of
  the sector number, so the medium it shows repeats with that period.
\<close>

definition ata_inv :: "'h hwops \<Rightarrow> 'h ata_view \<Rightarrow> ('h \<Rightarrow> u8 \<Rightarrow> nat \<Rightarrow> sector) \<Rightarrow> exi_port \<Rightarrow> u8 \<Rightarrow> 'h plat \<Rightarrow> bool" where
  "ata_inv H V med port p d \<longleftrightarrow> ata_hw_ok H V med port p \<and>
     (ata_lba48 d ! unat (chn port) \<or> (\<forall>k. med (hw d) p k = med (hw d) p (k mod 2 ^ 28)))"

lemma ata_soft_reset_med:
  "ata_hw_ok H V med port p \<Longrightarrow> med (ata_soft_reset H h port) = med h"
  using ata_wait_quiet(1) [of H V med port p] ata_wr8_log(1) [of H V med port p]
  by (simp add: ata_soft_reset_def Let_def) (metis prod.collapse quiet_def)

lemma ata_attempts_ok:
  "ata_inv H V med port p d \<Longrightarrow> ata_attempts H port n t d lba dst = (k, s, d') \<Longrightarrow>
     ata_inv H V med port p d' \<and> ata_lba48 d' = ata_lba48 d \<and> med (hw d') = med (hw d) \<and>
     (k \<longrightarrow> s = med (hw d) p (unat lba))"
proof (induction n arbitrary: t d dst)
  case (Suc n)
  define d0 where "d0 = (if t > 0 then d\<lparr>hw := ata_soft_reset H (hw d) port\<rparr> else d)"
  obtain k1 s1 d1 where r: "ata_read_one H port d0 lba dst = (k1, s1, d1)" by (metis prod_cases3)
  have ok: "ata_hw_ok H V med port p" using Suc.prems(1) by (simp add: ata_inv_def)
  have m0: "med (hw d0) = med (hw d)" "ata_lba48 d0 = ata_lba48 d"
    using ata_soft_reset_med [OF ok] by (auto simp: d0_def)
  note R = ata_read_one_ok [OF ok r]
  have i1: "ata_inv H V med port p d1" "ata_lba48 d1 = ata_lba48 d" "med (hw d1) = med (hw d)"
    using Suc.prems(1) R(1,2) m0 by (simp_all add: ata_inv_def)
  have "ata_lba48 d ! unat (chn port) \<or> med (hw d) p (unat lba) = med (hw d) p (unat lba mod 2 ^ 28)"
    using Suc.prems(1) unfolding ata_inv_def by blast
  then have e: "k1 \<Longrightarrow> s1 = med (hw d) p (unat lba)"
    using R(3) m0 by (auto split: if_splits)
  have "(if k1 then (True, s1, d1) else ata_attempts H port n (t + 1) d1 lba s1) = (k, s, d')"
    using Suc.prems(2) r by (simp add: d0_def Let_def)
  then show ?case using Suc.IH [OF i1(1)] i1 e by (cases k1) fastforce+
qed auto

interpretation ata: sector_io "ata_attempts H port ATA_READ_RETRIES 0" "\<lambda>d. med (hw d)" p
  "ata_inv H V med port p" for H port med p V
  by unfold_locales (use ata_attempts_ok in \<open>metis\<close>)+

end
