(* ===== verification/GcodeDrv.thy ===== *)
theory GcodeDrv
  imports Hardware
begin

text \<open>
  The GC Loader driver (emu/gcode.c): detection with a cached answer, and sector reads by DMA
  over the disc interface, in chunks of 64 KiB when the destination is aligned and through a
  bounce buffer when it is not. \<open>gcode_hw_ok\<close> states what the DI registers and the GC Loader
  are documented to do; on such hardware the driver implements \<open>sector_driver\<close>.
\<close>

section \<open>Model\<close>

definition DVD_GCODE_READ :: u32 where "DVD_GCODE_READ = 0xB2000000"
definition GCODE_SECTOR_SIZE :: u32 where "GCODE_SECTOR_SIZE = 512"
definition GCODE_MAX_XFER :: u32 where "GCODE_MAX_XFER = 64 * 1024"
definition GCODE_INIT_ATTEMPTS :: nat where "GCODE_INIT_ATTEMPTS = 40"
definition GCODE_INIT_SETTLE_MS :: nat where "GCODE_INIT_SETTLE_MS = 10"
definition DEV_GCLDR :: u8 where "DEV_GCLDR = 7"

text \<open>One attempt of the loop of \<open>gcode_sd_init\<close>: timed out, recognised, or neither.\<close>

datatype inquiry = INQ_TIMEOUT | INQ_FOUND | INQ_OTHER

definition gcode_inquiry :: "'h hwops \<Rightarrow> u32 \<Rightarrow> 'h \<Rightarrow> inquiry \<times> 'h" where
  "gcode_inquiry H info h =
     (let h = ram_store H h info (replicate 32 0);
          h = di_prepare H h;
          h = di_setup H h DVD_OEM_INQUIRY 0 0 (phys info) 32;
          h = di_store H h DI_CR (DI_CR_DMA OR DI_CR_TSTART);
          (timeout, h) = di_poll H h 1000000
      in if timeout = 0 then (INQ_TIMEOUT, h)
         else (let h = DCInvalidateRange H h info 32;
                   (sr, h) = di_load H h DI_SR
               in if sr AND DI_SR_DEINT = 0 \<and> be32 (ram_load H h info 32) 4 = GCODE_REL_DATE
                  then (INQ_FOUND, h) else (INQ_OTHER, h)))"

primrec gcode_init_loop :: "'h hwops \<Rightarrow> nat \<Rightarrow> 'h plat \<Rightarrow> bool \<times> 'h plat" where
  "gcode_init_loop H 0 d = (False, d\<lparr>has_gcode := 0\<rparr>)"
| "gcode_init_loop H (Suc n) d =
     (let (r, h) = gcode_inquiry H (gcode_info d) (hw d)
      in case r of
           INQ_TIMEOUT \<Rightarrow> (False, d\<lparr>hw := h, has_gcode := 0\<rparr>)
         | INQ_FOUND \<Rightarrow> (True, d\<lparr>hw := h, has_gcode := 1\<rparr>)
         | INQ_OTHER \<Rightarrow> gcode_init_loop H n (d\<lparr>hw := settle_ms H h GCODE_INIT_SETTLE_MS\<rparr>))"

definition gcode_sd_init :: "'h hwops \<Rightarrow> 'h plat \<Rightarrow> bool \<times> 'h plat" where
  "gcode_sd_init H d =
     (if has_gcode d \<ge> 0 then (has_gcode d = 1, d)
      else gcode_init_loop H GCODE_INIT_ATTEMPTS d)"

definition gcode_read_aligned :: "'h hwops \<Rightarrow> 'h \<Rightarrow> u32 \<Rightarrow> u32 \<Rightarrow> u32 \<Rightarrow> bool \<times> 'h" where
  "gcode_read_aligned H h sector buf len =
     (let h = di_prepare H h;
          h = di_setup H h DVD_GCODE_READ sector len (phys buf) len;
          h = DCInvalidateRange H h buf len;
          h = di_store H h DI_CR (DI_CR_DMA OR DI_CR_TSTART);
          (timeout, h) = di_poll H h 1000000
      in if timeout = 0 then (False, h)
         else (let h = DCInvalidateRange H h buf len;
                   (sr, h) = di_load H h DI_SR
               in (sr AND DI_SR_DEINT = 0, h)))"

text \<open>The bytes of a DMA buffer as the sectors the rest of the model speaks of.\<close>

definition to_sectors :: "bytes \<Rightarrow> nat \<Rightarrow> sector list" where
  "to_sectors b n = map (\<lambda>i. sub_list b (i * 512) 512) [0..<n]"

definition gcode_chunk :: "u32 \<Rightarrow> u32" where
  "gcode_chunk count = (if count * GCODE_SECTOR_SIZE > GCODE_MAX_XFER
     then GCODE_MAX_XFER div GCODE_SECTOR_SIZE else count)"

lemma gcode_chunk_pos: "count \<noteq> 0 \<Longrightarrow> unat (count - gcode_chunk count) < unat count"
proof -
  assume c: "count \<noteq> 0"
  have "unat (count * 512) \<le> unat count * 512" by (simp add: unat_word_ariths)
  then have "128 < count" if "count * 512 > 65536"
    using that by (simp add: word_less_nat_alt)
  with c show ?thesis
    by (auto simp: gcode_chunk_def GCODE_SECTOR_SIZE_def GCODE_MAX_XFER_def unat_gt_0 unat_sub
        word_le_nat_alt word_less_nat_alt)
qed

function gcode_read_loop :: "'h hwops \<Rightarrow> 'h \<Rightarrow> u32 \<Rightarrow> u32 \<Rightarrow> sector list \<Rightarrow> nat \<Rightarrow> u32
    \<Rightarrow> bool \<times> sector list \<times> 'h" where
  "gcode_read_loop H h sector data buf pos count =
     (if count = 0 then (True, buf, h)
      else (let chunk = gcode_chunk count; n = chunk * GCODE_SECTOR_SIZE;
                (ok, h') = gcode_read_aligned H h sector data n;
                buf' = blit buf pos (to_sectors (ram_load H h' data (unat n)) (unat n div 512))
            in if ok then gcode_read_loop H h' (sector + chunk) (data + n) buf' (pos + unat chunk)
                            (count - chunk)
               else (False, buf', h')))"
  by pat_completeness auto

termination
  by (relation "measure (\<lambda>(H, h, s, a, b, p, c). unat c)") (auto simp: gcode_chunk_pos)

declare gcode_read_loop.simps [simp del]

definition gcode_bounce_read :: "'h hwops \<Rightarrow> u32 \<Rightarrow> 'h \<Rightarrow> u32 \<Rightarrow> sector \<Rightarrow> bool \<times> sector \<times> 'h" where
  "gcode_bounce_read H bounce h sector s =
     (let (ok, h') = gcode_read_aligned H h sector bounce GCODE_SECTOR_SIZE
      in (ok, if ok then ram_load H h' bounce 512 else s, h'))"

definition gcode_sd_read :: "'h hwops \<Rightarrow> 'h plat \<Rightarrow> u32 \<Rightarrow> u32 \<Rightarrow> sector list \<Rightarrow> u32
    \<Rightarrow> bool \<times> sector list \<times> 'h plat" where
  "gcode_sd_read H d sector data buf count =
     (let (present, d) = (if has_gcode d \<noteq> 1 then gcode_sd_init H d else (True, d))
      in if \<not> present then (False, buf, d)
         else if data AND 0x1F = 0
         then (let (ok, buf', h) = gcode_read_loop H (hw d) sector data buf 0 count
               in (ok, buf', d\<lparr>hw := h\<rparr>))
         else (let (ok, buf', h) = for_sectors (gcode_bounce_read H (gcode_bounce d)) (hw d) sector buf 0
                                     (unat count)
               in (ok, buf', d\<lparr>hw := h\<rparr>)))"

definition gcode_sd_write :: "'h plat \<Rightarrow> u32 \<Rightarrow> sector list \<Rightarrow> u32 \<Rightarrow> bool \<times> 'h plat" where
  "gcode_sd_write d sector data count = (False, d)"

section \<open>What the driver relies on\<close>

text \<open>
  Ghost views of the disc interface: the registers as last written, the command registers
  when the last transfer was started, and whether that transfer was seen to have ended.
\<close>

record 'h di_view =
  di_reg :: "'h \<Rightarrow> nat \<Rightarrow> u32"
  di_xfer :: "'h \<Rightarrow> u32 list"
  di_done :: "'h \<Rightarrow> bool"

definition gcode_hw_ok :: "'h hwops \<Rightarrow> 'h di_view \<Rightarrow> ('h \<Rightarrow> u8 \<Rightarrow> nat \<Rightarrow> sector) \<Rightarrow> bool" where
  "gcode_hw_ok H V med \<longleftrightarrow>
     (\<forall>h i v. med (di_store H h i v) = med h) \<and>
     (\<forall>h i v r. di_reg V (di_store H h i v) r = (if i = r then v else di_reg V h r)) \<and>
     (\<forall>h v. v AND DI_CR_TSTART \<noteq> 0 \<longrightarrow>
        di_xfer V (di_store H h DI_CR v) = map (di_reg V h) [2, 3, 4, 5, 6]) \<and>
     (\<forall>h i. med (snd (di_load H h i)) = med h \<and> di_xfer V (snd (di_load H h i)) = di_xfer V h) \<and>
     (\<forall>h. fst (di_load H h DI_CR) AND DI_CR_TSTART = 0 \<longrightarrow> di_done V (snd (di_load H h DI_CR))) \<and>
     (\<forall>h a n. med (DCInvalidateRange H h a n) = med h \<and>
        di_reg V (DCInvalidateRange H h a n) = di_reg V h \<and>
        di_xfer V (DCInvalidateRange H h a n) = di_xfer V h \<and>
        (di_done V h \<longrightarrow> di_done V (DCInvalidateRange H h a n))) \<and>
     (\<forall>h a lba len. di_done V h \<and> fst (di_load H h DI_SR) AND DI_SR_DEINT = 0 \<and>
        di_xfer V h = [DVD_GCODE_READ, lba, len, phys a, len] \<and> unat lba + unat len div 512 \<le> 2 ^ 32 \<longrightarrow>
        ram_load H (snd (di_load H h DI_SR)) a (unat len) =
          concat (secs (med h DEV_GCLDR) (unat lba) (unat len div 512))) \<and>
     (\<forall>h a b. med (ram_store H h a b) = med h) \<and> (\<forall>h n. med (settle_ms H h n) = med h) \<and>
     (\<forall>h k. length (med h DEV_GCLDR k) = 512)"

section \<open>Correctness\<close>

lemma gcode_hwD:
  assumes "gcode_hw_ok H V med"
  shows "med (di_store H h i v) = med h"
    and "di_reg V (di_store H h i v) r = (if i = r then v else di_reg V h r)"
    and "v AND DI_CR_TSTART \<noteq> 0 \<Longrightarrow>
      di_xfer V (di_store H h DI_CR v) = map (di_reg V h) [2, 3, 4, 5, 6]"
    and "med (snd (di_load H h i)) = med h" "di_xfer V (snd (di_load H h i)) = di_xfer V h"
    and "fst (di_load H h DI_CR) AND DI_CR_TSTART = 0 \<Longrightarrow> di_done V (snd (di_load H h DI_CR))"
    and "med (DCInvalidateRange H h a n) = med h" "di_reg V (DCInvalidateRange H h a n) = di_reg V h"
      "di_xfer V (DCInvalidateRange H h a n) = di_xfer V h"
      "di_done V h \<Longrightarrow> di_done V (DCInvalidateRange H h a n)"
    and "di_done V h \<Longrightarrow> fst (di_load H h DI_SR) AND DI_SR_DEINT = 0 \<Longrightarrow>
      di_xfer V h = [DVD_GCODE_READ, lba, len, phys a, len] \<Longrightarrow> unat lba + unat len div 512 \<le> 2 ^ 32 \<Longrightarrow>
      ram_load H (snd (di_load H h DI_SR)) a (unat len) =
        concat (secs (med h DEV_GCLDR) (unat lba) (unat len div 512))"
    and "med (ram_store H h a b) = med h" "med (settle_ms H h k) = med h"
      "length (med h DEV_GCLDR q) = 512"
  using assms unfolding gcode_hw_ok_def by (blast | metis)+

lemma cr_start [simp]: "(DI_CR_DMA OR DI_CR_TSTART) AND DI_CR_TSTART \<noteq> 0"
  by (simp add: di_bit_defs)

lemma di_setup_reg:
  assumes "gcode_hw_ok H V med"
  shows "map (di_reg V (di_setup H h c0 c1 c2 mar len)) [2, 3, 4, 5, 6] = [c0, c1, c2, mar, len]"
    and "med (di_setup H h c0 c1 c2 mar len) = med h"
  by (simp_all add: di_setup_def Let_def gcode_hwD(1,2) [OF assms] di_reg_defs)

lemma di_prepare_med: "gcode_hw_ok H V med \<Longrightarrow> med (di_prepare H h) = med h"
  by (simp add: di_prepare_def gcode_hwD(1))

lemma di_poll_med: "gcode_hw_ok H V med \<Longrightarrow> med (snd (di_poll H h t)) = med h"
  by (rule di_poll_keeps [where P = "\<lambda>x. med x = med h"]) (metis gcode_hwD(4) snd_conv, simp)

lemma di_poll_xfer: "gcode_hw_ok H V med \<Longrightarrow> di_xfer V (snd (di_poll H h t)) = di_xfer V h"
  by (rule di_poll_keeps [where P = "\<lambda>x. di_xfer V x = di_xfer V h"])
    (metis gcode_hwD(5) snd_conv, simp)

lemma di_poll_done:
  assumes "gcode_hw_ok H V med" "fst (di_poll H h t) \<noteq> 0" "t \<noteq> 0"
  shows "di_done V (snd (di_poll H h t))"
  using di_poll_last [OF assms(2,3)] gcode_hwD(6) [OF assms(1)] by (metis fst_conv snd_conv)

lemma gcode_read_aligned_frame:
  "gcode_hw_ok H V med \<Longrightarrow> med (snd (gcode_read_aligned H h s a n)) = med h"
  using di_poll_med [of H V med] di_setup_reg(2) [of H V med] gcode_hwD(1,4,7) [of H V med]
    di_prepare_med [of H V med]
  by (simp add: gcode_read_aligned_def Let_def split: prod.splits) (metis snd_conv)

lemma gcode_read_aligned_ok:
  assumes ok: "gcode_hw_ok H V med" and r: "gcode_read_aligned H h s a n = (True, h')"
    and rng: "unat s + unat n div 512 \<le> 2 ^ 32"
  shows "ram_load H h' a (unat n) = concat (secs (med h DEV_GCLDR) (unat s) (unat n div 512))"
proof -
  define h1 where "h1 = di_setup H (di_prepare H h) DVD_GCODE_READ s n (phys a) n"
  define h2 where "h2 = di_store H (DCInvalidateRange H h1 a n) DI_CR (DI_CR_DMA OR DI_CR_TSTART)"
  define h3 where "h3 = snd (di_poll H h2 1000000)"
  define h4 where "h4 = DCInvalidateRange H h3 a n"
  have p: "fst (di_poll H h2 1000000) \<noteq> 0" and sr: "fst (di_load H h4 DI_SR) AND DI_SR_DEINT = 0"
    and h': "h' = snd (di_load H h4 DI_SR)"
    using r unfolding gcode_read_aligned_def Let_def h4_def h3_def h2_def h1_def
    by (auto split: prod.splits if_splits)
  have "di_xfer V h2 = [DVD_GCODE_READ, s, n, phys a, n]"
    unfolding h2_def gcode_hwD(3) [OF ok cr_start] gcode_hwD(8) [OF ok] h1_def
    by (rule di_setup_reg(1) [OF ok])
  then have x: "di_xfer V h4 = [DVD_GCODE_READ, s, n, phys a, n]"
    by (simp add: h4_def h3_def gcode_hwD(9) [OF ok] di_poll_xfer [OF ok])
  have dn: "di_done V h4" unfolding h4_def h3_def
    by (rule gcode_hwD(10) [OF ok di_poll_done [OF ok p]]) simp
  have "med h4 = med h"
    by (simp add: h4_def h3_def h2_def h1_def gcode_hwD(1,7) [OF ok] di_poll_med [OF ok]
        di_setup_reg(2) [OF ok] di_prepare_med [OF ok])
  then show ?thesis using gcode_hwD(11) [OF ok dn sr x rng] h' by simp
qed

lemma length_to_sectors [simp]: "length (to_sectors b n) = n"
  by (simp add: to_sectors_def)

lemma sub_list_concat:
  "\<lbrakk>\<forall>x \<in> set xs. length x = k; i < length xs\<rbrakk> \<Longrightarrow> sub_list (concat xs) (i * k) k = xs ! i"
proof (induction xs arbitrary: i)
  case (Cons x xs)
  then show ?case by (cases i) (auto simp: sub_list_def)
qed simp

lemma to_sectors_concat:
  "\<forall>x \<in> set xs. length x = 512 \<Longrightarrow> to_sectors (concat xs) (length xs) = xs"
  by (rule nth_equalityI) (simp_all add: to_sectors_def sub_list_concat)

lemma gcode_chunk_size:
  assumes "unat count < 2 ^ 23"
  shows "unat (gcode_chunk count * GCODE_SECTOR_SIZE) = unat (gcode_chunk count) * 512"
    and "gcode_chunk count \<le> count"
proof -
  have c: "unat (count * 512) = unat count * 512" using assms by (simp add: unat_word_ariths)
  then have "128 \<le> count" if "count * 512 > 65536"
    using that by (simp add: word_less_nat_alt word_le_nat_alt)
  then show "gcode_chunk count \<le> count"
    "unat (gcode_chunk count * GCODE_SECTOR_SIZE) = unat (gcode_chunk count) * 512"
    using c by (simp_all add: gcode_chunk_def GCODE_SECTOR_SIZE_def GCODE_MAX_XFER_def)
qed

lemma gcode_read_loop_spec:
  assumes ok: "gcode_hw_ok H V med"
  shows "gcode_read_loop H h s a buf pos count = (r, buf', h') \<Longrightarrow> unat count < 2 ^ 23 \<Longrightarrow>
    pos + unat count \<le> length buf \<Longrightarrow> med h' = med h \<and> length buf' = length buf \<and>
    (r \<and> unat s + unat count \<le> 2 ^ 32 \<longrightarrow>
       take (pos + unat count) buf' = take pos buf @ secs (med h DEV_GCLDR) (unat s) (unat count))"
proof (induction "unat count" arbitrary: h s a buf pos count rule: less_induct)
  case less
  show ?case
  proof (cases "count = 0")
    case True
    then show ?thesis using less.prems(1) by (simp add: gcode_read_loop.simps)
  next
    case False
    define ch where "ch = gcode_chunk count"
    define n where "n = ch * GCODE_SECTOR_SIZE"
    obtain k h1 where ra: "gcode_read_aligned H h s a n = (k, h1)" by (metis prod.exhaust)
    define b1 where "b1 = blit buf pos (to_sectors (ram_load H h1 a (unat n)) (unat ch))"
    have n: "unat n = unat ch * 512" and le: "unat ch \<le> unat count"
      using gcode_chunk_size [OF less.prems(2)] by (simp_all add: n_def ch_def word_le_nat_alt)
    have m1: "med h1 = med h" using gcode_read_aligned_frame [OF ok, of h s a n] ra by simp
    have l1: "length b1 = length buf" using le less.prems(3) by (simp add: b1_def)
    have unf: "(if k then gcode_read_loop H h1 (s + ch) (a + n) b1 (pos + unat ch) (count - ch)
        else (False, b1, h1)) = (r, buf', h')"
      using less.prems(1) False ra n
      unfolding gcode_read_loop.simps [of H h s a buf pos count] Let_def ch_def [symmetric]
        n_def [symmetric] by (cases k) (auto simp: b1_def)
    show ?thesis
    proof (cases k)
      case False
      then show ?thesis using unf m1 l1 by auto
    next
      case True
      have c: "unat (count - ch) = unat count - unat ch"
        using le by (simp add: unat_sub word_le_nat_alt)
      have lt: "unat (count - ch) < unat count" using gcode_chunk_pos [OF False] by (simp add: ch_def)
      have lp: "gcode_read_loop H h1 (s + ch) (a + n) b1 (pos + unat ch) (count - ch) = (r, buf', h')"
        using unf True by simp
      have ih: "med h' = med h1 \<and> length buf' = length b1 \<and>
        (r \<and> unat (s + ch) + unat (count - ch) \<le> 2 ^ 32 \<longrightarrow>
          take (pos + unat ch + unat (count - ch)) buf' =
            take (pos + unat ch) b1 @ secs (med h1 DEV_GCLDR) (unat (s + ch)) (unat (count - ch)))"
        by (rule less.hyps [OF lt lp]) (use less.prems(2,3) c le l1 in simp_all)
      have "take (pos + unat count) buf' = take pos buf @ secs (med h DEV_GCLDR) (unat s) (unat count)"
        if r: "r" and rng: "unat s + unat count \<le> 2 ^ 32"
      proof -
        have dt: "ram_load H h1 a (unat n) = concat (secs (med h DEV_GCLDR) (unat s) (unat ch))"
          using gcode_read_aligned_ok [OF ok ra [unfolded eqTrueI [OF True]]] rng le by (simp add: n)
        have "to_sectors (ram_load H h1 a (unat n)) (unat ch) = secs (med h DEV_GCLDR) (unat s) (unat ch)"
          using to_sectors_concat [of "secs (med h DEV_GCLDR) (unat s) (unat ch)"] gcode_hwD(14) [OF ok]
          by (simp add: dt) (simp add: secs_def)
        then have t1: "take (pos + unat ch) b1 = take pos buf @ secs (med h DEV_GCLDR) (unat s) (unat ch)"
          using take_blit [of pos "secs (med h DEV_GCLDR) (unat s) (unat ch)" buf] le less.prems(3)
          by (simp add: b1_def)
        show ?thesis
        proof (cases "ch = count")
          case True
          then show ?thesis using ih r t1 unf \<open>k\<close>
            by (simp add: gcode_read_loop.simps)
        next
          case False
          then have "unat ch < unat count" using le by (metis le_neq_implies_less word_unat_eq_iff)
          then have "unat (s + ch) = unat s + unat ch"
            using rng by (intro unat_add_no_wrap_u32) simp
          then show ?thesis using ih r rng c le t1 m1
              secs_append [of "med h DEV_GCLDR" "unat s" "unat ch" "unat count - unat ch"] by simp
        qed
      qed
      then show ?thesis using ih m1 l1 by simp
    qed
  qed
qed

lemma gcode_init_loop_med:
  "gcode_hw_ok H V med \<Longrightarrow> med (hw (snd (gcode_init_loop H n d))) = med (hw d)"
proof (induction n arbitrary: d)
  case (Suc n)
  note ok = Suc.prems
  obtain r h where i: "gcode_inquiry H (gcode_info d) (hw d) = (r, h)" by (metis prod.exhaust)
  have "med (snd (gcode_inquiry H (gcode_info d) (hw d))) = med (hw d)"
    using gcode_hwD(1,4,7,12) [OF ok] di_poll_med [OF ok] di_setup_reg(2) [OF ok] di_prepare_med [OF ok]
    by (simp add: gcode_inquiry_def Let_def split: prod.splits) (metis snd_conv)
  then have "med h = med (hw d)" using i by simp
  then show ?case using Suc.IH [OF ok] i gcode_hwD(13) [OF ok] by (simp split: inquiry.splits)
qed simp

lemma gcode_sd_init_med: "gcode_hw_ok H V med \<Longrightarrow> med (hw (snd (gcode_sd_init H d))) = med (hw d)"
  by (simp add: gcode_sd_init_def gcode_init_loop_med)

interpretation bounce: sector_io "gcode_bounce_read H b" med DEV_GCLDR "\<lambda>h. gcode_hw_ok H V med"
  for H b V med
proof
  fix h a s s' h'
  assume ok: "gcode_hw_ok H V med" and r: "gcode_bounce_read H b h a s = (True, s', h')"
  then have ra: "gcode_read_aligned H h a b GCODE_SECTOR_SIZE = (True, h')" and "s' = ram_load H h' b 512"
    by (auto simp: gcode_bounce_read_def Let_def split: prod.splits)
  then show "s' = med h DEV_GCLDR (unat a)"
    using gcode_read_aligned_ok [OF ok ra] unat_u32_less [of a]
    by (simp add: GCODE_SECTOR_SIZE_def secs_def)
next
  fix h a s k s' h'
  assume ok: "gcode_hw_ok H V med" and "gcode_bounce_read H b h a s = (k, s', h')"
  then show "gcode_hw_ok H V med \<and> med h' = med h"
    using gcode_read_aligned_frame [OF ok, of h a b GCODE_SECTOR_SIZE]
    by (auto simp: gcode_bounce_read_def Let_def split: prod.splits)
qed

interpretation gc: sector_driver "gcode_sd_read H" "\<lambda>d. med (hw d)" DEV_GCLDR "\<lambda>d. gcode_hw_ok H V med"
  for H V med
proof -
  have *: "med (hw d') = med (hw d) \<and> length buf' = length buf \<and>
      (r \<and> unat a + unat n \<le> 2 ^ 32 \<longrightarrow> buf' = secs (med (hw d) DEV_GCLDR) (unat a) (unat n))"
    if ok: "gcode_hw_ok H V med" and rd: "gcode_sd_read H d a ptr buf n = (r, buf', d')"
      and len: "length buf = unat n" "unat n < 2 ^ 23" for d a ptr buf n r buf' d'
  proof -
    obtain pr d1 where i: "(if has_gcode d \<noteq> 1 then gcode_sd_init H d else (True, d)) = (pr, d1)"
      by (metis prod.exhaust)
    have m: "med (hw d1) = med (hw d)"
      using i gcode_sd_init_med [OF ok, of d] by (auto split: if_splits)
    obtain k1 b1 h1 where lp: "gcode_read_loop H (hw d1) a ptr buf 0 n = (k1, b1, h1)" by (metis prod_cases3)
    obtain k2 b2 h2 where fs: "for_sectors (gcode_bounce_read H (gcode_bounce d1)) (hw d1) a buf 0 (unat n) = (k2, b2, h2)"
      by (metis prod_cases3)
    note A = gcode_read_loop_spec [OF ok lp len(2)] and B = bounce.rd_frame [OF ok fs len]
    have C: "b2 = secs (med (hw d1) DEV_GCLDR) (unat a) (unat n)" if "k2" "unat a + unat n \<le> 2 ^ 32"
      using bounce.rd_ok [OF ok _ len that(2)] fs that(1) by simp
    have "(r, buf', d') = (if \<not> pr then (False, buf, d1) else if ptr AND 0x1F = 0
        then (k1, b1, d1\<lparr>hw := h1\<rparr>) else (k2, b2, d1\<lparr>hw := h2\<rparr>))"
      using rd i lp fs by (cases pr; cases "ptr AND 0x1F = 0") (simp_all add: gcode_sd_read_def)
    then show ?thesis using A B C m len by (auto split: if_splits)
  qed
  show "sector_driver (gcode_sd_read H) (\<lambda>d. med (hw d)) DEV_GCLDR (\<lambda>d. gcode_hw_ok H V med)"
    by unfold_locales (use * in blast)+
qed

end
