(* ===== verification/DiskIO.thy ===== *)
theory DiskIO
  imports TsdDrv AtaDrv GcodeDrv
begin

text \<open>
  The disk layer below FatFs (emu/ffs/diskio.c): dispatch of a FatFs drive number to a driver,
  the raw transfers the block cache is built on, and the entry points FatFs calls, which go
  through the cache. \<open>disk_ops\<close> is the pair \<open>disk_read_raw\<close>, \<open>disk_write_raw\<close>; the
  interpretation of \<open>block_device\<close> at the end makes every theorem of the cache a theorem of
  this program on hardware that keeps \<open>plat_ok\<close>.
\<close>

section \<open>Model\<close>

definition DEV_SDA :: u8 where "DEV_SDA = 0"
definition DEV_SDB :: u8 where "DEV_SDB = 1"
definition DEV_SDC :: u8 where "DEV_SDC = 2"
definition DEV_ATAA :: u8 where "DEV_ATAA = 3"
definition DEV_ATAB :: u8 where "DEV_ATAB = 4"
definition DEV_ATAC :: u8 where "DEV_ATAC = 5"

lemmas dev_defs = DEV_SDA_def DEV_SDB_def DEV_SDC_def DEV_ATAA_def DEV_ATAB_def DEV_ATAC_def DEV_GCLDR_def

definition disk_is_sd :: "u8 \<Rightarrow> bool" where
  "disk_is_sd pdrv \<longleftrightarrow> pdrv = DEV_SDA \<or> pdrv = DEV_SDB \<or> pdrv = DEV_SDC"

definition disk_is_ata :: "u8 \<Rightarrow> bool" where
  "disk_is_ata pdrv \<longleftrightarrow> pdrv = DEV_ATAA \<or> pdrv = DEV_ATAB \<or> pdrv = DEV_ATAC"

definition disk_is_gcldr :: "u8 \<Rightarrow> bool" where
  "disk_is_gcldr pdrv \<longleftrightarrow> pdrv = DEV_GCLDR"

text \<open>\<open>exi_port_map\<close> lists three ports; the other entries of the array are zero.\<close>

definition exi_port_map :: "u8 \<Rightarrow> exi_port" where
  "exi_port_map pdrv = (if unat pdrv < 3 then \<lparr>chn = pdrv, dev = 0\<rparr> else \<lparr>chn = 0, dev = 0\<rparr>)"

definition ata_port :: "u8 \<Rightarrow> exi_port" where
  "ata_port pdrv = (if pdrv = DEV_ATAC then \<lparr>chn = 0, dev = 2\<rparr> else \<lparr>chn = pdrv - DEV_ATAA, dev = 0\<rparr>)"

definition STA_NOINIT :: u8 where "STA_NOINIT = 1"

definition disk_status :: "u8 \<Rightarrow> u8" where
  "disk_status pdrv = (if disk_is_sd pdrv then 0 else if disk_is_ata pdrv then 0
     else if disk_is_gcldr pdrv then 0 else STA_NOINIT)"

record 'h disk =
  cache :: dvm
  drv :: "'h plat"

definition disk_initialize :: "'h hwops \<Rightarrow> 'h disk \<Rightarrow> u8 \<Rightarrow> u8 \<times> 'h disk" where
  "disk_initialize H k pdrv =
     (let k = k\<lparr>cache := dvm_cache_invalidate (cache k)\<rparr>;
          sta = (\<lambda>(ok, d). (if ok then 0 else STA_NOINIT, k\<lparr>drv := d\<rparr>))
      in if disk_is_sd pdrv then sta (tsd_sd_init H (drv k) (exi_port_map pdrv))
         else if disk_is_ata pdrv then sta (ata_init H (drv k) (ata_port pdrv))
         else if disk_is_gcldr pdrv then sta (gcode_sd_init H (drv k))
         else (STA_NOINIT, k))"

definition disk_read_raw :: "'h hwops \<Rightarrow> 'h plat \<Rightarrow> u8 \<Rightarrow> u32 \<Rightarrow> sector list \<Rightarrow> lba \<Rightarrow> u32
    \<Rightarrow> dresult \<times> sector list \<times> 'h plat" where
  "disk_read_raw H d pdrv ptr buff sector count =
     (let res = (\<lambda>(ok, b, d). (if ok then RES_OK else RES_ERROR, b, d))
      in if disk_is_sd pdrv then res (tsd_sd_read H (exi_port_map pdrv) d (ucast sector) ptr buff count)
         else if disk_is_ata pdrv then res (ata_read H (ata_port pdrv) d (ucast sector) ptr buff count)
         else if disk_is_gcldr pdrv then res (gcode_sd_read H d (ucast sector) ptr buff count)
         else (RES_PARERR, buff, d))"

definition disk_write_raw :: "'h hwops \<Rightarrow> 'h plat \<Rightarrow> u8 \<Rightarrow> u32 \<Rightarrow> sector list \<Rightarrow> lba \<Rightarrow> u32
    \<Rightarrow> dresult \<times> 'h plat" where
  "disk_write_raw H d pdrv ptr buff sector count =
     (let res = (\<lambda>(ok, d). (if ok then RES_OK else RES_WRPRT, d))
      in if disk_is_sd pdrv then res (tsd_sd_write H (exi_port_map pdrv) d (ucast sector) ptr buff count)
         else if disk_is_ata pdrv then res (ata_write d (ata_port pdrv) (ucast sector) buff count)
         else if disk_is_gcldr pdrv then res (gcode_sd_write d (ucast sector) buff count)
         else (RES_PARERR, d))"

definition disk_ops :: "'h hwops \<Rightarrow> 'h plat blk_ops" where
  "disk_ops H = \<lparr>raw_read = disk_read_raw H, raw_write = disk_write_raw H\<rparr>"

definition disk_read :: "'h hwops \<Rightarrow> 'h disk \<Rightarrow> u8 \<Rightarrow> u32 \<Rightarrow> sector list \<Rightarrow> lba \<Rightarrow> u32
    \<Rightarrow> (dresult \<times> sector list \<times> 'h disk) option" where
  "disk_read H k pdrv ptr buff sector count =
     (if \<not> disk_is_sd pdrv \<and> \<not> disk_is_ata pdrv \<and> \<not> disk_is_gcldr pdrv then Some (RES_PARERR, buff, k)
      else map_option (\<lambda>(r, b, s, d). (r, b, k\<lparr>cache := s, drv := d\<rparr>))
        (dvm_cache_read (disk_ops H) (cache k) (drv k) pdrv ptr buff sector count))"

definition disk_write :: "'h hwops \<Rightarrow> 'h disk \<Rightarrow> u8 \<Rightarrow> u32 \<Rightarrow> sector list \<Rightarrow> lba \<Rightarrow> u32
    \<Rightarrow> (dresult \<times> 'h disk) option" where
  "disk_write H k pdrv ptr buff sector count =
     (if \<not> disk_is_sd pdrv \<and> \<not> disk_is_ata pdrv \<and> \<not> disk_is_gcldr pdrv then Some (RES_PARERR, k)
      else map_option (\<lambda>(r, b, s, d). (r, k\<lparr>cache := s, drv := d\<rparr>))
        (dvm_cache_write (disk_ops H) (cache k) (drv k) pdrv ptr buff sector count))"

text \<open>\<open>disk_ioctl\<close> with the bytes it stores through \<open>buff\<close>.\<close>

definition disk_ioctl :: "u8 \<Rightarrow> u8 \<Rightarrow> bytes \<Rightarrow> dresult \<times> bytes" where
  "disk_ioctl pdrv cmd buff =
     (if disk_is_sd pdrv \<or> disk_is_ata pdrv \<or> disk_is_gcldr pdrv
      then (if cmd = 0 then (RES_OK, buff)
            else if cmd = 1 then (RES_OK, blit buff 0 [0xFF, 0xFF, 0xFF, 0xFF])
            else if cmd = 2 then (RES_OK, blit buff 0 [2, 0])
            else if cmd = 3 then (RES_OK, blit buff 0 [0, 0, 0, 1])
            else (RES_PARERR, buff))
      else (RES_PARERR, buff))"

definition disk_shutdown :: "u8 \<Rightarrow> dresult" where
  "disk_shutdown pdrv = (if disk_is_sd pdrv then RES_OK else if disk_is_ata pdrv then RES_OK
     else if disk_is_gcldr pdrv then RES_OK else RES_PARERR)"

section \<open>The drivers are a block device\<close>

definition plat_ok :: "'h hwops \<Rightarrow> 'h di_view \<Rightarrow> (u8 \<Rightarrow> 'h ata_view) \<Rightarrow> ('h \<Rightarrow> u8 \<Rightarrow> nat \<Rightarrow> sector) \<Rightarrow>
    'h plat \<Rightarrow> bool" where
  "plat_ok H V W med d \<longleftrightarrow>
     (\<forall>p. disk_is_sd p \<longrightarrow> sd_hw_ok H med (exi_port_map p) p) \<and>
     (\<forall>p. disk_is_ata p \<longrightarrow> ata_inv H (W p) med (ata_port p) p d) \<and> gcode_hw_ok H V med"

text \<open>Two drives are never confused: the three groups of drive numbers are disjoint.\<close>

lemma disk_kinds:
  "disk_is_sd p \<Longrightarrow> \<not> disk_is_ata p \<and> \<not> disk_is_gcldr p"
  "disk_is_ata p \<Longrightarrow> \<not> disk_is_gcldr p"
  by (auto simp: disk_is_sd_def disk_is_ata_def disk_is_gcldr_def dev_defs)

lemma unat_sector_cast: "unat (s :: lba) + unat n \<le> 2 ^ 32 \<Longrightarrow> n \<noteq> (0 :: u32) \<Longrightarrow> unat (ucast s :: u32) = unat s"
proof -
  assume "unat s + unat n \<le> 2 ^ 32" "n \<noteq> 0"
  then have "unat s < 2 ^ 32" using unat_gt_0 [of n] by simp
  then show ?thesis by (simp add: unsigned_ucast_eq take_bit_nat_eq_self)
qed

lemma ata_read_keeps:
  assumes "ata_inv H V med port p d" "ata_read H port d a ptr buf m = (k, buf', d')"
  shows "ata_lba48 d' = ata_lba48 d"
proof -
  have "ata_inv H V med port p d' \<and> ata_lba48 d' = ata_lba48 d"
    by (rule for_sectors_keeps [where P = "\<lambda>e. ata_inv H V med port p e \<and> ata_lba48 e = ata_lba48 d",
          OF _ _ assms(2) [unfolded ata_read_def]])
      (use ata_attempts_ok assms(1) in metis)+
  then show ?thesis ..
qed

lemma gcode_init_keeps: "ata_lba48 (snd (gcode_init_loop H n d)) = ata_lba48 d"
  by (induction n arbitrary: d) (auto split: prod.splits inquiry.splits)

lemma gcode_read_keeps:
  "gcode_sd_read H d a ptr buf n = (k, buf', d') \<Longrightarrow> ata_lba48 d' = ata_lba48 d"
  using gcode_init_keeps [of H GCODE_INIT_ATTEMPTS d]
  by (auto simp: gcode_sd_read_def gcode_sd_init_def Let_def split: prod.splits if_splits)

text \<open>A transfer by one driver keeps the contract of all of them.\<close>

lemma plat_ok_frame:
  "plat_ok H V W med d \<Longrightarrow> ata_lba48 d' = ata_lba48 d \<Longrightarrow>
   (\<And>q. disk_is_ata q \<Longrightarrow> med (hw d') q = med (hw d) q) \<Longrightarrow> plat_ok H V W med d'"
  by (simp add: plat_ok_def ata_inv_def)

lemma disk_read_raw_spec:
  assumes ok: "plat_ok H V W med d" and rd: "disk_read_raw H d p ptr buf s n = (r, buf', d')"
    and len: "length buf = unat n" "unat n < 2 ^ 23"
  shows "plat_ok H V W med d' \<and> med (hw d') = med (hw d) \<and> length buf' = length buf \<and>
    (r = RES_OK \<and> unat s + unat n \<le> 2 ^ 32 \<longrightarrow> buf' = secs (med (hw d) p) (unat s) (unat n))"
proof -
  define a where "a = (ucast s :: u32)"
  have cast: "secs f (unat a) (unat n) = secs f (unat s) (unat n)" "unat a + unat n \<le> 2 ^ 32"
    if "unat s + unat n \<le> 2 ^ 32" for f :: "nat \<Rightarrow> sector"
    using unat_sector_cast [OF that] that unat_u32_less [of a] by (cases "n = 0"; simp add: a_def)+
  have main: "plat_ok H V W med d' \<and> med (hw d') = med (hw d) \<and> length buf' = length buf \<and>
      (k \<and> unat a + unat n \<le> 2 ^ 32 \<longrightarrow> buf' = secs (med (hw d) p) (unat a) (unat n))"
    if r: "r = (if k then RES_OK else RES_ERROR)"
      and dd: "disk_is_sd p \<and> tsd_sd_read H (exi_port_map p) d a ptr buf n = (k, buf', d') \<or>
        disk_is_ata p \<and> ata_read H (ata_port p) d a ptr buf n = (k, buf', d') \<or>
        disk_is_gcldr p \<and> gcode_sd_read H d a ptr buf n = (k, buf', d')" for k
    using dd
  proof (elim disjE conjE)
    assume p: "disk_is_sd p" and t: "tsd_sd_read H (exi_port_map p) d a ptr buf n = (k, buf', d')"
    have c: "sd_hw_ok H med (exi_port_map p) p" using ok p by (simp add: plat_ok_def)
    have "dev (exi_port_map p) = EXI_DEVICE_0" by (simp add: exi_port_map_def EXI_DEVICE_0_def)
    with t have f: "for_sectors (tsd_read_one H (exi_port_map p)) d a buf 0 (unat n) = (k, buf', d')"
      by (simp add: tsd_sd_read_def)
    show ?thesis using sd.rd_frame [OF c f len] sd.rd_ok [OF c _ len] f
        plat_ok_frame [OF ok tsd_read_keeps [OF f]] by auto
  next
    assume p: "disk_is_ata p" and t: "ata_read H (ata_port p) d a ptr buf n = (k, buf', d')"
    have c: "ata_inv H (W p) med (ata_port p) p d" using ok p by (simp add: plat_ok_def)
    note f = t [unfolded ata_read_def]
    show ?thesis using ata.rd_frame [OF c f len] ata.rd_ok [OF c _ len] f
        plat_ok_frame [OF ok ata_read_keeps [OF c t]] by auto
  next
    assume p: "disk_is_gcldr p" and t: "gcode_sd_read H d a ptr buf n = (k, buf', d')"
    have c: "gcode_hw_ok H V med" using ok by (simp add: plat_ok_def)
    show ?thesis using gc.rd_frame [OF c t len] gc.rd_ok [OF c _ len] t p
        plat_ok_frame [OF ok gcode_read_keeps [OF t]] by (auto simp: disk_is_gcldr_def)
  qed
  show ?thesis
  proof (cases "disk_is_sd p \<or> disk_is_ata p \<or> disk_is_gcldr p")
    case True
    then obtain k where "r = (if k then RES_OK else RES_ERROR)"
      "disk_is_sd p \<and> tsd_sd_read H (exi_port_map p) d a ptr buf n = (k, buf', d') \<or>
        disk_is_ata p \<and> ata_read H (ata_port p) d a ptr buf n = (k, buf', d') \<or>
        disk_is_gcldr p \<and> gcode_sd_read H d a ptr buf n = (k, buf', d')"
      using rd by (auto simp: disk_read_raw_def Let_def a_def split: prod.splits if_splits)
    then show ?thesis using main [of k] cast by (auto split: if_splits)
  next
    case False
    then show ?thesis using rd ok by (auto simp: disk_read_raw_def)
  qed
qed

lemma disk_write_raw_spec:
  assumes ok: "plat_ok H V W med d" and wr: "disk_write_raw H d p ptr buf s n = (r, d')"
    and len: "length buf = unat n"
  shows "plat_ok H V W med d' \<and>
    (r = RES_OK \<and> unat s + unat n \<le> 2 ^ 32 \<longrightarrow>
       med (hw d') = (med (hw d))(p := overlay (med (hw d) p) (unat s) buf))"
proof (cases "disk_is_sd p")
  case True
  have c: "sd_hw_ok H med (exi_port_map p) p" using ok True by (simp add: plat_ok_def)
  have dv: "dev (exi_port_map p) = EXI_DEVICE_0" by (simp add: exi_port_map_def EXI_DEVICE_0_def)
  obtain k h where w: "tsd_write_loop H (exi_port_map p) (hw d) (ucast s) buf 0 (unat n) = (k, h)"
    by (metis prod.exhaust)
  have e: "r = (if k then RES_OK else RES_WRPRT)" "d' = d\<lparr>hw := h\<rparr>"
    using wr True dv w by (auto simp: disk_write_raw_def tsd_sd_write_def)
  have S: "(\<forall>q. q \<noteq> p \<longrightarrow> med h q = med (hw d) q) \<and> (k \<and> unat (ucast s :: u32) + unat n \<le> 2 ^ 32 \<longrightarrow>
      med h p = overlay (med (hw d) p) (unat (ucast s :: u32)) (sub_list buf 0 (unat n)))"
    using tsd_write_loop_spec [OF c w] len by simp
  have "med h q = med (hw d) q" if "disk_is_ata q" for q
  proof -
    have "q \<noteq> p" using disk_kinds(1) [OF True] that by auto
    then show ?thesis using S by simp
  qed
  then have "plat_ok H V W med d'" using e(2) by (intro plat_ok_frame [OF ok]) auto
  moreover have "med h = (med (hw d))(p := overlay (med (hw d) p) (unat s) buf)"
    if "k" "unat s + unat n \<le> 2 ^ 32"
  proof (cases "n = 0")
    case True
    then show ?thesis using w len by (auto simp: overlay_def)
  next
    case False
    then show ?thesis using S that unat_sector_cast [OF that(2)] len
      by (intro ext) (auto simp: sub_list_def)
  qed
  ultimately show ?thesis using e by (auto split: if_splits)
next
  case False
  then show ?thesis using wr ok
    by (auto simp: disk_write_raw_def ata_write_def gcode_sd_write_def Let_def split: if_splits)
qed

interpretation disk: block_device "disk_ops H" "\<lambda>d. med (hw d)" "plat_ok H V W med"
  for H med V W
proof unfold_locales
  fix d p ptr buf lba n buf' d'
  assume "plat_ok H V W med d" "raw_read (disk_ops H) d p ptr buf lba n = (RES_OK, buf', d')"
    "length buf = unat n" "unat n < 2 ^ 23" "unat lba + unat n \<le> 2 ^ 32"
  then show "buf' = secs (med (hw d) p) (unat lba) (unat n)"
    using disk_read_raw_spec [of H V W med d p ptr buf lba n RES_OK buf' d'] by (simp add: disk_ops_def)
next
  fix d p ptr buf lba n r buf' d'
  assume "plat_ok H V W med d" "raw_read (disk_ops H) d p ptr buf lba n = (r, buf', d')"
    "length buf = unat n" "unat n < 2 ^ 23"
  then show "plat_ok H V W med d' \<and> med (hw d') = med (hw d) \<and> length buf' = length buf"
    using disk_read_raw_spec [of H V W med d p ptr buf lba n r buf' d'] by (simp add: disk_ops_def)
next
  fix d p ptr buf lba n d'
  assume "plat_ok H V W med d" "raw_write (disk_ops H) d p ptr buf lba n = (RES_OK, d')"
    "length buf = unat n" "unat lba + unat n \<le> 2 ^ 32"
  then show "med (hw d') = (med (hw d))(p := overlay (med (hw d) p) (unat lba) buf)"
    using disk_write_raw_spec [of H V W med d p ptr buf lba n RES_OK d'] by (simp add: disk_ops_def)
next
  fix d p ptr buf lba n r d'
  assume "plat_ok H V W med d" "raw_write (disk_ops H) d p ptr buf lba n = (r, d')" "length buf = unat n"
  then show "plat_ok H V W med d'"
    using disk_write_raw_spec [of H V W med d p ptr buf lba n r d'] by (simp add: disk_ops_def)
qed

end
