(* ===== verification/Storage.thy ===== *)
theory Storage
  imports DiskIO
begin

text \<open>
  The storage stack as FatFs sees it. \<open>storage_step\<close> is the interleaving of requests, mounts
  and the hand-over of the cache memory around a game launch; \<open>storage_inv\<close> holds in every
  state such a sequence reaches, and in each of them a read returns what the drive holds.
\<close>

section \<open>Invariant\<close>

definition storage_inv :: "'h hwops \<Rightarrow> 'h di_view \<Rightarrow> (u8 \<Rightarrow> 'h ata_view) \<Rightarrow> ('h \<Rightarrow> u8 \<Rightarrow> nat \<Rightarrow> sector) \<Rightarrow>
    'h disk \<Rightarrow> bool" where
  "storage_inv H V W med k \<longleftrightarrow> plat_ok H V W med (drv k) \<and> sized (cache k) \<and>
     (\<not> dvm_disabled (cache k) \<longrightarrow> dvm_ok (med (hw (drv k))) (cache k))"

definition known_drive :: "u8 \<Rightarrow> bool" where
  "known_drive p \<longleftrightarrow> disk_is_sd p \<or> disk_is_ata p \<or> disk_is_gcldr p"

text \<open>A transfer FatFs may ask for: the buffer fits and the sectors are within 32 bits.\<close>

definition transfer_ok :: "sector list \<Rightarrow> lba \<Rightarrow> u32 \<Rightarrow> bool" where
  "transfer_ok buf sector count \<longleftrightarrow> length buf = unat count \<and> unat count < 2 ^ 23 \<and>
     unat sector + unat count \<le> 2 ^ 32"

lemma dvm_ok_sized: "dvm_ok cnt s \<Longrightarrow> sized s"
  by (simp add: dvm_ok_def)

lemma storage_read:
  assumes inv: "storage_inv H V W med k" and p: "known_drive p" and t: "transfer_ok buf sector count"
  shows "\<exists>r buf' k'. disk_read H k p ptr buf sector count = Some (r, buf', k') \<and>
    storage_inv H V W med k' \<and> med (hw (drv k')) = med (hw (drv k)) \<and>
    (r = RES_OK \<longrightarrow> buf' = secs (med (hw (drv k)) p) (unat sector) (unat count)) \<and>
    (reads_succeed (disk_ops H) p \<longrightarrow> r = RES_OK)"
proof (cases "dvm_disabled (cache k) \<and> count \<noteq> 0")
  case True
  obtain r b d where rd: "disk_read_raw H (drv k) p ptr buf sector count = (r, b, d)" by (metis prod_cases3)
  have ok: "plat_ok H V W med (drv k)" using inv by (simp add: storage_inv_def)
  note S = disk_read_raw_spec [OF ok rd]
  have "disk_read H k p ptr buf sector count = Some (r, b, k\<lparr>drv := d\<rparr>)"
    using True p rd by (auto simp: disk_read_def dvm_cache_read_def disk_ops_def known_drive_def)
  moreover have "reads_succeed (disk_ops H) p \<Longrightarrow> r = RES_OK"
    using rd unfolding reads_succeed_def disk_ops_def by (metis fst_conv blk_ops.select_convs(1))
  ultimately show ?thesis using S t inv True by (auto simp: storage_inv_def transfer_ok_def)
next
  case False
  show ?thesis
  proof (cases "count = 0")
    case True
    then show ?thesis using inv p t
      by (auto simp: disk_read_def dvm_cache_read_def known_drive_def transfer_ok_def)
  next
    case c: False
    then have en: "\<not> dvm_disabled (cache k)" using False by simp
    obtain r b s d where rd: "dvm_cache_read (disk_ops H) (cache k) (drv k) p ptr buf sector count = Some (r, b, s, d)"
      and S: "dvm_ok (med (hw d)) s" "plat_ok H V W med d" "med (hw d) = med (hw (drv k))"
        "r = RES_OK \<longrightarrow> b = secs (med (hw (drv k)) p) (unat sector) (unat count)"
        "reads_succeed (disk_ops H) p \<longrightarrow> r = RES_OK"
      using disk.cached_read [of med "drv k" "cache k" H V W buf count sector p ptr] inv t en
      by (auto simp: storage_inv_def transfer_ok_def)
    have "disk_read H k p ptr buf sector count = Some (r, b, k\<lparr>cache := s, drv := d\<rparr>)"
      using p rd by (auto simp: disk_read_def known_drive_def)
    then show ?thesis using S dvm_ok_sized [of "med (hw d)" s] by (auto simp: storage_inv_def)
  qed
qed

lemma storage_write:
  assumes inv: "storage_inv H V W med k" and p: "known_drive p" and t: "transfer_ok buf sector count"
  shows "\<exists>r k'. disk_write H k p ptr buf sector count = Some (r, k') \<and>
    (r = RES_OK \<longrightarrow> storage_inv H V W med k' \<and>
       med (hw (drv k')) = (med (hw (drv k)))(p := overlay (med (hw (drv k)) p) (unat sector) buf))"
proof (cases "dvm_disabled (cache k) \<and> count \<noteq> 0")
  case True
  obtain r d where wr: "disk_write_raw H (drv k) p ptr buf sector count = (r, d)" by (metis prod.exhaust)
  have ok: "plat_ok H V W med (drv k)" using inv by (simp add: storage_inv_def)
  have "disk_write H k p ptr buf sector count = Some (r, k\<lparr>drv := d\<rparr>)"
    using True p wr by (auto simp: disk_write_def dvm_cache_write_def disk_ops_def known_drive_def)
  then show ?thesis using disk_write_raw_spec [OF ok wr] t inv True
    by (auto simp: storage_inv_def transfer_ok_def)
next
  case False
  show ?thesis
  proof (cases "count = 0")
    case True
    then show ?thesis using inv p t
      by (auto simp: disk_write_def dvm_cache_write_def known_drive_def transfer_ok_def)
  next
    case c: False
    then have en: "\<not> dvm_disabled (cache k)" using False by simp
    obtain r s d where wr: "dvm_cache_write (disk_ops H) (cache k) (drv k) p ptr buf sector count = Some (r, buf, s, d)"
      and S: "plat_ok H V W med d" "r = RES_OK \<longrightarrow> dvm_ok (med (hw d)) s \<and>
        med (hw d) = (med (hw (drv k)))(p := overlay (med (hw (drv k)) p) (unat sector) buf)"
      using disk.cached_write [of med "drv k" "cache k" H V W buf count sector p ptr] inv t en
      by (auto simp: storage_inv_def transfer_ok_def)
    have "disk_write H k p ptr buf sector count = Some (r, k\<lparr>cache := s, drv := d\<rparr>)"
      using p wr by (auto simp: disk_write_def known_drive_def)
    then show ?thesis using S dvm_ok_sized [of "med (hw d)" s] by (auto simp: storage_inv_def)
  qed
qed

section \<open>Sequences of requests\<close>

text \<open>
  Besides requests: \<open>disk_initialize\<close> of a card slot or of the GC Loader, and around a game
  launch \<open>dvm_cache_disable\<close>, any overwriting of the memory that holds the pages, the list
  and the sentinel while the cache is disabled, and \<open>dvm_cache_enable\<close>.
\<close>

inductive storage_step :: "'h hwops \<Rightarrow> 'h disk \<Rightarrow> 'h disk \<Rightarrow> bool" for H where
  st_read: "\<lbrakk>known_drive p; transfer_ok buf s n; disk_read H k p ptr buf s n = Some (r, b, k')\<rbrakk> \<Longrightarrow>
    storage_step H k k'"
| st_write: "\<lbrakk>known_drive p; transfer_ok buf s n; disk_write H k p ptr buf s n = Some (RES_OK, k')\<rbrakk> \<Longrightarrow>
    storage_step H k k'"
| st_init: "\<lbrakk>\<not> disk_is_ata p; disk_initialize H k p = (r, k')\<rbrakk> \<Longrightarrow> storage_step H k k'"
| st_disable: "storage_step H k (k\<lparr>cache := dvm_cache_disable (cache k)\<rparr>)"
| st_wipe: "\<lbrakk>dvm_disabled (cache k); sized s; dvm_disabled s; dvm_ready s = dvm_ready (cache k)\<rbrakk> \<Longrightarrow>
    storage_step H k (k\<lparr>cache := s\<rparr>)"
| st_enable: "storage_step H k (k\<lparr>cache := dvm_cache_enable (cache k)\<rparr>)"

lemma sized_reset [simp]: "sized (dvm_cache_reset s) = sized s"
  by (simp add: sized_def dvm_cache_reset_def Let_def)

lemma reset_ok: "sized s \<Longrightarrow> dvm_ok cnt (dvm_cache_reset s)"
  using pages_reset [of s] by (auto simp: dvm_ok_def)

lemma disk_initialize_inv:
  assumes inv: "storage_inv H V W med k" and na: "\<not> disk_is_ata p" and i: "disk_initialize H k p = (r, k')"
  shows "storage_inv H V W med k'"
proof -
  have ok: "plat_ok H V W med (drv k)" and sz: "sized (cache k)" using inv by (simp_all add: storage_inv_def)
  have k': "cache k' = dvm_cache_reset (cache k)" "drv k' = drv k \<or>
      disk_is_sd p \<and> drv k' = snd (tsd_sd_init H (drv k) (exi_port_map p)) \<or>
      drv k' = snd (gcode_sd_init H (drv k))"
    using i na by (auto simp: disk_initialize_def dvm_cache_invalidate_def Let_def split: prod.splits if_splits)
  have sd: "plat_ok H V W med (snd (tsd_sd_init H (drv k) (exi_port_map p)))" if p: "disk_is_sd p"
  proof (rule plat_ok_frame [OF ok])
    have c: "sd_hw_ok H med (exi_port_map p) p" using ok p by (simp add: plat_ok_def)
    show "ata_lba48 (snd (tsd_sd_init H (drv k) (exi_port_map p))) = ata_lba48 (drv k)"
      by (simp add: tsd_sd_init_def Let_def split: prod.splits)
    show "med (hw (snd (tsd_sd_init H (drv k) (exi_port_map p)))) q = med (hw (drv k)) q" if "disk_is_ata q" for q
    proof -
      have "q \<noteq> p" using disk_kinds(1) [OF p] that by auto
      then show ?thesis using sd_hwD(3,4) [OF c]
        by (auto simp: tsd_sd_init_def Let_def split: prod.splits)
    qed
  qed
  have gc: "plat_ok H V W med (snd (gcode_sd_init H (drv k)))"
    using gcode_sd_init_med [of H V med "drv k"] gcode_init_keeps [of H GCODE_INIT_ATTEMPTS "drv k"] ok
    by (intro plat_ok_frame [OF ok]) (auto simp: plat_ok_def gcode_sd_init_def)
  have "plat_ok H V W med (drv k')" using k'(2) sd gc ok by auto
  then show ?thesis using k'(1) sz reset_ok by (simp add: storage_inv_def)
qed

lemma storage_step_inv:
  "storage_step H k k' \<Longrightarrow> storage_inv H V W med k \<Longrightarrow> storage_inv H V W med k'"
proof (induction rule: storage_step.induct)
  case (st_read p buf s n k ptr r b k')
  then show ?case using storage_read [of H V W med k p buf s n ptr] by auto
next
  case (st_write p buf s n k ptr k')
  then show ?case using storage_write [of H V W med k p buf s n ptr] by auto
next
  case (st_init p k r k')
  then show ?case using disk_initialize_inv by blast
qed (auto simp: storage_inv_def dvm_cache_disable_def dvm_cache_enable_def sized_def dvm_ok_def)

lemma storage_reachable_inv:
  "(storage_step H)\<^sup>*\<^sup>* k k' \<Longrightarrow> storage_inv H V W med k \<Longrightarrow> storage_inv H V W med k'"
  by (induction rule: rtranclp_induct) (auto intro: storage_step_inv)

end
