(* ===== verification/StorageProps.thy ===== *)
theory StorageProps
  imports Storage
begin

text \<open>
  The properties of the storage stack, and a small simulated console on which their
  hypotheses hold: a GC Loader, a card in slot A, and a write-protected card in slot B. Sectors
  of the GC Loader and of the card in slot B hold their own number; the card in slot A starts
  empty and can be written.
\<close>

section \<open>A simulated console\<close>

record sim =
  sim_reg :: "nat \<Rightarrow> u32"
  sim_card :: "nat \<Rightarrow> sector"

definition sim_gc :: "nat \<Rightarrow> sector" where
  "sim_gc k = replicate 512 (of_nat k)"

definition sim_med :: "sim \<Rightarrow> u8 \<Rightarrow> nat \<Rightarrow> sector" where
  "sim_med h p = (if p = DEV_GCLDR then sim_gc else if p = DEV_SDA then sim_card h
     else if p = DEV_SDB then (\<lambda>k. [of_nat k]) else (\<lambda>_. []))"

definition sim_ram :: "sim \<Rightarrow> u32 \<Rightarrow> nat \<Rightarrow> bytes" where
  "sim_ram h a n =
     (if sim_reg h 2 = DVD_OEM_INQUIRY then [0, 0, 0, 0, 0x20, 0x19, 0x6c, 0x64] @ replicate 24 0
      else concat (secs sim_gc (unat (sim_reg h 3)) (n div 512)))"

definition sim_hw :: "sim hwops" where
  "sim_hw = \<lparr>di_load = \<lambda>h i. (0, h), di_store = \<lambda>h i v. h\<lparr>sim_reg := (sim_reg h)(i := v)\<rparr>,
     ram_load = sim_ram, ram_store = \<lambda>h a b. h, DCInvalidateRange = \<lambda>h a n. h, DCFlushRange = \<lambda>h a n. h,
     settle_ms = \<lambda>h n. h, EXILock = \<lambda>h c d. (False, h), EXIUnlock = \<lambda>h c. h,
     EXISelect = \<lambda>h c d f. (False, h), EXIDeselect = \<lambda>h c. h, EXIImmEx = \<lambda>h c x n m. (0, h),
     EXI_DmaEx = \<lambda>h c b m. (b, h), sdgecko_initIODefault = \<lambda>h. h,
     sdgecko_initIO = \<lambda>h c. (c < 2, h),
     sdgecko_readSector = \<lambda>h c s a. (if c = 0 then (True, sim_card h (unat a), h)
       else if c = 1 then (True, [of_nat (unat a)], h) else (False, s, h)),
     sdgecko_writeSector = \<lambda>h c s a.
       (if c = 0 then (True, h\<lparr>sim_card := (sim_card h)(unat a := s)\<rparr>) else (False, h))\<rparr>"

definition sim_di :: "sim di_view" where
  "sim_di = \<lparr>di_reg = sim_reg, di_xfer = \<lambda>h. map (sim_reg h) [2, 3, 4, 5, 6], di_done = \<lambda>h. True\<rparr>"

definition sim_ata :: "u8 \<Rightarrow> sim ata_view" where
  "sim_ata p = \<lparr>exi_sel = \<lambda>h. False, exi_rdreg = \<lambda>h. 0, exi_burst = \<lambda>h. False, tf_log = \<lambda>h. [],
     ata_drq = \<lambda>h. False, ata_noerr = \<lambda>h. False\<rparr>"

text \<open>The state at power-on: nothing probed, a cache of two pages whose memory is not set up.\<close>

definition sim_boot :: "sim disk" where
  "sim_boot = \<lparr>cache = \<lparr>dvm_magic = 0, dvm_cache_data = replicate 2 (replicate 4 []), dvm_data_addr = 0x81000000,
       dvm_entries = replicate 2 \<lparr>e_next = None, e_prev = None, base_sector = 0\<rparr>,
       list_next = None, list_prev = None, dvm_owner_pdrv = 0, dvm_ready = False, dvm_disabled = False\<rparr>,
     drv = \<lparr>hw = \<lparr>sim_reg = \<lambda>_. 0, sim_card = \<lambda>_. []\<rparr>, has_gcode = -1, gcode_info = 0x81100000,
       gcode_bounce = 0x81100020, ata_lba48 = [False, False, False], ata_buf = [], sd_initialized = False\<rparr>\<rparr>"

lemma sim_sd_ok: "disk_is_sd p \<Longrightarrow> sd_hw_ok sim_hw sim_med (exi_port_map p) p"
  by (auto simp: sd_hw_ok_def sim_hw_def sim_med_def disk_is_sd_def dev_defs exi_port_map_def fun_eq_iff)

lemma sim_ata_ok: "disk_is_ata p \<Longrightarrow> ata_inv sim_hw (sim_ata p) sim_med (ata_port p) p (drv sim_boot)"
  by (auto simp: ata_inv_def ata_hw_ok_def sim_hw_def sim_med_def sim_ata_def quiet_def disk_is_ata_def
      dev_defs ata_select_def)

lemma sim_gc_ok: "gcode_hw_ok sim_hw sim_di sim_med"
  by (auto simp: gcode_hw_ok_def sim_hw_def sim_med_def sim_di_def sim_ram_def sim_gc_def di_reg_defs
      DVD_OEM_INQUIRY_def DVD_GCODE_READ_def)

lemma sim_storage_inv: "storage_inv sim_hw sim_di sim_ata sim_med sim_boot"
proof -
  have "plat_ok sim_hw sim_di sim_ata sim_med (drv sim_boot)"
    using sim_sd_ok sim_ata_ok sim_gc_ok by (simp add: plat_ok_def)
  moreover have "sized (cache sim_boot)" by (simp add: sized_def sim_boot_def)
  ultimately show ?thesis by (simp add: storage_inv_def dvm_ok_def) (simp add: sim_boot_def DVM_MAGIC_def)
qed

section \<open>Properties\<close>


text \<open>
  C2. A successful \<open>disk_write\<close> reaches the drive and is what later reads see: the drive
  changes in exactly the written sectors, and a successful read of any range that follows
  returns the drive's new contents, also when its pages were in the cache before the write.
\<close>

theorem write_then_read:
  assumes "storage_inv H V W med k" "known_drive p" "transfer_ok buf sector count"
    "disk_write H k p ptr buf sector count = Some (RES_OK, k')" "transfer_ok buf2 sector2 count2"
  shows "med (hw (drv k')) = (med (hw (drv k)))(p := overlay (med (hw (drv k)) p) (unat sector) buf) \<and>
    (\<exists>r b k''. disk_read H k' p ptr2 buf2 sector2 count2 = Some (r, b, k'') \<and>
      (r = RES_OK \<longrightarrow> b = secs (overlay (med (hw (drv k)) p) (unat sector) buf) (unat sector2) (unat count2)))"
proof -
  have w: "storage_inv H V W med k'"
    "med (hw (drv k')) = (med (hw (drv k)))(p := overlay (med (hw (drv k)) p) (unat sector) buf)"
    using storage_write [OF assms(1,2,3), of ptr] assms(4) by auto
  show ?thesis using storage_read [OF w(1) assms(2,5), of ptr2] w(2) by auto
qed

text \<open>A run on the write-protected card: read, refused write, read again.\<close>

definition refused_write_run :: "(dresult \<times> sector list \<times> dresult \<times> dresult \<times> sector list) option" where
  "refused_write_run = do {
     (r1, b1, k1) \<leftarrow> disk_read sim_hw sim_boot DEV_SDB 1 [[], []] 5 2;
     (r2, k2) \<leftarrow> disk_write sim_hw k1 DEV_SDB 1 [[9]] 5 1;
     (r3, b3, k3) \<leftarrow> disk_read sim_hw k2 DEV_SDB 1 [[]] 5 1;
     Some (r1, b1, r2, r3, b3)
   }"


section \<open>Witnesses\<close>

lemma sim_known [simp]: "known_drive DEV_SDA" "known_drive DEV_SDB" "known_drive DEV_GCLDR"
  by (simp_all add: known_drive_def disk_is_sd_def disk_is_gcldr_def)


text \<open>A write to the card in slot A succeeds, so the hypotheses of the write property hold there.\<close>

lemma sim_write_ok:
  "\<exists>k'. disk_write sim_hw sim_boot DEV_SDA 1 [[7], [8]] 3 2 = Some (RES_OK, k')"
proof -
  have "map_option fst (disk_write sim_hw sim_boot DEV_SDA 1 [[7], [8]] 3 2) = Some RES_OK" by code_simp
  then show ?thesis by auto
qed

theorem write_then_read_witness:
  "\<exists>k'. disk_write sim_hw sim_boot DEV_SDA 1 [[7], [8]] 3 2 = Some (RES_OK, k') \<and>
     sim_med (hw (drv k')) DEV_SDA 4 = [8] \<and>
     (\<exists>r b k''. disk_read sim_hw k' DEV_SDA 1 [[], [], []] 3 3 = Some (r, b, k'') \<and>
        (r = RES_OK \<longrightarrow> b = [[7], [8], []]))"
proof -
  obtain k' where k: "disk_write sim_hw sim_boot DEV_SDA 1 [[7], [8]] 3 2 = Some (RES_OK, k')"
    using sim_write_ok by blast
  have m: "sim_med (hw (drv sim_boot)) DEV_SDA = (\<lambda>_. [])"
    by (simp add: sim_med_def sim_boot_def dev_defs)
  have o: "secs (overlay (\<lambda>_. []) 3 [[7], [8]]) 3 3 = [[7], [8], [] :: sector]" by code_simp
  have "transfer_ok [[7], [8]] 3 2" "transfer_ok [[], [], []] 3 3" by (simp_all add: transfer_ok_def)
  note w = write_then_read [OF sim_storage_inv sim_known(1) this(1) k this(2), of 1, unfolded m]
  then have "sim_med (hw (drv k')) DEV_SDA 4 = [8]" by (simp add: overlay_def)
  then show ?thesis using w k o by (intro exI [of _ k']) simp
qed

end
