(* ===== verification/Fdrv.thy ===== *)
theory Fdrv
  imports Hardware "HOL-Library.Monad_Syntax"
begin

text \<open>
  The FlippyDrive on the disc interface: the commands of cubeboot's flippy_sync.c and the native
  backend emu/fdrv.c, with its probe. The DI registers and RAM are the parameters of
  \<open>Hardware\<close>. A wait without a bound may never end: such a command is \<open>None\<close>, and every other
  result is \<open>Some\<close>. The theorems at the end say when the probe answers what, and that the
  answer it keeps is one the drive gave.
\<close>

section \<open>Waiting and issuing commands\<close>

partial_function (option) di_wait :: "'h hwops \<Rightarrow> 'h \<Rightarrow> 'h option" where
  "di_wait H h =
     (let (cr, h') = di_load H h DI_CR
      in if cr AND DI_CR_TSTART \<noteq> 0 then di_wait H h' else Some h')"

declare di_wait.simps [code]

definition di_error :: "'h hwops \<Rightarrow> 'h \<Rightarrow> int \<times> 'h" where
  "di_error H h = (let (sr, h) = di_load H h DI_SR in (if sr AND DI_SR_DEINT \<noteq> 0 then 1 else 0, h))"

definition fdrv_wait :: "'h hwops \<Rightarrow> 'h \<Rightarrow> (int \<times> 'h) option" where
  "fdrv_wait H h = do { h \<leftarrow> di_wait H h; Some (di_error H h) }"

definition fdrv_wait_bounded :: "'h hwops \<Rightarrow> 'h \<Rightarrow> int \<times> 'h" where
  "fdrv_wait_bounded H h =
     (let (timeout, h) = di_poll H h 1000000 in if timeout = 0 then (1, h) else di_error H h)"

definition fdrv_cmd :: "'h hwops \<Rightarrow> 'h \<Rightarrow> u32 \<Rightarrow> u32 \<Rightarrow> u32 \<Rightarrow> bool \<Rightarrow> (int \<times> 'h) option" where
  "fdrv_cmd H h cmd arg0 arg1 bounded =
     (let h = di_store H (di_setup H (di_prepare H h) cmd arg0 arg1 0 0) DI_CR DI_CR_TSTART
      in if bounded then Some (fdrv_wait_bounded H h) else fdrv_wait H h)"

definition fdrv_dma :: "'h hwops \<Rightarrow> 'h \<Rightarrow> u32 \<Rightarrow> u32 \<Rightarrow> u32 \<Rightarrow> u32 \<Rightarrow> u32 \<Rightarrow> bool \<Rightarrow> (int \<times> 'h) option" where
  "fdrv_dma H h cmd arg0 arg1 buf len to_drive = do {
     let h = di_prepare H h;
     let h = di_store H (di_store H (di_store H h DI_CMDBUF0 cmd) DI_CMDBUF1 arg0) DI_CMDBUF2 arg1;
     let h = (if to_drive then DCFlushRange H h buf len else DCInvalidateRange H h buf len);
     let h = di_store H (di_store H h DI_MAR (phys buf)) DI_LENGTH len;
     let h = di_store H h DI_CR (if to_drive then DI_CR_RW OR DI_CR_DMA OR DI_CR_TSTART
                                 else DI_CR_DMA OR DI_CR_TSTART);
     (ret, h) \<leftarrow> fdrv_wait H h;
     let h = (if to_drive then h else DCInvalidateRange H h buf len);
     Some (ret, h)
   }"

section \<open>Commands of flippy_sync.c\<close>

definition DVD_FLIPPY_BOOTLOADER_STATUS :: u32 where "DVD_FLIPPY_BOOTLOADER_STATUS = 0xB4000000"
definition DVD_OEM_READ :: u32 where "DVD_OEM_READ = 0xA8000000"
definition DVD_FLIPPY_FILEAPI_BASE :: u32 where "DVD_FLIPPY_FILEAPI_BASE = 0xB5000000"
definition DVD_FLIPPY_BYPASS :: u32 where "DVD_FLIPPY_BYPASS = 0xDC000000"

text \<open>A read by DMA as flippy_sync.c issues it: no invalidate before the transfer.\<close>

definition di_read_cmd :: "'h hwops \<Rightarrow> 'h \<Rightarrow> u32 \<Rightarrow> u32 \<Rightarrow> u32 \<Rightarrow> u32 \<Rightarrow> u32 \<Rightarrow> 'h option" where
  "di_read_cmd H h c0 c1 c2 buf len = do {
     let h = di_setup H (di_prepare H h) c0 c1 c2 (phys buf) len;
     h \<leftarrow> di_wait H (di_store H h DI_CR (DI_CR_DMA OR DI_CR_TSTART));
     Some (DCInvalidateRange H h buf len)
   }"

definition dvd_inquiry :: "'h hwops \<Rightarrow> u32 \<Rightarrow> 'h \<Rightarrow> (bytes \<times> 'h) option" where
  "dvd_inquiry H info h = do {
     h \<leftarrow> di_read_cmd H h DVD_OEM_INQUIRY 0 0 info 32;
     Some (ram_load H h info 32, h)
   }"

definition dvd_bootloader_status :: "'h hwops \<Rightarrow> u32 \<Rightarrow> 'h \<Rightarrow> (int \<times> 'h) option" where
  "dvd_bootloader_status H dst h = do {
     h \<leftarrow> di_read_cmd H h DVD_FLIPPY_BOOTLOADER_STATUS 0 0 dst 256;
     let h = ram_store H h (dst + 71) [0];
     let h = ram_store H h (dst + 135) [0];
     Some (di_error H h)
   }"

definition di_knock :: "'h hwops \<Rightarrow> u32 \<Rightarrow> u32 \<Rightarrow> u32 \<Rightarrow> 'h \<Rightarrow> 'h option" where
  "di_knock H c0 c1 c2 h = di_wait H (di_store H (di_setup H (di_prepare H h) c0 c1 c2 0 0) DI_CR DI_CR_TSTART)"

definition dvd_bootloader_boot :: "'h hwops \<Rightarrow> 'h \<Rightarrow> 'h option" where
  "dvd_bootloader_boot H = di_knock H DVD_OEM_INQUIRY 0xabadbeef 0xcafe6969"

definition dvd_bootloader_update :: "'h hwops \<Rightarrow> 'h \<Rightarrow> 'h option" where
  "dvd_bootloader_update H = di_knock H DVD_OEM_INQUIRY 0xabadbeef 0xdabfed69"

definition dvd_bootloader_noupdate :: "'h hwops \<Rightarrow> 'h \<Rightarrow> 'h option" where
  "dvd_bootloader_noupdate H = di_knock H DVD_OEM_INQUIRY 0xabadbeef 0xdecaf420"

definition fd_bits :: "u32 \<Rightarrow> u32" where
  "fd_bits fd = push_bit 16 (fd AND 0xFF)"

definition normal_dvd_read :: "'h hwops \<Rightarrow> 'h \<Rightarrow> u32 \<Rightarrow> u32 \<Rightarrow> u64 \<Rightarrow> u32 \<Rightarrow> (int \<times> 'h) option" where
  "normal_dvd_read H h dst len offset fd =
     (if drop_bit 2 offset > 0xFFFFFFFF then Some (-1, h)
      else do {
        h \<leftarrow> di_read_cmd H h (DVD_OEM_READ OR fd_bits fd) (ucast (drop_bit 2 offset)) len dst len;
        Some (di_error H h)
      })"

section \<open>The probe\<close>

definition FLIPPY_REL_DATE_BOOTLOADER :: u32 where "FLIPPY_REL_DATE_BOOTLOADER = 0x20220420"
definition FLIPPY_REL_DATE_FIRMWARE :: u32 where "FLIPPY_REL_DATE_FIRMWARE = 0x20220426"
definition FD_BYPASS_EXIT_MAGIC0 :: u32 where "FD_BYPASS_EXIT_MAGIC0 = 0xE3F72BAB"
definition FD_BYPASS_EXIT_MAGIC1 :: u32 where "FD_BYPASS_EXIT_MAGIC1 = 0x72648977"
definition FLIPPY_BOOT_MAGIC0 :: u32 where "FLIPPY_BOOT_MAGIC0 = 0xabadbeef"
definition FLIPPY_BOOT_MAGIC1 :: u32 where "FLIPPY_BOOT_MAGIC1 = 0xcafe6969"
definition FLIPPY_NOUPDATE_MAGIC1 :: u32 where "FLIPPY_NOUPDATE_MAGIC1 = 0xdecaf420"
definition FDRV_BOOT_ATTEMPTS :: nat where "FDRV_BOOT_ATTEMPTS = 60"
definition FDRV_BOOT_SETTLE_MS :: nat where "FDRV_BOOT_SETTLE_MS = 10"

definition stock_rel_dates :: "u32 list" where
  "stock_rel_dates = [0x20010608, 0x20010831, 0x20020402, 0x20020823]"

definition is_stock_rel_date :: "u32 \<Rightarrow> bool" where
  "is_stock_rel_date rel_date \<longleftrightarrow> rel_date \<in> set stock_rel_dates"

text \<open>The statics of fdrv.c; \<open>f_info\<close> is the address of \<open>probe_info\<close>, the version is kept as bytes.\<close>

record 'h fdrv =
  f_hw :: 'h
  f_info :: u32
  has_fdrv :: int
  fdrv_fw_ver :: bytes

definition fdrv_inquiry :: "'h hwops \<Rightarrow> u32 \<Rightarrow> 'h \<Rightarrow> int \<times> 'h" where
  "fdrv_inquiry H info h =
     (let h = ram_store H h info (replicate 32 0);
          h = DCFlushRange H h info 32;
          h = di_setup H (di_prepare H h) DVD_OEM_INQUIRY 0 0 (phys info) 32;
          h = di_store H h DI_CR (DI_CR_DMA OR DI_CR_TSTART);
          (ret, h) = fdrv_wait_bounded H h
      in (ret, DCInvalidateRange H h info 32))"

definition rel_date :: "'h hwops \<Rightarrow> u32 \<Rightarrow> 'h \<Rightarrow> u32" where
  "rel_date H info h = be32 (ram_load H h info 32) 4"

definition fdrv_cmd_bounded :: "'h hwops \<Rightarrow> 'h \<Rightarrow> u32 \<Rightarrow> u32 \<Rightarrow> u32 \<Rightarrow> 'h" where
  "fdrv_cmd_bounded H h cmd a0 a1 = snd (the (fdrv_cmd H h cmd a0 a1 True))"

text \<open>Waiting for the firmware: whether it came up within the remaining attempts.\<close>

primrec fdrv_boot_loop :: "'h hwops \<Rightarrow> u32 \<Rightarrow> nat \<Rightarrow> 'h \<Rightarrow> bool \<times> 'h" where
  "fdrv_boot_loop H info 0 h = (False, h)"
| "fdrv_boot_loop H info (Suc n) h =
     (let (ret, h) = fdrv_inquiry H info h
      in if ret = 0 \<and> rel_date H info h = FLIPPY_REL_DATE_FIRMWARE then (True, h)
         else fdrv_boot_loop H info n (settle_ms H h FDRV_BOOT_SETTLE_MS))"

text \<open>The end of \<open>fdrv_probe\<close>: what the last answer means.\<close>

definition fdrv_conclude :: "'h hwops \<Rightarrow> 'h fdrv \<Rightarrow> bool \<times> 'h fdrv" where
  "fdrv_conclude H f =
     (let date = rel_date H (f_info f) (f_hw f)
      in if date = FLIPPY_REL_DATE_FIRMWARE
         then (True, f\<lparr>fdrv_fw_ver := sub_list (ram_load H (f_hw f) (f_info f) 32) 12 4, has_fdrv := 1\<rparr>)
         else if is_stock_rel_date date then (False, f\<lparr>has_fdrv := 0\<rparr>)
         else (False, f))"

definition fdrv_bootloader :: "'h hwops \<Rightarrow> 'h fdrv \<Rightarrow> bool \<times> 'h fdrv" where
  "fdrv_bootloader H f =
     (if rel_date H (f_info f) (f_hw f) = FLIPPY_REL_DATE_BOOTLOADER
      then (let h = fdrv_cmd_bounded H (f_hw f) DVD_OEM_INQUIRY FLIPPY_BOOT_MAGIC0 FLIPPY_BOOT_MAGIC1;
                h = fdrv_cmd_bounded H h DVD_OEM_INQUIRY FLIPPY_BOOT_MAGIC0 FLIPPY_NOUPDATE_MAGIC1;
                (up, h) = fdrv_boot_loop H (f_info f) FDRV_BOOT_ATTEMPTS h
            in if \<not> up then (False, f\<lparr>f_hw := h\<rparr>) else fdrv_conclude H (f\<lparr>f_hw := h\<rparr>))
      else fdrv_conclude H f)"

definition fdrv_probe :: "'h hwops \<Rightarrow> 'h fdrv \<Rightarrow> bool \<times> 'h fdrv" where
  "fdrv_probe H f =
     (if has_fdrv f \<ge> 0 then (has_fdrv f = 1, f)
      else (let (ret, h) = fdrv_inquiry H (f_info f) (f_hw f); f = f\<lparr>f_hw := h\<rparr>; date = rel_date H (f_info f) h
            in if ret \<noteq> 0 then (False, f)
               else if date = GCODE_REL_DATE then (False, f\<lparr>has_fdrv := 0\<rparr>)
               else if is_stock_rel_date date
               then (let h = fdrv_cmd_bounded H h DVD_FLIPPY_BYPASS FD_BYPASS_EXIT_MAGIC0 FD_BYPASS_EXIT_MAGIC1;
                         (ret, h) = fdrv_inquiry H (f_info f) h; f = f\<lparr>f_hw := h\<rparr>
                     in if ret \<noteq> 0 then (False, f) else fdrv_bootloader H f)
               else fdrv_bootloader H f))"

definition fdrv_present :: "'h fdrv \<Rightarrow> bool" where
  "fdrv_present f \<longleftrightarrow> has_fdrv f = 1"

definition fdrv_version :: "'h fdrv \<Rightarrow> bytes option" where
  "fdrv_version f = (if has_fdrv f = 1 then Some (fdrv_fw_ver f) else None)"

section \<open>File commands\<close>

definition IPC_READ_STATUS :: u32 where "IPC_READ_STATUS = 0x00"
definition IPC_SET_DEFAULT_FD :: u32 where "IPC_SET_DEFAULT_FD = 0x01"
definition IPC_FS_INFO :: u32 where "IPC_FS_INFO = 0x06"
definition IPC_FILE_MKDIR :: u32 where "IPC_FILE_MKDIR = 0x07"
definition IPC_FILE_WRITE :: u32 where "IPC_FILE_WRITE = 0x09"
definition IPC_FILE_OPEN :: u32 where "IPC_FILE_OPEN = 0x0A"
definition IPC_FILE_CLOSE :: u32 where "IPC_FILE_CLOSE = 0x0B"
definition IPC_FILE_UNLINK :: u32 where "IPC_FILE_UNLINK = 0x0E"
definition IPC_FILE_READDIR :: u32 where "IPC_FILE_READDIR = 0x0F"
definition IPC_FILE_OPEN_FLASH :: u32 where "IPC_FILE_OPEN_FLASH = 0x11"
definition IPC_FILE_UNLINK_FLASH :: u32 where "IPC_FILE_UNLINK_FLASH = 0x12"
definition IPC_NET_PRESENCE :: u32 where "IPC_NET_PRESENCE = 0x14"

text \<open>\<open>strncpy (dst, src, n)\<close> into a field of \<open>n\<close> bytes; \<open>src\<close> is a string without its terminator.\<close>

definition strncpy :: "bytes \<Rightarrow> nat \<Rightarrow> bytes" where
  "strncpy src n = take n src @ replicate (n - length src) 0"

text \<open>A \<open>file_entry_t\<close> filled from zero: 256 bytes of name, type, flags, 30 bytes that stay zero.\<close>

definition file_entry :: "bytes \<Rightarrow> u8 \<Rightarrow> u8 \<Rightarrow> bytes" where
  "file_entry path typ flags = strncpy path 255 @ [0] @ [typ, flags] @ replicate 30 0"

definition FILE_ENTRY_SIZE :: u32 where "FILE_ENTRY_SIZE = 288"

definition fdrv_open_common :: "'h hwops \<Rightarrow> u32 \<Rightarrow> 'h \<Rightarrow> u32 \<Rightarrow> bytes \<Rightarrow> u8 \<Rightarrow> u8 \<Rightarrow> (int \<times> 'h) option" where
  "fdrv_open_common H entry h ipc_cmd path typ flags =
     fdrv_dma H (ram_store H h entry (file_entry path typ flags)) (DVD_FLIPPY_FILEAPI_BASE OR ipc_cmd) 0 0
       entry FILE_ENTRY_SIZE True"

definition fdrv_open :: "'h hwops \<Rightarrow> u32 \<Rightarrow> 'h \<Rightarrow> bytes \<Rightarrow> u8 \<Rightarrow> u8 \<Rightarrow> (int \<times> 'h) option" where
  "fdrv_open H entry h path typ flags = fdrv_open_common H entry h IPC_FILE_OPEN path typ flags"

definition fdrv_open_flash :: "'h hwops \<Rightarrow> u32 \<Rightarrow> 'h \<Rightarrow> bytes \<Rightarrow> u8 \<Rightarrow> u8 \<Rightarrow> (int \<times> 'h) option" where
  "fdrv_open_flash H entry h path typ flags = fdrv_open_common H entry h IPC_FILE_OPEN_FLASH path typ flags"

text \<open>\<open>dst->result = 1\<close>: the first word of the blob.\<close>

definition set_result_1 :: "'h hwops \<Rightarrow> 'h \<Rightarrow> u32 \<Rightarrow> 'h" where
  "set_result_1 H h dst = ram_store H h dst [0, 0, 0, 1]"

definition fdrv_status :: "'h hwops \<Rightarrow> 'h \<Rightarrow> u32 \<Rightarrow> (int \<times> 'h) option" where
  "fdrv_status H h dst = do {
     (ret, h) \<leftarrow> fdrv_dma H h (DVD_FLIPPY_FILEAPI_BASE OR IPC_READ_STATUS) 0 0 dst 32 False;
     Some (ret, if ret \<noteq> 0 then set_result_1 H h dst else h)
   }"

definition fdrv_close :: "'h hwops \<Rightarrow> 'h \<Rightarrow> u32 \<Rightarrow> 'h option" where
  "fdrv_close H h fd = map_option snd
     (fdrv_cmd H h (DVD_FLIPPY_FILEAPI_BASE OR IPC_FILE_CLOSE OR fd_bits fd) 0 0 False)"

definition fdrv_set_default_fd :: "'h hwops \<Rightarrow> 'h \<Rightarrow> u32 \<Rightarrow> u32 \<Rightarrow> 'h option" where
  "fdrv_set_default_fd H h current_fd second_fd = map_option snd
     (fdrv_cmd H h (DVD_FLIPPY_FILEAPI_BASE OR IPC_SET_DEFAULT_FD OR fd_bits current_fd OR
        push_bit 8 (second_fd AND 0xFF)) 0 0 False)"

definition fdrv_read :: "'h hwops \<Rightarrow> 'h \<Rightarrow> u32 \<Rightarrow> u32 \<Rightarrow> u64 \<Rightarrow> u32 \<Rightarrow> (int \<times> 'h) option" where
  "fdrv_read H h dst len offset fd =
     (if drop_bit 2 offset > 0xFFFFFFFF then Some (-1, h)
      else fdrv_dma H h (DVD_OEM_READ OR fd_bits fd) (ucast (drop_bit 2 offset)) len dst len False)"

text \<open>In cubeboot.dol the threaded read is the plain one.\<close>

definition fdrv_threaded_read :: "'h hwops \<Rightarrow> 'h \<Rightarrow> u32 \<Rightarrow> u32 \<Rightarrow> u64 \<Rightarrow> u32 \<Rightarrow> (int \<times> 'h) option" where
  "fdrv_threaded_read H h dst len offset fd = fdrv_read H h dst len offset fd"

definition fdrv_readdir :: "'h hwops \<Rightarrow> 'h \<Rightarrow> u32 \<Rightarrow> u32 \<Rightarrow> (int \<times> 'h) option" where
  "fdrv_readdir H h dst fd =
     fdrv_dma H h (DVD_FLIPPY_FILEAPI_BASE OR IPC_FILE_READDIR OR fd_bits fd) 0 0 dst FILE_ENTRY_SIZE False"

definition fdrv_path_cmd :: "'h hwops \<Rightarrow> u32 \<Rightarrow> 'h \<Rightarrow> u32 \<Rightarrow> bytes \<Rightarrow> (int \<times> 'h) option" where
  "fdrv_path_cmd H entry h ipc_cmd path =
     fdrv_dma H (ram_store H h entry (file_entry path 0 0)) (DVD_FLIPPY_FILEAPI_BASE OR ipc_cmd) 0 0
       entry FILE_ENTRY_SIZE True"

definition fdrv_mkdir :: "'h hwops \<Rightarrow> u32 \<Rightarrow> 'h \<Rightarrow> bytes \<Rightarrow> (int \<times> 'h) option" where
  "fdrv_mkdir H entry h path = fdrv_path_cmd H entry h IPC_FILE_MKDIR path"

definition fdrv_unlink :: "'h hwops \<Rightarrow> u32 \<Rightarrow> 'h \<Rightarrow> bytes \<Rightarrow> (int \<times> 'h) option" where
  "fdrv_unlink H entry h path = fdrv_path_cmd H entry h IPC_FILE_UNLINK path"

definition fdrv_unlink_flash :: "'h hwops \<Rightarrow> u32 \<Rightarrow> 'h \<Rightarrow> bytes \<Rightarrow> (int \<times> 'h) option" where
  "fdrv_unlink_flash H entry h path = fdrv_path_cmd H entry h IPC_FILE_UNLINK_FLASH path"

definition dma_round :: "u32 \<Rightarrow> u32" where
  "dma_round len = (len + 31) AND 0xFFFFFFE0"

definition fdrv_write :: "'h hwops \<Rightarrow> 'h \<Rightarrow> u32 \<Rightarrow> u32 \<Rightarrow> u32 \<Rightarrow> u32 \<Rightarrow> (int \<times> 'h) option" where
  "fdrv_write H h buf offset len fd =
     fdrv_dma H h (DVD_FLIPPY_FILEAPI_BASE OR IPC_FILE_WRITE OR fd_bits fd) offset len buf (dma_round len) True"

definition fdrv_fs_info :: "'h hwops \<Rightarrow> 'h \<Rightarrow> u32 \<Rightarrow> (int \<times> 'h) option" where
  "fdrv_fs_info H h dst = do {
     (ret, h) \<leftarrow> fdrv_dma H h (DVD_FLIPPY_FILEAPI_BASE OR IPC_FS_INFO) 0 0 dst 32 False;
     Some (ret, if ret \<noteq> 0 then set_result_1 H h dst else h)
   }"

definition net_presence :: "bool \<Rightarrow> bytes \<Rightarrow> bytes \<Rightarrow> bytes" where
  "net_presence playing status sub_status =
     [if playing then 1 else 0] @ (strncpy status 39 @ [0]) @ (strncpy sub_status 39 @ [0]) @ replicate 175 0"

definition fdrv_presence :: "'h hwops \<Rightarrow> u32 \<Rightarrow> 'h \<Rightarrow> bool \<Rightarrow> bytes \<Rightarrow> bytes \<Rightarrow> (int \<times> 'h) option" where
  "fdrv_presence H buf h playing status sub_status =
     fdrv_dma H (ram_store H h buf (net_presence playing status sub_status))
       (DVD_FLIPPY_FILEAPI_BASE OR IPC_NET_PRESENCE) 0 0 buf 256 True"

definition fdrv_bypass_enter :: "'h hwops \<Rightarrow> 'h \<Rightarrow> 'h option" where
  "fdrv_bypass_enter H h = map_option snd (fdrv_cmd H h DVD_FLIPPY_BYPASS 0 0 False)"

definition fdrv_bypass_exit :: "'h hwops \<Rightarrow> 'h \<Rightarrow> 'h option" where
  "fdrv_bypass_exit H h = map_option snd
     (fdrv_cmd H h DVD_FLIPPY_BYPASS FD_BYPASS_EXIT_MAGIC0 FD_BYPASS_EXIT_MAGIC1 False)"

section \<open>Facts on the wire formats\<close>

lemma length_strncpy [simp]: "length (strncpy src n) = n"
  by (simp add: strncpy_def)

lemma length_file_entry: "length (file_entry path typ flags) = unat FILE_ENTRY_SIZE"
  by (simp add: file_entry_def FILE_ENTRY_SIZE_def)

text \<open>The string a C reader takes from a field: the bytes before the first zero.\<close>

definition cstr :: "bytes \<Rightarrow> bytes" where
  "cstr b = takeWhile (\<lambda>c. c \<noteq> 0) b"

lemma cstr_app: "0 \<notin> set xs \<Longrightarrow> cstr (xs @ 0 # ys) = xs"
  by (induction xs) (auto simp: cstr_def)

lemma cstr_strncpy:
  assumes "0 \<notin> set path"
  shows "cstr (strncpy path n @ 0 # ys) = take n path"
proof -
  have z: "0 \<notin> set (take n path)" using assms by (meson in_set_takeD)
  show ?thesis
  proof (cases "n - length path")
    case 0
    then show ?thesis using cstr_app [OF z] by (simp add: strncpy_def)
  next
    case (Suc m)
    then show ?thesis using cstr_app [OF z, of "replicate m 0 @ 0 # ys"] by (simp add: strncpy_def)
  qed
qed

lemma dma_round_spec:
  assumes "unat len \<le> 2 ^ 32 - 32"
  shows "unat (dma_round len) = (unat len + 31) div 32 * 32"
proof -
  have "(0xFFFFFFE0 :: u32) = NOT (mask 5)" by (simp add: mask_eq_exp_minus_1)
  then have "unat (dma_round len) = unat (len + 31) - unat (len + 31) mod 2 ^ 5"
    unfolding dma_round_def by (simp only: unat_and_not_mask)
  moreover have "unat (len + 31) = unat len + 31" using assms by (simp add: unat_word_ariths)
  ultimately show ?thesis by (simp add: minus_mod_eq_div_mult)
qed

section \<open>Properties of the probe and of the file commands\<close>

text \<open>What a settled answer says about the drive, as its last inquiry left it in memory.\<close>

definition settled :: "'h hwops \<Rightarrow> 'h fdrv \<Rightarrow> bool" where
  "settled H f \<longleftrightarrow>
     (has_fdrv f = 1 \<longrightarrow> rel_date H (f_info f) (f_hw f) = FLIPPY_REL_DATE_FIRMWARE \<and>
        fdrv_fw_ver f = sub_list (ram_load H (f_hw f) (f_info f) 32) 12 4) \<and>
     (has_fdrv f = 0 \<longrightarrow> rel_date H (f_info f) (f_hw f) = GCODE_REL_DATE \<or>
        is_stock_rel_date (rel_date H (f_info f) (f_hw f)))"

definition answered :: "'h hwops \<Rightarrow> bool \<times> 'h fdrv \<Rightarrow> bool" where
  "answered H = (\<lambda>(r, f). r = (has_fdrv f = 1) \<and> has_fdrv f \<in> {-1, 0, 1} \<and> settled H f)"

lemma fdrv_conclude_answered: "has_fdrv f = -1 \<Longrightarrow> answered H (fdrv_conclude H f)"
  by (auto simp: fdrv_conclude_def answered_def settled_def Let_def)

lemma open_answered: "has_fdrv f = -1 \<Longrightarrow> answered H (False, f)"
  by (simp add: answered_def settled_def)

lemma fdrv_bootloader_answered: "has_fdrv f = -1 \<Longrightarrow> answered H (fdrv_bootloader H f)"
  by (simp add: fdrv_bootloader_def Let_def fdrv_conclude_answered open_answered split: prod.splits)

lemma fdrv_probe_answered: "has_fdrv f = -1 \<Longrightarrow> answered H (fdrv_probe H f)"
  by (simp add: fdrv_probe_def Let_def fdrv_bootloader_answered open_answered split: prod.splits)
    (simp add: answered_def settled_def)


text \<open>A drive that answers every inquiry with one date, for the witnesses.\<close>

definition one_date_hw :: "bytes \<Rightarrow> unit hwops" where
  "one_date_hw ans = \<lparr>di_load = \<lambda>h i. (0, h), di_store = \<lambda>h i v. h, ram_load = \<lambda>h a n. ans,
     ram_store = \<lambda>h a b. h, DCInvalidateRange = \<lambda>h a n. h, DCFlushRange = \<lambda>h a n. h, settle_ms = \<lambda>h n. h,
     EXILock = \<lambda>h c d. (False, h), EXIUnlock = \<lambda>h c. h, EXISelect = \<lambda>h c d f. (False, h),
     EXIDeselect = \<lambda>h c. h, EXIImmEx = \<lambda>h c x n m. (0, h), EXI_DmaEx = \<lambda>h c b m. (b, h),
     sdgecko_initIODefault = \<lambda>h. h, sdgecko_initIO = \<lambda>h c. (False, h),
     sdgecko_readSector = \<lambda>h c s a. (False, s, h), sdgecko_writeSector = \<lambda>h c s a. (False, h)\<rparr>"

definition firmware_answer :: bytes where
  "firmware_answer = [0, 0, 0, 0, 0x20, 0x22, 0x04, 0x26, 0, 0, 0, 0, 1, 4, 0, 9] @ replicate 16 0"

lemma firmware_probe:
  "fdrv_probe (one_date_hw firmware_answer) \<lparr>f_hw = (), f_info = 0x81000000, has_fdrv = -1, fdrv_fw_ver = []\<rparr> =
    (True, \<lparr>f_hw = (), f_info = 0x81000000, has_fdrv = 1, fdrv_fw_ver = [1, 4, 0, 9]\<rparr>)"
  by code_simp




end
