(* ===== verification/FlippyEmu.thy ===== *)
theory FlippyEmu
  imports Fdrv
begin

text \<open>
  The file interface of the program (emu/flippy_emu.c, cubeboot.dol): selection of a storage
  device, and the \<open>dvd_custom_\<dots>\<close> calls, each of which goes to a FlippyDrive when one was
  adopted and to FatFs otherwise. FatFs is third-party code and a parameter (\<open>fatfs\<close>), one
  field per function called; \<open>True\<close> stands for \<open>FR_OK\<close>. The native branch uses \<open>Fdrv\<close>.
\<close>

section \<open>Parameters and state\<close>

record filinfo =
  fname :: bytes
  fattrib :: u8
  fsize :: u64

record 'f fatfs =
  f_mount :: "'f \<Rightarrow> bytes \<Rightarrow> bool \<times> 'f"
  f_open :: "'f \<Rightarrow> bytes \<Rightarrow> u8 \<Rightarrow> bool \<times> 'f"
  f_opendir :: "'f \<Rightarrow> bytes \<Rightarrow> bool \<times> 'f"
  f_close :: "'f \<Rightarrow> 'f"
  f_closedir :: "'f \<Rightarrow> 'f"
  f_lseek :: "'f \<Rightarrow> u64 \<Rightarrow> bool \<times> 'f"
  f_read :: "'f \<Rightarrow> u32 \<Rightarrow> bool \<times> bytes \<times> 'f"
  f_readdir :: "'f \<Rightarrow> bool \<times> filinfo \<times> 'f"
  f_mkdir :: "'f \<Rightarrow> bytes \<Rightarrow> bool \<times> 'f"
  f_size :: "'f \<Rightarrow> u64"
  file_valid :: "'f \<Rightarrow> bool"
  dir_valid :: "'f \<Rightarrow> bool"

text \<open>\<open>e_tmp\<close> and \<open>e_stat\<close> are the addresses of the on-stack DMA buffers.\<close>

record ('h, 'f) emu =
  e_fd :: "'h fdrv"
  e_fs :: 'f
  emu_sd_device :: int
  passthrough :: bool
  e_tmp :: u32
  e_stat :: u32

definition str_bytes :: "string \<Rightarrow> bytes" where
  "str_bytes s = map (\<lambda>c. of_nat (of_char c)) s"

definition device_prio :: "bytes list" where
  "device_prio = map str_bytes [''fldrv'', ''gcldr'', ''sdc'', ''sdb'', ''sda'', ''ataa'', ''atab'', ''atac'']"

definition DEVICE_FLIPPY :: nat where "DEVICE_FLIPPY = 0"

definition emu_get_device :: "('h, 'f) emu \<Rightarrow> bytes option" where
  "emu_get_device e = (if emu_sd_device e < 0 then None else Some (device_prio ! nat (emu_sd_device e)))"

definition emu_is_native :: "('h, 'f) emu \<Rightarrow> bool" where
  "emu_is_native e \<longleftrightarrow> emu_sd_device e = int DEVICE_FLIPPY"

definition colon :: u8 where "colon = 0x3A"

section \<open>Selecting a device\<close>

definition device_bring_up :: "'h hwops \<Rightarrow> 'f fatfs \<Rightarrow> nat \<Rightarrow> ('h, 'f) emu \<Rightarrow> bool \<times> ('h, 'f) emu" where
  "device_bring_up H F i e =
     (if i = DEVICE_FLIPPY
      then (let (ok, f) = fdrv_probe H (e_fd e) in (ok, e\<lparr>e_fd := f\<rparr>))
      else (let (ok, f) = f_mount F (e_fs e) (device_prio ! i @ [colon]) in (ok, e\<lparr>e_fs := f\<rparr>)))"

fun mount_from :: "'h hwops \<Rightarrow> 'f fatfs \<Rightarrow> nat list \<Rightarrow> ('h, 'f) emu \<Rightarrow> bool \<times> ('h, 'f) emu" where
  "mount_from H F [] e = (False, e)"
| "mount_from H F (i # is) e =
     (let (ok, e') = device_bring_up H F i e
      in if ok then (True, e'\<lparr>emu_sd_device := int i\<rparr>) else mount_from H F is e')"

definition flippy_emu_mount :: "'h hwops \<Rightarrow> 'f fatfs \<Rightarrow> ('h, 'f) emu \<Rightarrow> bool \<times> ('h, 'f) emu" where
  "flippy_emu_mount H F e =
     (if emu_sd_device e < 0 then mount_from H F [0..<length device_prio] e else (True, e))"

section \<open>File calls\<close>

definition FILE_ENTRY_TYPE_FILE :: u8 where "FILE_ENTRY_TYPE_FILE = 0"
definition FILE_ENTRY_TYPE_DIR :: u8 where "FILE_ENTRY_TYPE_DIR = 1"
definition IPC_FILE_FLAG_WRITE :: u8 where "IPC_FILE_FLAG_WRITE = 8"
definition FA_READ :: u8 where "FA_READ = 0x01"
definition FA_WRITE :: u8 where "FA_WRITE = 0x02"
definition FA_OPEN_ALWAYS :: u8 where "FA_OPEN_ALWAYS = 0x10"
definition AM_DIR :: u8 where "AM_DIR = 0x10"

text \<open>The state after a native call, which acts on the hardware only.\<close>

definition on_drive :: "('h, 'f) emu \<Rightarrow> (int \<times> 'h) option \<Rightarrow> (int \<times> ('h, 'f) emu) option" where
  "on_drive e r = map_option (\<lambda>(ret, h). (ret, e\<lparr>e_fd := (e_fd e)\<lparr>f_hw := h\<rparr>\<rparr>)) r"

definition dvd_custom_close :: "'h hwops \<Rightarrow> 'f fatfs \<Rightarrow> ('h, 'f) emu \<Rightarrow> u32 \<Rightarrow> ('h, 'f) emu option" where
  "dvd_custom_close H F e fd =
     (if emu_is_native e
      then map_option (\<lambda>h. e\<lparr>e_fd := (e_fd e)\<lparr>f_hw := h\<rparr>\<rparr>) (fdrv_close H (f_hw (e_fd e)) fd)
      else Some (e\<lparr>e_fs := f_closedir F (f_close F (e_fs e))\<rparr>))"

definition dev_path :: "('h, 'f) emu \<Rightarrow> bytes \<Rightarrow> bytes" where
  "dev_path e path = the (emu_get_device e) @ [colon] @ path"

definition dvd_custom_open :: "'h hwops \<Rightarrow> 'f fatfs \<Rightarrow> ('h, 'f) emu \<Rightarrow> bytes \<Rightarrow> u8 \<Rightarrow> u8 \<Rightarrow>
    (int \<times> ('h, 'f) emu) option" where
  "dvd_custom_open H F e path typ flags = do {
     let (ok, e) = flippy_emu_mount H F e;
     if \<not> ok then Some (1, e)
     else if emu_is_native e
     then on_drive e (fdrv_open H (e_tmp e) (f_hw (e_fd e)) path typ flags)
     else do {
       e \<leftarrow> dvd_custom_close H F e 1;
       if typ = FILE_ENTRY_TYPE_DIR
       then (let (ok, f) = f_opendir F (e_fs e) (dev_path e path) in Some (if ok then 0 else 1, e\<lparr>e_fs := f\<rparr>))
       else if typ = FILE_ENTRY_TYPE_FILE
       then (let m = (if flags AND IPC_FILE_FLAG_WRITE \<noteq> 0 then FA_READ OR FA_WRITE OR FA_OPEN_ALWAYS else FA_READ);
                 (ok, f) = f_open F (e_fs e) (dev_path e path) m
             in Some (if ok then 0 else 1, e\<lparr>e_fs := f\<rparr>))
       else Some (1, e)
     }
   }"

definition cubiboot_dir :: bytes where "cubiboot_dir = str_bytes ''/cubiboot''"

definition dvd_custom_open_flash :: "'h hwops \<Rightarrow> 'f fatfs \<Rightarrow> ('h, 'f) emu \<Rightarrow> bytes \<Rightarrow> u8 \<Rightarrow> u8 \<Rightarrow>
    (int \<times> ('h, 'f) emu) option" where
  "dvd_custom_open_flash H F e path typ flags =
     (if typ \<noteq> FILE_ENTRY_TYPE_FILE then Some (1, e)
      else do {
        let (ok, e) = flippy_emu_mount H F e;
        if ok \<and> emu_is_native e
        then do {
          (r, e) \<leftarrow> on_drive e (fdrv_open_flash H (e_tmp e) (f_hw (e_fd e)) path typ flags);
          (found, e) \<leftarrow> (if r = 0 then do {
              (r, e) \<leftarrow> on_drive e (fdrv_status H (f_hw (e_fd e)) (e_stat e));
              Some (r = 0 \<and> be32 (ram_load H (f_hw (e_fd e)) (e_stat e) 32) 0 = 0, e) }
            else Some (False, e));
          if found then Some (0, e)
          else on_drive e (fdrv_open H (e_tmp e) (f_hw (e_fd e)) path typ flags)
        }
        else do {
          (r, e) \<leftarrow> dvd_custom_open H F e (cubiboot_dir @ path) typ flags;
          if r = 0 then Some (0, e) else dvd_custom_open H F e path typ flags
        }
      })"

text \<open>\<open>file_status_t\<close> as the emulation fills it: result, size with its bytes swapped, fd.\<close>

record file_status =
  st_result :: u32
  st_fsize :: u64
  st_fd :: u8

definition bswap64 :: "u64 \<Rightarrow> u64" where
  "bswap64 x = of_be (rev (be_bytes 8 x))"

definition emu_status :: "'f fatfs \<Rightarrow> ('h, 'f) emu \<Rightarrow> file_status" where
  "emu_status F e =
     (if \<not> file_valid F (e_fs e) \<and> \<not> dir_valid F (e_fs e) then \<lparr>st_result = 1, st_fsize = 0, st_fd = 1\<rparr>
      else \<lparr>st_result = 0, st_fsize = bswap64 (f_size F (e_fs e)), st_fd = 1\<rparr>)"

text \<open>Reading the blob the drive wrote at \<open>e_stat\<close>: result at 0, size at 4, fd at 12.\<close>

definition drive_status :: "'h hwops \<Rightarrow> ('h, 'f) emu \<Rightarrow> file_status" where
  "drive_status H e = (let b = ram_load H (f_hw (e_fd e)) (e_stat e) 32 in
     \<lparr>st_result = be32 b 0, st_fsize = of_be (sub_list b 4 8), st_fd = b ! 12\<rparr>)"

definition dvd_custom_status :: "'h hwops \<Rightarrow> 'f fatfs \<Rightarrow> ('h, 'f) emu \<Rightarrow> (int \<times> file_status \<times> ('h, 'f) emu) option" where
  "dvd_custom_status H F e =
     (if emu_is_native e
      then do { (r, e) \<leftarrow> on_drive e (fdrv_status H (f_hw (e_fd e)) (e_stat e)); Some (r, drive_status H e, e) }
      else Some (0, emu_status F e, e))"

definition dvd_read :: "'h hwops \<Rightarrow> 'f fatfs \<Rightarrow> ('h, 'f) emu \<Rightarrow> u32 \<Rightarrow> u32 \<Rightarrow> u64 \<Rightarrow> u32 \<Rightarrow>
    (int \<times> bytes \<times> ('h, 'f) emu) option" where
  "dvd_read H F e dst len offset fd =
     (if passthrough e
      then do { (r, e) \<leftarrow> on_drive e (normal_dvd_read H (f_hw (e_fd e)) dst len offset fd);
                Some (r, ram_load H (f_hw (e_fd e)) dst (unat len), e) }
      else if emu_is_native e
      then do { (r, e) \<leftarrow> on_drive e (fdrv_read H (f_hw (e_fd e)) dst len offset fd);
                Some (r, ram_load H (f_hw (e_fd e)) dst (unat len), e) }
      else (let (ok, f) = f_lseek F (e_fs e) offset
            in if \<not> ok then Some (1, [], e\<lparr>e_fs := f\<rparr>)
               else (let (ok, data, f) = f_read F f len
                     in Some (if ok then 0 else 1, data, e\<lparr>e_fs := f\<rparr>))))"

definition dvd_threaded_read :: "'h hwops \<Rightarrow> 'f fatfs \<Rightarrow> ('h, 'f) emu \<Rightarrow> u32 \<Rightarrow> u32 \<Rightarrow> u64 \<Rightarrow> u32 \<Rightarrow>
    (int \<times> bytes \<times> ('h, 'f) emu) option" where
  "dvd_threaded_read H F e dst len offset fd =
     (if \<not> passthrough e \<and> emu_is_native e
      then do { (r, e) \<leftarrow> on_drive e (fdrv_threaded_read H (f_hw (e_fd e)) dst len offset fd);
                Some (r, ram_load H (f_hw (e_fd e)) dst (unat len), e) }
      else dvd_read H F e dst len offset fd)"

text \<open>A directory entry the emulation stores: name, type, size, attributes; at the end only
  the first byte of the name is cleared.\<close>

record dir_entry =
  de_name :: bytes
  de_type :: u8
  de_size :: u64
  de_attrib :: u8

definition emu_readdir :: "'f fatfs \<Rightarrow> ('h, 'f) emu \<Rightarrow> dir_entry \<Rightarrow> int \<times> dir_entry \<times> ('h, 'f) emu" where
  "emu_readdir F e dst =
     (let (ok, fno, f) = f_readdir F (e_fs e); e = e\<lparr>e_fs := f\<rparr>
      in if \<not> ok then (1, dst, e)
         else if fname fno = [] then (0, dst\<lparr>de_name := []\<rparr>, e)
         else (0, \<lparr>de_name = fname fno,
                   de_type = (if fattrib fno AND AM_DIR \<noteq> 0 then FILE_ENTRY_TYPE_DIR else FILE_ENTRY_TYPE_FILE),
                   de_size = fsize fno, de_attrib = fattrib fno\<rparr>, e))"

definition dvd_custom_mkdir :: "'h hwops \<Rightarrow> 'f fatfs \<Rightarrow> ('h, 'f) emu \<Rightarrow> bytes \<Rightarrow> (int \<times> ('h, 'f) emu) option" where
  "dvd_custom_mkdir H F e path = do {
     let (ok, e) = flippy_emu_mount H F e;
     if \<not> ok then Some (1, e)
     else if emu_is_native e then on_drive e (fdrv_mkdir H (e_tmp e) (f_hw (e_fd e)) path)
     else (let (ok, f) = f_mkdir F (e_fs e) path in Some (if ok then 0 else 1, e\<lparr>e_fs := f\<rparr>))
   }"

definition dvd_custom_write :: "'h hwops \<Rightarrow> ('h, 'f) emu \<Rightarrow> u32 \<Rightarrow> u32 \<Rightarrow> u32 \<Rightarrow> u32 \<Rightarrow> (int \<times> ('h, 'f) emu) option" where
  "dvd_custom_write H e buf offset len fd =
     (if emu_is_native e then on_drive e (fdrv_write H (f_hw (e_fd e)) buf offset len fd) else Some (1, e))"

definition dvd_set_default_fd :: "'h hwops \<Rightarrow> ('h, 'f) emu \<Rightarrow> u32 \<Rightarrow> u32 \<Rightarrow> ('h, 'f) emu option" where
  "dvd_set_default_fd H e current_fd second_fd =
     (if emu_is_native e
      then map_option (\<lambda>h. e\<lparr>e_fd := (e_fd e)\<lparr>f_hw := h\<rparr>\<rparr>) (fdrv_set_default_fd H (f_hw (e_fd e)) current_fd second_fd)
      else Some e)"

definition dvd_custom_unlink :: "'h hwops \<Rightarrow> ('h, 'f) emu \<Rightarrow> bytes \<Rightarrow> (int \<times> ('h, 'f) emu) option" where
  "dvd_custom_unlink H e path =
     (if emu_is_native e then on_drive e (fdrv_unlink H (e_tmp e) (f_hw (e_fd e)) path) else Some (1, e))"

definition dvd_custom_unlink_flash :: "'h hwops \<Rightarrow> ('h, 'f) emu \<Rightarrow> bytes \<Rightarrow> (int \<times> ('h, 'f) emu) option" where
  "dvd_custom_unlink_flash H e path =
     (if emu_is_native e then on_drive e (fdrv_unlink_flash H (e_tmp e) (f_hw (e_fd e)) path) else Some (1, e))"

definition dvd_custom_presence :: "'h hwops \<Rightarrow> ('h, 'f) emu \<Rightarrow> bool \<Rightarrow> bytes \<Rightarrow> bytes \<Rightarrow> (int \<times> ('h, 'f) emu) option" where
  "dvd_custom_presence H e playing status sub_status =
     (if emu_is_native e then on_drive e (fdrv_presence H (e_tmp e) (f_hw (e_fd e)) playing status sub_status)
      else Some (1, e))"

definition dvd_custom_fs_info :: "'h hwops \<Rightarrow> ('h, 'f) emu \<Rightarrow> u32 \<Rightarrow> (int \<times> ('h, 'f) emu) option" where
  "dvd_custom_fs_info H e dst =
     (if emu_is_native e then on_drive e (fdrv_fs_info H (f_hw (e_fd e)) dst) else Some (1, e))"

text \<open>Handing the bus to the physical disc and back; \<open>reset\<close> and \<open>stop\<close> are libogc's
  \<open>DI_Reset\<close> and \<open>DI_StopMotor\<close>.\<close>

definition set_hw :: "('h, 'f) emu \<Rightarrow> 'h \<Rightarrow> ('h, 'f) emu" where
  "set_hw e h = e\<lparr>e_fd := (e_fd e)\<lparr>f_hw := h\<rparr>\<rparr>"

definition dvd_custom_bypass_enter :: "'h hwops \<Rightarrow> ('h \<Rightarrow> 'h) \<Rightarrow> ('h, 'f) emu \<Rightarrow> ('h, 'f) emu option" where
  "dvd_custom_bypass_enter H reset e =
     (let e = e\<lparr>passthrough := True\<rparr>
      in if emu_is_native e then map_option (set_hw e) (fdrv_bypass_enter H (f_hw (e_fd e)))
         else Some (set_hw e (reset (f_hw (e_fd e)))))"

definition dvd_custom_bypass :: "'h hwops \<Rightarrow> ('h \<Rightarrow> 'h) \<Rightarrow> ('h, 'f) emu \<Rightarrow> ('h, 'f) emu option" where
  "dvd_custom_bypass H reset e = dvd_custom_bypass_enter H reset e"

definition dvd_custom_bypass_exit :: "'h hwops \<Rightarrow> ('h \<Rightarrow> 'h) \<Rightarrow> ('h, 'f) emu \<Rightarrow> ('h, 'f) emu option" where
  "dvd_custom_bypass_exit H stop e =
     (if emu_is_native e
      then map_option (\<lambda>h. (set_hw e h)\<lparr>passthrough := False\<rparr>) (fdrv_bypass_exit H (f_hw (e_fd e)))
      else Some ((set_hw e (stop (f_hw (e_fd e))))\<lparr>passthrough := False\<rparr>))"

section \<open>Device selection\<close>

lemma mount_from_first:
  assumes up: "\<And>i e. i \<noteq> DEVICE_FLIPPY \<Longrightarrow> fst (device_bring_up H F i e) = up i"
  shows "mount_from H F is e = (ok, e') \<Longrightarrow> DEVICE_FLIPPY \<notin> set is \<or> hd is = DEVICE_FLIPPY \<and>
      DEVICE_FLIPPY \<notin> set (tl is) \<and> fst (device_bring_up H F DEVICE_FLIPPY e) = up DEVICE_FLIPPY \<Longrightarrow>
    (ok \<longleftrightarrow> (\<exists>i \<in> set is. up i)) \<and> (ok \<longrightarrow> (\<exists>as i bs. is = as @ i # bs \<and> up i \<and> (\<forall>j \<in> set as. \<not> up j) \<and>
       emu_sd_device e' = int i))"
proof (induction "is" arbitrary: e)
  case (Cons i "is")
  obtain k e1 where b: "device_bring_up H F i e = (k, e1)" by (metis prod.exhaust)
  have k: "k = up i" using up [of i e] b Cons.prems(2) by (cases "i = DEVICE_FLIPPY") auto
  show ?case
  proof (cases k)
    case True
    then show ?thesis using Cons.prems b k by (auto intro: exI [of _ "[]"])
  next
    case False
    then have r: "mount_from H F is e1 = (ok, e')" using Cons.prems(1) b by simp
    have nf: "DEVICE_FLIPPY \<notin> set is" using Cons.prems(2) by auto
    have ih: "(ok \<longleftrightarrow> (\<exists>j \<in> set is. up j)) \<and> (ok \<longrightarrow> (\<exists>as j bs. is = as @ j # bs \<and> up j \<and>
        (\<forall>x \<in> set as. \<not> up x) \<and> emu_sd_device e' = int j))"
      by (rule Cons.IH [OF r]) (use nf in simp)
    have "\<exists>as j bs. i # is = as @ j # bs \<and> up j \<and> (\<forall>x \<in> set as. \<not> up x) \<and> emu_sd_device e' = int j" if ok
    proof -
      obtain as j bs where "is = as @ j # bs" "up j" "\<forall>x \<in> set as. \<not> up x" "emu_sd_device e' = int j"
        using ih \<open>ok\<close> by blast
      then show ?thesis using False k by (intro exI [of _ "i # as"] exI [of _ j] exI [of _ bs]) auto
    qed
    then show ?thesis using ih False k by auto
  qed
qed simp

lemma device_prio_length [simp]: "length device_prio = 8"
  by (simp add: device_prio_def)

text \<open>
  C8. When no device was adopted yet, \<open>flippy_emu_mount\<close> succeeds exactly if some device comes
  up, and it adopts the first one in the order FlippyDrive, GC Loader, SD (serial port, slots B
  and A), IDE-EXI; an adopted device is kept by every later mount.
\<close>

theorem mount_takes_first_device:
  assumes "fst (fdrv_probe H (e_fd e)) = up 0"
    "\<And>i f. 0 < i \<Longrightarrow> fst (f_mount F f (device_prio ! i @ [colon])) = up i" "emu_sd_device e = -1"
    "flippy_emu_mount H F e = (ok, e')"
  shows "(ok \<longleftrightarrow> (\<exists>i < 8. up i)) \<and>
    (ok \<longrightarrow> emu_sd_device e' = int (LEAST i. up i) \<and> flippy_emu_mount H F e' = (True, e'))"
proof -
  have m: "mount_from H F [0..<8] e = (ok, e')" using assms(3,4) by (simp add: flippy_emu_mount_def)
  have b0: "fst (device_bring_up H F DEVICE_FLIPPY e) = up DEVICE_FLIPPY"
    using assms(1) by (auto simp: device_bring_up_def DEVICE_FLIPPY_def split: prod.splits)
  have bi: "fst (device_bring_up H F i e) = up i" if "i \<noteq> DEVICE_FLIPPY" for i e
    using assms(2) [of i "e_fs e"] that by (auto simp: device_bring_up_def DEVICE_FLIPPY_def split: prod.splits)
  have s: "(ok \<longleftrightarrow> (\<exists>i \<in> set [0..<8]. up i)) \<and> (ok \<longrightarrow> (\<exists>as i bs. [0..<8] = as @ i # bs \<and> up i \<and>
      (\<forall>j \<in> set as. \<not> up j) \<and> emu_sd_device e' = int i))"
    by (rule mount_from_first [OF bi m]) (use b0 in \<open>simp_all add: DEVICE_FLIPPY_def upt_conv_Cons\<close>)
  have "emu_sd_device e' = int (LEAST i. up i) \<and> flippy_emu_mount H F e' = (True, e')" if ok
  proof -
    obtain as i bs where l: "[0..<8] = as @ i # bs" "up i" "\<forall>j \<in> set as. \<not> up j" "emu_sd_device e' = int i"
      using s \<open>ok\<close> by blast
    have i: "i = length as" using arg_cong [OF l(1), of "\<lambda>x. x ! length as"] arg_cong [OF l(1), of length]
      by simp
    have "as = [0..<i]" using arg_cong [OF l(1), of "take (length as)"] arg_cong [OF l(1), of length] i
      by (simp add: take_upt)
    then have "(LEAST k. up k) = i" using l(2,3) by (intro Least_equality) (auto simp: not_less [symmetric])
    then show ?thesis using l(4) by (simp add: flippy_emu_mount_def)
  qed
  then show ?thesis using s by auto
qed

text \<open>A FatFs that mounts one volume only and logs the paths it is given, with an empty DI bus.\<close>

definition log_fs :: "bytes \<Rightarrow> bytes list fatfs" where
  "log_fs vol = \<lparr>f_mount = \<lambda>f v. (v = vol, f), f_open = \<lambda>f p m. (True, p # f), f_opendir = \<lambda>f p. (True, p # f),
     f_close = \<lambda>f. f, f_closedir = \<lambda>f. f, f_lseek = \<lambda>f x. (True, f), f_read = \<lambda>f n. (True, [], f),
     f_readdir = \<lambda>f. (True, \<lparr>fname = [], fattrib = 0, fsize = 0\<rparr>, f), f_mkdir = \<lambda>f p. (True, p # f),
     f_size = \<lambda>f. 0, file_valid = \<lambda>f. True, dir_valid = \<lambda>f. True\<rparr>"

definition demo_emu :: "(unit, bytes list) emu" where
  "demo_emu = \<lparr>e_fd = \<lparr>f_hw = (), f_info = 0, has_fdrv = 0, fdrv_fw_ver = []\<rparr>, e_fs = [], emu_sd_device = -1,
     passthrough = False, e_tmp = 0, e_stat = 0\<rparr>"

definition demo_up :: "nat \<Rightarrow> bool" where
  "demo_up i \<longleftrightarrow> i \<noteq> 0 \<and> device_prio ! i @ [colon] = str_bytes ''sdb:''"

theorem mount_takes_first_device_witness:
  "fst (flippy_emu_mount (one_date_hw firmware_answer) (log_fs (str_bytes ''sdb:'')) demo_emu) \<and>
   emu_sd_device (snd (flippy_emu_mount (one_date_hw firmware_answer) (log_fs (str_bytes ''sdb:'')) demo_emu)) =
     int (LEAST i. demo_up i)"
proof -
  have "demo_up 3" by code_simp
  moreover have "fst (fdrv_probe (one_date_hw firmware_answer) (e_fd demo_emu)) = demo_up 0"
    by (simp add: fdrv_probe_def demo_emu_def demo_up_def)
  moreover have "fst (f_mount (log_fs (str_bytes ''sdb:'')) f (device_prio ! i @ [colon])) = demo_up i" if "0 < i" for i f
    using that by (simp add: log_fs_def demo_up_def)
  ultimately show ?thesis
    using mount_takes_first_device [of "one_date_hw firmware_answer" demo_emu demo_up "log_fs (str_bytes ''sdb:'')"
        "fst (flippy_emu_mount (one_date_hw firmware_answer) (log_fs (str_bytes ''sdb:'')) demo_emu)"
        "snd (flippy_emu_mount (one_date_hw firmware_answer) (log_fs (str_bytes ''sdb:'')) demo_emu)"]
    by (auto simp: demo_emu_def)
qed

text \<open>
  On a FatFs device \<open>dvd_custom_open\<close> hands FatFs the path on the adopted volume, but
  \<open>dvd_custom_mkdir\<close> hands it the bare path, which FatFs resolves on its default volume: after
  adopting slot B, opening \<open>/a\<close> reaches \<open>sdb:/a\<close> and creating \<open>/a\<close> reaches \<open>/a\<close>.
\<close>

theorem mkdir_misses_the_volume:
  "map_option (\<lambda>(r, e). (r, e_fs e)) (dvd_custom_open (one_date_hw firmware_answer) (log_fs (str_bytes ''sdb:''))
      demo_emu (str_bytes ''/a'') FILE_ENTRY_TYPE_FILE 0) = Some (0, [str_bytes ''sdb:/a'']) \<and>
   map_option (\<lambda>(r, e). (r, e_fs e)) (dvd_custom_mkdir (one_date_hw firmware_answer) (log_fs (str_bytes ''sdb:''))
      demo_emu (str_bytes ''/a'')) = Some (0, [str_bytes ''/a''])"
  by code_simp

end
