(* ===== verification/DvdRead.thy ===== *)
theory DvdRead
  imports FlippyEmu
begin

text \<open>
  \<open>dvd_read_data\<close> of flippy_sync.c: a read of any length and alignment on top of \<open>dvd_read\<close>,
  which needs aligned buffers and lengths. Unaligned requests go through a static buffer of
  16 KiB. The reader below is a parameter with the type \<open>dvd_read\<close> has here; \<open>file_reader\<close>
  is its contract. A copy that leaves the static buffer is undefined in C and is \<open>None\<close>, as
  is a reader that does not return.
\<close>

section \<open>Model\<close>

definition FD_IPC_MAXRESP :: u32 where "FD_IPC_MAXRESP = 1024 * 16"

type_synonym 'e reader = "'e \<Rightarrow> u32 \<Rightarrow> u64 \<Rightarrow> (int \<times> bytes \<times> 'e) option"

definition read_chunk :: "u32 \<Rightarrow> u32 \<Rightarrow> u32" where
  "read_chunk remaining adj =
     (let to_read = (if remaining > FD_IPC_MAXRESP then FD_IPC_MAXRESP else remaining);
          to_read = (if to_read + adj > FD_IPC_MAXRESP then FD_IPC_MAXRESP - adj else to_read)
      in (to_read + 31) AND NOT 31)"

definition copy_chunk :: "u32 \<Rightarrow> u32" where
  "copy_chunk remaining = (if remaining > FD_IPC_MAXRESP then FD_IPC_MAXRESP else remaining)"

lemma copy_chunk_le: "copy_chunk r \<le> r" "r \<noteq> 0 \<Longrightarrow> copy_chunk r \<noteq> 0"
  by (auto simp: copy_chunk_def FD_IPC_MAXRESP_def)

lemma copy_chunk_dec: "r \<noteq> 0 \<Longrightarrow> unat (r - copy_chunk r) < unat r"
  using copy_chunk_le [of r] by (simp add: unat_sub word_le_nat_alt unat_gt_0)

function read_unaligned :: "'e reader \<Rightarrow> 'e \<Rightarrow> bytes \<Rightarrow> bytes \<Rightarrow> nat \<Rightarrow> u64 \<Rightarrow> u32 \<Rightarrow> (int \<times> bytes \<times> 'e) option" where
  "read_unaligned rd e abuf dst tot cur remaining =
     (if remaining = 0 then Some (0, dst, e)
      else do {
        let aligned_offset = cur AND NOT 3;
        let adj = (ucast (cur - aligned_offset) :: u32);
        (result, data, e) \<leftarrow> rd e (read_chunk remaining adj) aligned_offset;
        let abuf = blit abuf 0 data;
        if result \<noteq> 0 then Some (result, dst, e)
        else (let to_copy = copy_chunk remaining
              in if unat adj + unat to_copy > unat FD_IPC_MAXRESP then None
                 else read_unaligned rd e abuf (blit dst tot (sub_list abuf (unat adj) (unat to_copy)))
                        (tot + unat to_copy) (cur + ucast to_copy) (remaining - to_copy))
      })"
  by pat_completeness auto

termination
  by (relation "measure (\<lambda>(rd, e, a, d, t, c, r). unat r)") (auto simp: copy_chunk_dec)

declare read_unaligned.simps [simp del]

definition dvd_read_data :: "'e reader \<Rightarrow> 'e \<Rightarrow> bytes \<Rightarrow> u32 \<Rightarrow> bytes \<Rightarrow> u32 \<Rightarrow> u64 \<Rightarrow> (int \<times> bytes \<times> 'e) option" where
  "dvd_read_data rd e abuf ptr dst len offset =
     (if ptr AND 0x1F \<noteq> 0 \<or> len AND 0x1F \<noteq> 0 \<or> offset AND 0x3 \<noteq> 0
      then read_unaligned rd e abuf dst 0 offset len
      else do {
        (result, data, e) \<leftarrow> rd e len offset;
        Some (result, blit dst 0 data, e)
      })"

section \<open>Correctness for word-aligned offsets\<close>

definition file_bytes :: "(nat \<Rightarrow> u8) \<Rightarrow> nat \<Rightarrow> nat \<Rightarrow> bytes" where
  "file_bytes c a n = map c [a..<a + n]"

lemma length_file_bytes [simp]: "length (file_bytes c a n) = n"
  by (simp add: file_bytes_def)

lemma file_bytes_append: "file_bytes c a m @ file_bytes c (a + m) n = file_bytes c a (m + n)"
  by (rule nth_equalityI) (auto simp: file_bytes_def nth_append)

lemma take_file_bytes: "m \<le> n \<Longrightarrow> take m (file_bytes c a n) = file_bytes c a m"
  by (simp add: file_bytes_def take_map)

lemma round32_bounds:
  fixes c :: nat
  assumes "c \<le> 16384"
  shows "c \<le> c + 31 - (c + 31) mod 32" "c + 31 - (c + 31) mod 32 \<le> 16384"
proof -
  have "(c + 31) mod 32 \<le> 31" by simp
  then show "c \<le> c + 31 - (c + 31) mod 32" by linarith
  have "(c + 31) div 32 \<le> 16415 div 32" using assms by (intro div_le_mono) simp
  then show "c + 31 - (c + 31) mod 32 \<le> 16384" by (simp add: minus_mod_eq_div_mult)
qed

text \<open>
  What a reader of one open file promises: it returns, and on success with that file's bytes,
  fewer than asked for when the file ends before.
\<close>

locale file_reader =
  fixes rd :: "'e reader" and content :: "nat \<Rightarrow> u8" and fsz :: nat and inv :: "'e \<Rightarrow> bool"
  assumes rd_total: "inv e \<Longrightarrow> \<exists>r data e'. rd e n off = Some (r, data, e') \<and> inv e'"
    and rd_ok: "inv e \<Longrightarrow> rd e n off = Some (0, data, e') \<Longrightarrow> data = file_bytes content (unat off) (min (unat n) (fsz - unat off))"
begin

lemma read_chunk_aligned:
  assumes "r \<noteq> 0"
  shows "unat (copy_chunk r) \<le> unat (read_chunk r 0)" "unat (read_chunk r 0) \<le> 16384"
    "unat (copy_chunk r) \<le> 16384"
proof -
  let ?c = "copy_chunk r"
  show c: "unat ?c \<le> 16384" by (simp add: copy_chunk_def FD_IPC_MAXRESP_def word_less_nat_alt)
  then have "read_chunk r 0 = (?c + 31) AND NOT 31"
    by (simp add: read_chunk_def copy_chunk_def FD_IPC_MAXRESP_def Let_def word_less_nat_alt word_le_nat_alt)
  moreover have "(31 :: u32) = mask 5" by (simp add: mask_eq_exp_minus_1)
  ultimately have "unat (read_chunk r 0) = unat (?c + 31) - unat (?c + 31) mod 2 ^ 5"
    by (simp only: unat_and_not_mask)
  moreover have "unat (?c + 31) = unat ?c + 31" using c by (simp add: unat_word_ariths)
  ultimately have "unat (read_chunk r 0) = (unat ?c + 31) - (unat ?c + 31) mod 32" by simp
  then show "unat ?c \<le> unat (read_chunk r 0)" "unat (read_chunk r 0) \<le> 16384"
    using round32_bounds [OF c] by simp_all
qed

lemma read_unaligned_ok:
  assumes "inv e" "length abuf = 16384" "tot + unat r \<le> length dst" "unat cur mod 4 = 0"
    "unat cur + unat r < 2 ^ 64" "unat cur + unat r \<le> fsz" "take tot dst = file_bytes content (unat cur - tot) tot" "tot \<le> unat cur"
  shows "\<exists>k dst' e'. read_unaligned rd e abuf dst tot cur r = Some (k, dst', e') \<and> inv e' \<and>
    length dst' = length dst \<and> (k = 0 \<longrightarrow> take (tot + unat r) dst' = file_bytes content (unat cur - tot) (tot + unat r))"
  using assms
proof (induction "unat r" arbitrary: e abuf dst tot cur r rule: less_induct)
  case less
  show ?case
  proof (cases "r = 0")
    case True
    then show ?thesis using less.prems by (simp add: read_unaligned.simps)
  next
    case False
    let ?c = "copy_chunk r"
    have al: "cur AND NOT 3 = cur"
    proof -
      have "(3 :: u64) = mask 2" by (simp add: mask_eq_exp_minus_1)
      then have "unat (cur AND NOT 3) = unat cur - unat cur mod 2 ^ 2" by (simp only: unat_and_not_mask)
      then show ?thesis using less.prems(4) by (simp add: word_unat_eq_iff)
    qed
    obtain k data e1 where rr: "rd e (read_chunk r 0) cur = Some (k, data, e1)" "inv e1"
      using rd_total [OF less.prems(1)] by blast
    note ch = read_chunk_aligned [OF False]
    have le: "unat ?c \<le> unat r" "?c \<noteq> 0" using copy_chunk_le [of r] False by (simp_all add: word_le_nat_alt)
    define dst1 where "dst1 = blit dst tot (sub_list (blit abuf 0 data) 0 (unat ?c))"
    have unf: "read_unaligned rd e abuf dst tot cur r = (if k \<noteq> 0 then Some (k, dst, e1)
        else read_unaligned rd e1 (blit abuf 0 data) dst1 (tot + unat ?c) (cur + ucast ?c) (r - ?c))"
      using rr(1) False al ch(3) by (subst read_unaligned.simps) (simp add: dst1_def FD_IPC_MAXRESP_def Let_def)
    show ?thesis
    proof (cases "k = 0")
      case k: True
      have dt: "data = file_bytes content (unat cur) (min (unat (read_chunk r 0)) (fsz - unat cur))"
        using rd_ok [OF less.prems(1)] rr(1) k by blast
      then have sl: "sub_list (blit abuf 0 data) 0 (unat ?c) = file_bytes content (unat cur) (unat ?c)"
        using ch(1) le(1) less.prems(6) by (simp add: sub_list_def blit_def take_file_bytes)
      have tk: "take (tot + unat ?c) dst1 = file_bytes content (unat cur - tot) (tot + unat ?c)"
        using take_blit [of tot "file_bytes content (unat cur) (unat ?c)" dst] less.prems(3,7,8) le(1)
          file_bytes_append [of content "unat cur - tot" tot "unat ?c"] by (simp add: dst1_def sl)
      have l1: "length dst1 = length dst" using less.prems(3) le(1) by (simp add: dst1_def sl)
      have uc: "unat (ucast ?c :: u64) = unat ?c"
        by (simp add: unsigned_ucast_eq take_bit_nat_eq_self order_less_trans [OF unat_u32_less])
      have cu: "unat (cur + ucast ?c) = unat cur + unat ?c"
        using less.prems(5) le(1) by (simp add: unat_word_ariths uc)
      have ru: "unat (r - ?c) = unat r - unat ?c" using le(1) by (simp add: unat_sub word_le_nat_alt)
      have lt: "unat (r - ?c) < unat r" using ru le False by (simp add: unat_gt_0)
      have md: "unat (cur + ucast ?c) mod 4 = 0 \<or> r - ?c = 0"
        using less.prems(4) cu by (auto simp: copy_chunk_def FD_IPC_MAXRESP_def mod_add_eq [symmetric])
      show ?thesis
      proof (cases "r - ?c = 0")
        case True
        then show ?thesis using unf k rr(2) tk ru le(1) l1 by (simp add: read_unaligned.simps)
      next
        case False
        then have "\<exists>k dst' e'. read_unaligned rd e1 (blit abuf 0 data) dst1 (tot + unat ?c) (cur + ucast ?c) (r - ?c) =
            Some (k, dst', e') \<and> inv e' \<and> length dst' = length dst1 \<and> (k = 0 \<longrightarrow> take (tot + unat ?c + unat (r - ?c)) dst' =
              file_bytes content (unat (cur + ucast ?c) - (tot + unat ?c)) (tot + unat ?c + unat (r - ?c)))"
          using less.prems md cu ru rr ch l1 tk le dt
          by (intro less.hyps [OF lt rr(2)]) (auto simp: blit_def)
        then show ?thesis using unf k cu ru le(1) l1 by simp
      qed
    qed (use unf rr(2) in simp)
  qed
qed

lemma dvd_read_data_ok:
  assumes "inv e" "length abuf = 16384" "unat len \<le> length dst" "unat off mod 4 = 0" "unat off + unat len < 2 ^ 64"
    "unat off + unat len \<le> fsz"
  shows "\<exists>k dst' e'. dvd_read_data rd e abuf ptr dst len off = Some (k, dst', e') \<and> inv e' \<and>
    (k = 0 \<longrightarrow> length dst' = length dst \<and> take (unat len) dst' = file_bytes content (unat off) (unat len))"
proof (cases "ptr AND 0x1F \<noteq> 0 \<or> len AND 0x1F \<noteq> 0 \<or> off AND 0x3 \<noteq> 0")
  case True
  have "\<exists>k dst' e'. read_unaligned rd e abuf dst 0 off len = Some (k, dst', e') \<and> inv e' \<and>
      length dst' = length dst \<and> (k = 0 \<longrightarrow> take (0 + unat len) dst' = file_bytes content (unat off - 0) (0 + unat len))"
    by (rule read_unaligned_ok) (use assms in \<open>simp_all add: file_bytes_def\<close>)
  then show ?thesis using True by (fastforce simp: dvd_read_data_def)
next
  case False
  obtain k data e' where r: "rd e len off = Some (k, data, e')" "inv e'" using rd_total [OF assms(1)] by blast
  then have "k = 0 \<Longrightarrow> length (blit dst 0 data) = length dst \<and>
      take (unat len) (blit dst 0 data) = file_bytes content (unat off) (unat len)"
    using rd_ok [OF assms(1), of len off data e'] assms(3,6) by (simp add: blit_def)
  then show ?thesis using False r by (simp add: dvd_read_data_def)
qed

end

section \<open>On the program's own reader\<close>

text \<open>
  What FatFs documents of \<open>f_lseek\<close> and \<open>f_read\<close> in the states where a given file is open
  (\<open>opened\<close>): the pointer goes where it is told, but not past the end, and a successful read
  delivers the file's bytes from there, up to the end of the file.
\<close>

definition fat_file_ok :: "'f fatfs \<Rightarrow> ('f \<Rightarrow> bool) \<Rightarrow> ('f \<Rightarrow> nat) \<Rightarrow> (nat \<Rightarrow> u8) \<Rightarrow> nat \<Rightarrow> bool" where
  "fat_file_ok F opened fptr content fsz \<longleftrightarrow>
     (\<forall>f off. opened f \<longrightarrow> opened (snd (f_lseek F f off)) \<and>
        (fst (f_lseek F f off) \<longrightarrow> fptr (snd (f_lseek F f off)) = min (unat off) fsz)) \<and>
     (\<forall>f n. opened f \<longrightarrow> opened (snd (snd (f_read F f n))) \<and>
        (fst (f_read F f n) \<longrightarrow> fst (snd (f_read F f n)) = file_bytes content (fptr f) (min (unat n) (fsz - fptr f))))"

interpretation fat: file_reader "\<lambda>e n off. dvd_read H F e buf n off fd" content fsz
  "\<lambda>e. fat_file_ok F opened fptr content fsz \<and> opened (e_fs e) \<and> \<not> emu_is_native e \<and> \<not> passthrough e"
  for H :: "'h hwops" and F :: "'f fatfs" and buf fd content opened fptr fsz
proof unfold_locales
  fix e :: "('h, 'f) emu" and n off
  assume c: "fat_file_ok F opened fptr content fsz \<and> opened (e_fs e) \<and> \<not> emu_is_native e \<and> \<not> passthrough e"
  obtain k f where s: "f_lseek F (e_fs e) off = (k, f)" by (metis prod.exhaust)
  obtain k2 d f2 where q: "f_read F f n = (k2, d, f2)" by (metis prod_cases3)
  have "opened f" using c s unfolding fat_file_ok_def by (metis snd_conv)
  then have "opened f2" using c q unfolding fat_file_ok_def by (metis snd_conv)
  then show "\<exists>r data e'. dvd_read H F e buf n off fd = Some (r, data, e') \<and>
      fat_file_ok F opened fptr content fsz \<and> opened (e_fs e') \<and> \<not> emu_is_native e' \<and> \<not> passthrough e'"
    using c s q \<open>opened f\<close> by (auto simp: dvd_read_def emu_is_native_def)
next
  fix e e' :: "('h, 'f) emu" and n off data
  assume c: "fat_file_ok F opened fptr content fsz \<and> opened (e_fs e) \<and> \<not> emu_is_native e \<and> \<not> passthrough e"
    and r: "dvd_read H F e buf n off fd = Some (0, data, e')"
  obtain k f where s: "f_lseek F (e_fs e) off = (k, f)" by (metis prod.exhaust)
  obtain k2 d f2 where q: "f_read F f n = (k2, d, f2)" by (metis prod_cases3)
  have k: "k" "k2" "data = d" using r c s q by (auto simp: dvd_read_def split: if_splits)
  then have f: "opened f" "fptr f = min (unat off) fsz" using c s unfolding fat_file_ok_def by (metis fst_conv snd_conv)+
  then have "d = file_bytes content (min (unat off) fsz) (min (unat n) (fsz - min (unat off) fsz))"
    using c q k unfolding fat_file_ok_def by (metis fst_conv snd_conv)
  then show "data = file_bytes content (unat off) (min (unat n) (fsz - unat off))"
    using k(3) by (cases "unat off \<le> fsz") (simp_all add: min_def file_bytes_def)
qed

text \<open>
  C9. \<open>dvd_read_data\<close> on a FatFs device returns, and when it reports success from an offset
  that is a multiple of four, the destination holds exactly the file's bytes, for every range
  inside the file and every alignment of the buffer.
\<close>

theorem dvd_read_data_correct:
  assumes "fat_file_ok F opened fptr content fsz" "opened (e_fs e)" "\<not> emu_is_native e" "\<not> passthrough e" "length abuf = 16384"
    "length dst = unat len" "unat off mod 4 = 0" "unat off + unat len < 2 ^ 64" "unat off + unat len \<le> fsz"
  shows "\<exists>k dst' e'. dvd_read_data (\<lambda>e n off. dvd_read H F e buf n off fd) e abuf ptr dst len off = Some (k, dst', e') \<and>
    (k = 0 \<longrightarrow> dst' = file_bytes content (unat off) (unat len))"
  using fat.dvd_read_data_ok [of F opened fptr content fsz e abuf len dst off H buf fd ptr] assms by fastforce

definition byte_fs :: "nat fatfs" where
  "byte_fs = \<lparr>f_mount = \<lambda>f v. (True, f), f_open = \<lambda>f p m. (True, f), f_opendir = \<lambda>f p. (True, f),
     f_close = \<lambda>f. f, f_closedir = \<lambda>f. f, f_lseek = \<lambda>f off. (True, min (unat off) 13),
     f_read = \<lambda>f n. (True, file_bytes of_nat f (min (unat n) (13 - f)), f + min (unat n) (13 - f)),
     f_readdir = \<lambda>f. (True, \<lparr>fname = [], fattrib = 0, fsize = 0\<rparr>, f), f_mkdir = \<lambda>f p. (True, f),
     f_size = \<lambda>f. 13, file_valid = \<lambda>f. True, dir_valid = \<lambda>f. True\<rparr>"

definition byte_emu :: "(unit, nat) emu" where
  "byte_emu = \<lparr>e_fd = \<lparr>f_hw = (), f_info = 0, has_fdrv = 0, fdrv_fw_ver = []\<rparr>, e_fs = 0, emu_sd_device = 3,
     passthrough = False, e_tmp = 0, e_stat = 0\<rparr>"

lemma byte_fs_ok: "fat_file_ok byte_fs (\<lambda>f. True) id of_nat 13"
  by (simp add: fat_file_ok_def byte_fs_def)

theorem dvd_read_data_correct_witness:
  "\<exists>k dst' e'. dvd_read_data (\<lambda>e n off. dvd_read (one_date_hw []) byte_fs e 0 n off 0) byte_emu (replicate 16384 0) 3
      (replicate 5 0) 5 8 = Some (k, dst', e') \<and> (k = 0 \<longrightarrow> dst' = [8, 9, 10, 11, 12])"
proof -
  have "file_bytes of_nat 8 5 = [8, 9, 10, 11, 12 :: u8]" by code_simp
  then show ?thesis
    using dvd_read_data_correct [OF byte_fs_ok, of byte_emu "replicate 16384 0" "replicate 5 0" 5 8 "one_date_hw []" 0 0 3]
    by (simp add: emu_is_native_def byte_emu_def DEVICE_FLIPPY_def)
qed



end
