(* ===== verification/FileLoad.thy ===== *)
theory FileLoad
  imports DvdRead
begin

text \<open>
  Whole files: the one-file interface of uff.c (the \<open>USE_FAT_LIBFLIPPY\<close> build that config.h
  selects) and the loaders of sd.c on top of it. \<open>None\<close> is a drive that does not answer. The
  static bounce buffer of \<open>dvd_read_data\<close> is the argument \<open>abuf\<close>: whatever it holds at the
  call. Buffers the callers pass are their contents and their address.
\<close>

section \<open>Model\<close>

record ('h, 'f) uff =
  u_emu :: "('h, 'f) emu"
  u_offset :: u32
  u_size :: u32
  u_file :: file_status

definition IPC_FILE_FLAG_DISABLECACHE :: u8 where "IPC_FILE_FLAG_DISABLECACHE = 0x01"
definition IPC_FILE_FLAG_DISABLEFASTSEEK :: u8 where "IPC_FILE_FLAG_DISABLEFASTSEEK = 0x02"

definition uf_open :: "'h hwops \<Rightarrow> 'f fatfs \<Rightarrow> ('h, 'f) uff \<Rightarrow> bytes \<Rightarrow> (bool \<times> ('h, 'f) uff) option" where
  "uf_open H F u path = do {
     e \<leftarrow> (if st_fd (u_file u) \<noteq> 0 then dvd_custom_close H F (u_emu u) (ucast (st_fd (u_file u))) else Some (u_emu u));
     (ret, e) \<leftarrow> dvd_custom_open H F e path FILE_ENTRY_TYPE_FILE (IPC_FILE_FLAG_DISABLECACHE OR IPC_FILE_FLAG_DISABLEFASTSEEK);
     let u = u\<lparr>u_emu := e, u_offset := 0, u_file := (u_file u)\<lparr>st_fd := 0\<rparr>\<rparr>;
     if ret \<noteq> 0 then Some (False, u)
     else do {
       (r, st, e) \<leftarrow> dvd_custom_status H F e;
       Some (st_result st = 0, u\<lparr>u_emu := e, u_size := ucast (bswap64 (st_fsize st)), u_file := st\<rparr>)
     }
   }"

definition uf_read :: "'h hwops \<Rightarrow> 'f fatfs \<Rightarrow> bytes \<Rightarrow> u32 \<Rightarrow> ('h, 'f) uff \<Rightarrow> u32 \<Rightarrow> bytes \<Rightarrow> u32 \<Rightarrow>
    (bool \<times> bytes \<times> ('h, 'f) uff) option" where
  "uf_read H F abuf abuf_addr u ptr dst btr = do {
     let fd = (ucast (st_fd (u_file u)) :: u32);
     let buf = (if ptr AND 0x1F \<noteq> 0 \<or> btr AND 0x1F \<noteq> 0 \<or> u_offset u AND 0x3 \<noteq> 0 then abuf_addr else ptr);
     (ret, dst, e) \<leftarrow> dvd_read_data (\<lambda>e n off. dvd_read H F e buf n off fd) (u_emu u) abuf ptr dst btr (ucast (u_offset u));
     if ret \<noteq> 0 then Some (False, dst, u\<lparr>u_emu := e\<rparr>)
     else Some (True, dst, u\<lparr>u_emu := e, u_offset := u_offset u + btr\<rparr>)
   }"

definition uf_size :: "('h, 'f) uff \<Rightarrow> u32" where
  "uf_size u = u_size u"

definition SD_OK :: int where "SD_OK = 0"
definition SD_FAIL :: int where "SD_FAIL = - 1"

definition get_file_size :: "'h hwops \<Rightarrow> 'f fatfs \<Rightarrow> ('h, 'f) uff \<Rightarrow> bytes \<Rightarrow> (int \<times> ('h, 'f) uff) option" where
  "get_file_size H F u path = do {
     (ok, u) \<leftarrow> uf_open H F u path;
     Some (if ok then sint (uf_size u) else SD_FAIL, u)
   }"

definition load_file_buffer :: "'h hwops \<Rightarrow> 'f fatfs \<Rightarrow> bytes \<Rightarrow> u32 \<Rightarrow> ('h, 'f) uff \<Rightarrow> bytes \<Rightarrow> u32 \<Rightarrow> bytes \<Rightarrow>
    (int \<times> bytes \<times> ('h, 'f) uff) option" where
  "load_file_buffer H F abuf abuf_addr u path ptr buf = do {
     (ok, u) \<leftarrow> uf_open H F u path;
     if \<not> ok then Some (SD_FAIL, buf, u)
     else do {
       (ok, buf, u) \<leftarrow> uf_read H F abuf abuf_addr u ptr buf (uf_size u);
       Some (if ok then SD_OK else SD_FAIL, buf, u)
     }
   }"

text \<open>
  \<open>load_file_dynamic\<close> allocates: \<open>memalign n\<close> is the address and the contents of a fresh buffer
  of \<open>n\<close> bytes. The second component is what \<open>*buf_ptr\<close> is set to, if it is.
\<close>

definition load_file_dynamic :: "'h hwops \<Rightarrow> 'f fatfs \<Rightarrow> (nat \<Rightarrow> (u32 \<times> bytes) option) \<Rightarrow> bytes \<Rightarrow> u32 \<Rightarrow>
    ('h, 'f) uff \<Rightarrow> bytes \<Rightarrow> (int \<times> bytes option \<times> ('h, 'f) uff) option" where
  "load_file_dynamic H F memalign abuf abuf_addr u path = do {
     (ok, u) \<leftarrow> uf_open H F u path;
     if \<not> ok then Some (SD_FAIL, None, u)
     else case memalign (unat (uf_size u)) of
       None \<Rightarrow> Some (SD_FAIL, None, u)
     | Some (ptr, buf) \<Rightarrow> do {
         (ok, buf, u) \<leftarrow> uf_read H F abuf abuf_addr u ptr buf (uf_size u);
         Some (if ok then SD_OK else SD_FAIL, Some buf, u)
       }
   }"

section \<open>Loading a file of a FatFs volume\<close>

text \<open>
  What FatFs documents of opening the file at \<open>path\<close>: when it succeeds the file is open, its
  object is valid, and \<open>f_size\<close> is its size. Closing is allowed in every state.
\<close>

definition fat_serves :: "'f fatfs \<Rightarrow> ('f \<Rightarrow> bool) \<Rightarrow> ('f \<Rightarrow> nat) \<Rightarrow> bytes \<Rightarrow> (nat \<Rightarrow> u8) \<Rightarrow> nat \<Rightarrow> bool" where
  "fat_serves F opened fptr path content fsz \<longleftrightarrow> fat_file_ok F opened fptr content fsz \<and> fsz < 2 ^ 32 \<and>
     (\<forall>f m. fst (f_open F f path m) \<longrightarrow> (let f' = snd (f_open F f path m)
        in opened f' \<and> file_valid F f' \<and> f_size F f' = of_nat fsz))"

text \<open>The states in which a FatFs device has been selected.\<close>

definition on_fat :: "nat \<Rightarrow> ('h, 'f) emu \<Rightarrow> bool" where
  "on_fat d e \<longleftrightarrow> emu_sd_device e = int d \<and> 0 < d \<and> d < length device_prio \<and> \<not> passthrough e"

definition fat_path :: "nat \<Rightarrow> bytes \<Rightarrow> bytes" where
  "fat_path d path = device_prio ! d @ [colon] @ path"

lemma on_fat_simps:
  "on_fat d e \<Longrightarrow> \<not> emu_is_native e" "on_fat d e \<Longrightarrow> dev_path e path = fat_path d path"
  "on_fat d e \<Longrightarrow> flippy_emu_mount H F e = (True, e)" "on_fat d (e\<lparr>e_fs := f\<rparr>) = on_fat d e"
  "on_fat d e \<Longrightarrow> \<not> passthrough e"
  by (auto simp: on_fat_def emu_is_native_def DEVICE_FLIPPY_def dev_path_def emu_get_device_def fat_path_def
      flippy_emu_mount_def)

text \<open>What every read keeps, and how its results are limited, carries over to \<open>dvd_read_data\<close>.\<close>

lemma read_unaligned_keeps:
  assumes rd: "\<And>e n off k data e'. P e \<Longrightarrow> rd e n off = Some (k, data, e') \<Longrightarrow> P e' \<and> (k = 0 \<or> Q)"
  shows "P e \<Longrightarrow> read_unaligned rd e abuf dst tot cur r = Some (k, dst', e') \<Longrightarrow> P e' \<and> (k = 0 \<or> Q)"
  using rd
proof (induction rd e abuf dst tot cur r arbitrary: k dst' e' rule: read_unaligned.induct)
  case (1 rd e abuf dst tot cur r)
  show ?case
  proof (cases "r = 0")
    case False
    let ?a = "cur AND NOT 3"
    let ?adj = "ucast (cur - ?a) :: u32"
    obtain k1 data e1 where rr: "rd e (read_chunk r ?adj) ?a = Some (k1, data, e1)"
      using 1(3) False by (subst (asm) read_unaligned.simps) (auto simp: bind_eq_Some_conv Let_def)
    have e1: "P e1 \<and> (k1 = 0 \<or> Q)" by (rule 1(4) [OF 1(2) rr])
    show ?thesis
    proof (cases "k1 = 0 \<and> \<not> unat ?adj + unat (copy_chunk r) > unat FD_IPC_MAXRESP")
      case True
      then show ?thesis using 1(1) [OF False refl refl rr refl refl refl _ refl _ conjunct1 [OF e1] _ 1(4)] 1(3) False rr
        by (subst (asm) read_unaligned.simps) (simp add: Let_def)
    next
      case False
      then show ?thesis using 1(3) \<open>r \<noteq> 0\<close> rr e1
        by (subst (asm) read_unaligned.simps) (auto simp: Let_def split: if_splits)
    qed
  qed (use 1(2,3) in \<open>simp add: read_unaligned.simps\<close>)
qed

lemma dvd_read_data_keeps:
  assumes rd: "\<And>e n off k data e'. P e \<Longrightarrow> rd e n off = Some (k, data, e') \<Longrightarrow> P e' \<and> (k = 0 \<or> Q)"
    and r: "P e" "dvd_read_data rd e abuf ptr dst n off = Some (k, dst', e')"
  shows "P e' \<and> (k = 0 \<or> Q)"
proof (cases "ptr AND 0x1F \<noteq> 0 \<or> n AND 0x1F \<noteq> 0 \<or> off AND 0x3 \<noteq> 0")
  case True
  then have u: "read_unaligned rd e abuf dst 0 off n = Some (k, dst', e')" using r(2) by (simp add: dvd_read_data_def)
  show ?thesis
  proof (rule read_unaligned_keeps [where P = P and Q = Q and rd = rd])
    fix e n off k data e' assume "P e" "rd e n off = Some (k, data, e')"
    then show "P e' \<and> (k = 0 \<or> Q)" by (rule rd)
  qed (rule r(1), rule u)
next
  case False
  then obtain data where "rd e n off = Some (k, data, e')" using r(2)
    by (auto simp: dvd_read_data_def bind_eq_Some_conv)
  then show ?thesis by (rule rd [OF r(1)])
qed

text \<open>A drive on which opening and reading the file never fails.\<close>

definition fat_ready :: "'f fatfs \<Rightarrow> ('f \<Rightarrow> bool) \<Rightarrow> bytes \<Rightarrow> bool" where
  "fat_ready F opened path \<longleftrightarrow> (\<forall>f m. fst (f_open F f path m)) \<and>
     (\<forall>f off. opened f \<longrightarrow> fst (f_lseek F f off)) \<and> (\<forall>f n. opened f \<longrightarrow> fst (f_read F f n))"

lemma fat_dvd_read_step:
  assumes F: "fat_file_ok F opened fptr content fsz" and e: "on_fat d e \<and> opened (e_fs e)"
    and r: "dvd_read H F e buf n off fd = Some (k, data, e')"
  shows "(on_fat d e' \<and> opened (e_fs e')) \<and> (k = 0 \<or> \<not> fat_ready F opened path)"
proof -
  obtain k1 f where s: "f_lseek F (e_fs e) off = (k1, f)" by (metis prod.exhaust)
  obtain k2 da f2 where q: "f_read F f n = (k2, da, f2)" by (metis prod_cases3)
  have "opened f" using F e s unfolding fat_file_ok_def by (metis snd_conv)
  moreover have "opened f2" using F \<open>opened f\<close> q unfolding fat_file_ok_def by (metis snd_conv)
  moreover have "fat_ready F opened path \<Longrightarrow> k1 \<and> k2"
    using e s q \<open>opened f\<close> unfolding fat_ready_def by (metis fst_conv)
  ultimately show ?thesis using r e s q by (auto simp: dvd_read_def on_fat_simps split: if_splits)
qed

lemma fat_dvd_read_data_keeps:
  assumes "fat_file_ok F opened fptr content fsz" "on_fat d e \<and> opened (e_fs e)"
    "dvd_read_data (\<lambda>e n off. dvd_read H F e buf n off fd) e abuf ptr dst n off = Some (k, dst', e')"
  shows "(on_fat d e' \<and> opened (e_fs e')) \<and> (k = 0 \<or> \<not> fat_ready F opened path)"
  by (rule dvd_read_data_keeps [where P = "\<lambda>e. on_fat d e \<and> opened (e_fs e)", OF _ assms(2,3)])
    (rule fat_dvd_read_step [OF assms(1)])

lemma bit_bswap64: "bit (bswap64 x) n \<longleftrightarrow> n < 64 \<and> bit x (8 * (7 - n div 8) + n mod 8)"
  by (auto simp: bswap64_def bit_of_be bit_be_bytes)

lemma bswap64_bswap64 [simp]: "bswap64 (bswap64 x) = x"
proof (rule bit_eqI)
  fix n assume "possible_bit TYPE(64 word) n"
  then have n: "n < 64" by (simp add: possible_bit_def)
  let ?m = "8 * (7 - n div 8) + n mod 8"
  have d: "?m div 8 = 7 - n div 8" "?m mod 8 = n mod 8" by simp_all
  have "n div 8 \<le> 7" using n by linarith
  moreover from this have "?m < 64" by linarith
  ultimately have "8 * (7 - ?m div 8) + ?m mod 8 = n" "?m < 64" unfolding d by simp_all
  then show "bit (bswap64 (bswap64 x)) n = bit x n" using n by (simp only: bit_bswap64 [of "bswap64 x"] bit_bswap64 [of x]) simp
qed

lemma uf_open_fat:
  assumes F: "fat_serves F opened fptr (fat_path d path) content fsz" and u: "on_fat d (u_emu u)"
  shows "\<exists>ok u'. uf_open H F u path = Some (ok, u') \<and> on_fat d (u_emu u') \<and>
    (ok \<longrightarrow> opened (e_fs (u_emu u')) \<and> unat (u_size u') = fsz \<and> u_offset u' = 0) \<and>
    (fat_ready F opened (fat_path d path) \<longrightarrow> ok)"
proof -
  define e0 where "e0 = (if st_fd (u_file u) \<noteq> 0 then (u_emu u)\<lparr>e_fs := f_closedir F (f_close F (e_fs (u_emu u)))\<rparr> else u_emu u)"
  have e0: "(if st_fd (u_file u) \<noteq> 0 then dvd_custom_close H F (u_emu u) (ucast (st_fd (u_file u))) else Some (u_emu u)) = Some e0"
    "on_fat d e0" using u by (auto simp: e0_def dvd_custom_close_def on_fat_simps)
  define f1 where "f1 = f_closedir F (f_close F (e_fs e0))"
  obtain ok f2 where o2: "f_open F f1 (fat_path d path) FA_READ = (ok, f2)" by (metis prod.exhaust)
  have fl: "(IPC_FILE_FLAG_DISABLECACHE OR IPC_FILE_FLAG_DISABLEFASTSEEK) AND IPC_FILE_FLAG_WRITE = 0" by code_simp
  have ty: "FILE_ENTRY_TYPE_FILE \<noteq> FILE_ENTRY_TYPE_DIR" by code_simp
  have op: "dvd_custom_open H F e0 path FILE_ENTRY_TYPE_FILE (IPC_FILE_FLAG_DISABLECACHE OR IPC_FILE_FLAG_DISABLEFASTSEEK) =
      Some (if ok then 0 else 1, e0\<lparr>e_fs := f2\<rparr>)"
    using e0(2) o2 fl ty by (simp add: dvd_custom_open_def dvd_custom_close_def on_fat_simps f1_def)
  have ok: "ok \<Longrightarrow> opened f2 \<and> file_valid F f2 \<and> f_size F f2 = of_nat fsz" "fsz < 2 ^ 32"
    using F o2 unfolding fat_serves_def Let_def by (metis fst_conv snd_conv)+
  have st: "ok \<Longrightarrow> dvd_custom_status H F (e0\<lparr>e_fs := f2\<rparr>) =
      Some (0, \<lparr>st_result = 0, st_fsize = bswap64 (of_nat fsz), st_fd = 1\<rparr>, e0\<lparr>e_fs := f2\<rparr>)"
    using e0(2) ok(1) by (simp add: dvd_custom_status_def on_fat_simps emu_status_def)
  have rd: "fat_ready F opened (fat_path d path) \<Longrightarrow> ok" using o2 unfolding fat_ready_def by (metis fst_conv)
  have sz: "unat (ucast (of_nat fsz :: u64) :: u32) = fsz"
    using ok(2) by (simp add: unsigned_ucast_eq unsigned_of_nat take_bit_nat_eq_self)
  show ?thesis
    using e0 op st sz ok(1) rd by (cases ok) (auto simp: uf_open_def on_fat_simps)
qed

lemma uf_read_fat:
  assumes F: "fat_file_ok F opened fptr content fsz" and u: "on_fat d (u_emu u)" "opened (e_fs (u_emu u))"
    and n: "u_offset u = 0" "unat n \<le> fsz" "unat n \<le> length dst" "length abuf = 16384"
  shows "\<exists>ok dst' u'. uf_read H F abuf aa u ptr dst n = Some (ok, dst', u') \<and> on_fat d (u_emu u') \<and>
    (ok \<longrightarrow> length dst' = length dst \<and> take (unat n) dst' = file_bytes content 0 (unat n)) \<and>
    (fat_ready F opened path \<longrightarrow> ok)"
proof -
  define buf where "buf = (if ptr AND 0x1F \<noteq> 0 \<or> n AND 0x1F \<noteq> 0 \<or> u_offset u AND 0x3 \<noteq> 0 then aa else ptr)"
  let ?rd = "\<lambda>e n off. dvd_read H F e buf n off (ucast (st_fd (u_file u)))"
  have "\<exists>k dst' e'. dvd_read_data ?rd (u_emu u) abuf ptr dst n 0 = Some (k, dst', e') \<and>
      (fat_file_ok F opened fptr content fsz \<and> opened (e_fs e') \<and> \<not> emu_is_native e' \<and> \<not> passthrough e') \<and>
      (k = 0 \<longrightarrow> length dst' = length dst \<and> take (unat n) dst' = file_bytes content (unat (0 :: u64)) (unat n))"
    using F u n on_fat_simps(1,5) [OF u(1)] order_less_trans [OF unat_u32_less [of n]]
    by (intro fat.dvd_read_data_ok) auto
  then obtain k dst' e' where r: "dvd_read_data ?rd (u_emu u) abuf ptr dst n 0 = Some (k, dst', e')"
    "k = 0 \<longrightarrow> length dst' = length dst \<and> take (unat n) dst' = file_bytes content 0 (unat n)" by auto
  have "(on_fat d e' \<and> opened (e_fs e')) \<and> (k = 0 \<or> \<not> fat_ready F opened path)"
    by (rule fat_dvd_read_data_keeps [OF F _ r(1)]) (use u in simp)
  then show ?thesis unfolding uf_read_def Let_def buf_def [symmetric] using r n(1) by (cases "k = 0") auto
qed

lemma get_file_size_fat:
  assumes "fat_serves F opened fptr (fat_path d path) content fsz" "on_fat d (u_emu u)" "fsz < 2 ^ 31"
  shows "\<exists>r u'. get_file_size H F u path = Some (r, u') \<and> on_fat d (u_emu u') \<and> (r = SD_FAIL \<or> r = int fsz) \<and>
    (fat_ready F opened (fat_path d path) \<longrightarrow> r = int fsz)"
proof -
  obtain ok u1 where o1: "uf_open H F u path = Some (ok, u1)" "on_fat d (u_emu u1)" "ok \<longrightarrow> unat (u_size u1) = fsz"
    "fat_ready F opened (fat_path d path) \<longrightarrow> ok" using uf_open_fat [OF assms(1,2), of H] by blast
  moreover have "ok \<Longrightarrow> sint (u_size u1) = int fsz"
    using o1(3) assms(3) by (auto simp: sint_uint signed_take_bit_int_eq_self uint_nat)
  ultimately show ?thesis by (cases ok) (auto simp: get_file_size_def uf_size_def)
qed

lemma load_file_buffer_fat:
  assumes F: "fat_serves F opened fptr (fat_path d path) content fsz" and u: "on_fat d (u_emu u)"
    and b: "fsz \<le> length buf" "length abuf = 16384"
  shows "\<exists>r buf' u'. load_file_buffer H F abuf aa u path ptr buf = Some (r, buf', u') \<and> (r = SD_OK \<or> r = SD_FAIL) \<and>
    (r = SD_OK \<longrightarrow> length buf' = length buf \<and> take fsz buf' = file_bytes content 0 fsz) \<and>
    (fat_ready F opened (fat_path d path) \<longrightarrow> r = SD_OK) \<and> on_fat d (u_emu u')"
proof -
  obtain ok u1 where o1: "uf_open H F u path = Some (ok, u1)" "on_fat d (u_emu u1)"
    "ok \<longrightarrow> opened (e_fs (u_emu u1)) \<and> unat (u_size u1) = fsz \<and> u_offset u1 = 0" "fat_ready F opened (fat_path d path) \<longrightarrow> ok"
    using uf_open_fat [OF F u, of H] by blast
  have F': "fat_file_ok F opened fptr content fsz" using F by (simp add: fat_serves_def)
  show ?thesis
  proof (cases ok)
    case True
    then obtain ok2 b2 u2 where "uf_read H F abuf aa u1 ptr buf (u_size u1) = Some (ok2, b2, u2)" "on_fat d (u_emu u2)"
      "ok2 \<longrightarrow> length b2 = length buf \<and> take (unat (u_size u1)) b2 = file_bytes content 0 (unat (u_size u1))"
      "fat_ready F opened (fat_path d path) \<longrightarrow> ok2"
      using uf_read_fat [OF F' o1(2), of "u_size u1" buf abuf H aa ptr "fat_path d path"] o1 b by fastforce
    then show ?thesis using o1 True
      by (cases ok2) (auto simp: load_file_buffer_def uf_size_def SD_OK_def SD_FAIL_def)
  qed (use o1 in \<open>auto simp: load_file_buffer_def SD_OK_def SD_FAIL_def\<close>)
qed

section \<open>Properties\<close>

text \<open>
  C11. Loading a file into memory: with a FatFs device selected, \<open>load_file_dynamic\<close> returns, and
  when it reports success the buffer it hands out is exactly the file, for every size below
  4 GiB; it does report success when there is memory and no access to the file fails.
\<close>

theorem load_file_dynamic_correct:
  assumes "fat_serves F opened fptr (fat_path d path) content fsz" "on_fat d (u_emu u)" "length abuf = 16384"
    "\<And>n p b. memalign n = Some (p, b) \<Longrightarrow> length b = n"
  shows "\<exists>r buf u'. load_file_dynamic H F memalign abuf aa u path = Some (r, buf, u') \<and>
    (r = SD_OK \<longrightarrow> buf = Some (file_bytes content 0 fsz)) \<and>
    (fat_ready F opened (fat_path d path) \<and> memalign fsz \<noteq> None \<longrightarrow> r = SD_OK)"
proof -
  obtain ok u1 where o1: "uf_open H F u path = Some (ok, u1)" "on_fat d (u_emu u1)"
    "ok \<longrightarrow> opened (e_fs (u_emu u1)) \<and> unat (u_size u1) = fsz \<and> u_offset u1 = 0"
    "fat_ready F opened (fat_path d path) \<longrightarrow> ok"
    using uf_open_fat [OF assms(1,2), of H] by blast
  show ?thesis
  proof (cases "ok \<and> memalign fsz \<noteq> None")
    case True
    then obtain p b where m: "memalign fsz = Some (p, b)" by auto
    have "fat_file_ok F opened fptr content fsz" using assms(1) by (simp add: fat_serves_def)
    then obtain ok2 b2 u2 where r2: "uf_read H F abuf aa u1 p b (u_size u1) = Some (ok2, b2, u2)"
      "ok2 \<longrightarrow> length b2 = length b \<and> take (unat (u_size u1)) b2 = file_bytes content 0 (unat (u_size u1))"
      "fat_ready F opened (fat_path d path) \<longrightarrow> ok2"
      using uf_read_fat [of F opened fptr content fsz d u1 "u_size u1" b abuf H aa p "fat_path d path"] o1 True assms(3,4) m by fastforce
    then show ?thesis using o1 True m assms(4) [OF m]
      by (auto simp: load_file_dynamic_def uf_size_def SD_OK_def SD_FAIL_def)
  next
    case False
    then consider "\<not> ok" | "ok" "memalign fsz = None" by blast
    then show ?thesis using o1 by cases (auto simp: load_file_dynamic_def uf_size_def SD_OK_def SD_FAIL_def)
  qed
qed

lemma byte_fs_serves: "fat_serves byte_fs (\<lambda>f. True) id path of_nat 13" "fat_ready byte_fs (\<lambda>f. True) path"
  using byte_fs_ok by (simp_all add: fat_serves_def fat_ready_def byte_fs_def)

definition byte_uff :: "(unit, nat) uff" where
  "byte_uff = \<lparr>u_emu = byte_emu, u_offset = 0, u_size = 0, u_file = \<lparr>st_result = 0, st_fsize = 0, st_fd = 0\<rparr>\<rparr>"

lemma byte_uff_on_fat: "on_fat 3 (u_emu byte_uff)"
  by (simp add: on_fat_def byte_uff_def byte_emu_def device_prio_def)

theorem load_file_dynamic_correct_witness:
  "\<exists>buf u'. load_file_dynamic (one_date_hw []) byte_fs (\<lambda>n. Some (0, replicate n 0)) (replicate 16384 0) 0
      byte_uff (str_bytes ''/a'') = Some (SD_OK, Some [0, 1, 2, 3, 4, 5, 6, 7, 8, 9, 10, 11, 12], u')"
proof -
  have f: "file_bytes of_nat 0 13 = [0, 1, 2, 3, 4, 5, 6, 7, 8, 9, 10, 11, 12 :: u8]" by code_simp
  show ?thesis
    using load_file_dynamic_correct [OF byte_fs_serves(1) byte_uff_on_fat, of "replicate 16384 0"
        "\<lambda>n. Some (0, replicate n 0)" "one_date_hw []" 0 "str_bytes ''/a''"] byte_fs_serves(2)
    by (auto simp: f)
qed

end
