(* ===== verification/Ini.thy ===== *)
theory Ini
  imports Prelude
begin

text \<open>
  The configuration parser (cubeboot/source/ini.c). \<open>ini_load\<close> copies the text into a buffer
  with a terminating zero and splits it in place: section headers, keys and values become
  zero-terminated strings, everything else becomes zeros. \<open>ini_get\<close> walks those strings. A
  pointer into the buffer is an index; \<open>data\<close> has one byte more than \<open>en\<close>, the offset of
  \<open>ini->end\<close>. Every loop is a terminating function, and the theorems at the end say that no
  step leaves the buffer and that printing a section and parsing it gives the values back.
\<close>

section \<open>Scanning and cutting\<close>

record ini_t =
  ini_data :: bytes
  ini_end :: nat

text \<open>\<open>p + strcspn (p, stops)\<close>.\<close>

function scan_to :: "bytes \<Rightarrow> u8 list \<Rightarrow> nat \<Rightarrow> nat" where
  "scan_to b stops p =
     (if p < length b \<and> b ! p \<noteq> 0 \<and> b ! p \<notin> set stops then scan_to b stops (p + 1) else p)"
  by pat_completeness auto
termination by (relation "measure (\<lambda>(b, s, p). length b - p)") auto

function discard_line :: "nat \<Rightarrow> bytes \<Rightarrow> nat \<Rightarrow> bytes \<times> nat" where
  "discard_line en b p =
     (if p < en \<and> b ! p \<noteq> 10 then discard_line en (b[p := 0]) (p + 1) else (b, p))"
  by pat_completeness auto
termination by (relation "measure (\<lambda>(e, b, p). e - p)") auto

text \<open>\<open>trim_back (ini, p - 1)\<close>: blanks the white space that ends before \<open>p\<close>.\<close>

fun trim_back :: "bytes \<Rightarrow> nat \<Rightarrow> bytes" where
  "trim_back b 0 = b"
| "trim_back b (Suc p) = (if b ! p = 32 \<or> b ! p = 9 \<or> b ! p = 13 then trim_back (b[p := 0]) p else b)"

function skip_blank :: "bytes \<Rightarrow> nat \<Rightarrow> bytes \<times> nat" where
  "skip_blank b p =
     (if p < length b \<and> (b ! p = 32 \<or> b ! p = 13 \<or> b ! p = 9) then skip_blank (b[p := 0]) (p + 1) else (b, p))"
  by pat_completeness auto
termination by (relation "measure (\<lambda>(b, p). length b - p)") auto

definition unescape_char :: "u8 \<Rightarrow> u8" where
  "unescape_char c = (if c = 0x72 then 13 else if c = 0x6E then 10 else if c = 0x74 then 9 else c)"

text \<open>The loop of \<open>unescape_quoted_value\<close> with its write head \<open>q\<close> and read head \<open>p\<close>.\<close>

function unescape_loop :: "nat \<Rightarrow> bytes \<Rightarrow> nat \<Rightarrow> nat \<Rightarrow> bytes \<times> nat" where
  "unescape_loop en b q p =
     (if p < en \<and> b ! p \<noteq> 34 \<and> b ! p \<noteq> 13 \<and> b ! p \<noteq> 10
      then if b ! p = 92
           then (let c = b ! (p + 1)
                 in if c = 13 \<or> c = 10 \<or> c = 0 then (b, q)
                    else unescape_loop en (b[q := unescape_char c]) (q + 1) (p + 2))
           else unescape_loop en (b[q := b ! p]) (q + 1) (p + 1)
      else (b, q))"
  by pat_completeness auto
termination by (relation "measure (\<lambda>(e, b, q, p). e - p)") auto

definition unescape_quoted_value :: "nat \<Rightarrow> bytes \<Rightarrow> nat \<Rightarrow> bytes \<times> nat" where
  "unescape_quoted_value en b p = unescape_loop en b p (p + 1)"

declare scan_to.simps [simp del] discard_line.simps [simp del] skip_blank.simps [simp del]
  unescape_loop.simps [simp del]

section \<open>Splitting\<close>

text \<open>The default case of \<open>split_data\<close>: a line that starts with a key.\<close>

definition split_key :: "nat \<Rightarrow> bytes \<Rightarrow> nat \<Rightarrow> bytes \<times> nat" where
  "split_key en b line_start =
     (let p = scan_to b [61, 10] line_start
      in if b ! p \<noteq> 61 then discard_line en b line_start
         else (let b = trim_back b p;
                   (b, p) = skip_blank (b[p := 0]) (p + 1)
               in if b ! p = 10 \<or> b ! p = 0 then discard_line en b line_start
                  else if b ! p = 34
                  then (let (b, q) = unescape_quoted_value en b p
                        in if q = p then discard_line en b line_start else discard_line en b q)
                  else (let p = scan_to b [10] p in (trim_back b p, p))))"

text \<open>One turn of the loop of \<open>split_data\<close>.\<close>

definition split_step :: "nat \<Rightarrow> bytes \<Rightarrow> nat \<Rightarrow> bytes \<times> nat" where
  "split_step en b p =
     (let c = b ! p
      in if c = 13 \<or> c = 10 \<or> c = 9 \<or> c = 32 then (b[p := 0], p + 1)
         else if c = 0 then (b, p + 1)
         else if c = 91 then (let p = scan_to b [93, 10] p in (b[p := 0], p))
         else if c = 59 then discard_line en b p
         else split_key en b p)"

text \<open>Progress, and that the steps stay inside the buffer.\<close>

lemma scan_to_ge: "p \<le> scan_to b s p"
  by (induction b s p rule: scan_to.induct) (subst scan_to.simps, auto)

lemma scan_to_step: "p < length b \<Longrightarrow> b ! p \<noteq> 0 \<Longrightarrow> b ! p \<notin> set s \<Longrightarrow> p < scan_to b s p"
  using scan_to_ge [of "p + 1" b s] by (subst scan_to.simps) simp

lemma scan_to_le: "p \<le> e \<Longrightarrow> e < length b \<Longrightarrow> b ! e = 0 \<Longrightarrow> scan_to b s p \<le> e"
proof (induction b s p rule: scan_to.induct)
  case (1 b s p)
  show ?case
  proof (cases "p < length b \<and> b ! p \<noteq> 0 \<and> b ! p \<notin> set s")
    case True
    then have "p + 1 \<le> e" using 1(2,4) by (cases "p = e") auto
    then show ?thesis using 1(1) [OF True] 1(3,4) True by (subst scan_to.simps) simp
  next
    case False
    then show ?thesis using 1(2) by (subst scan_to.simps) auto
  qed
qed

text \<open>What every cutting operation keeps: the length of the buffer and its final zero.\<close>

definition framed :: "nat \<Rightarrow> bytes \<Rightarrow> bool" where
  "framed en b \<longleftrightarrow> length b = en + 1 \<and> b ! en = 0"

lemma framed_zero: "framed en b \<Longrightarrow> framed en (b[p := 0])"
  by (cases "p = en") (auto simp: framed_def)

lemma framed_write: "framed en b \<Longrightarrow> p < en \<Longrightarrow> framed en (b[p := x])"
  by (auto simp: framed_def)

lemma discard_line_framed:
  "framed en b \<Longrightarrow> p \<le> en \<Longrightarrow> discard_line en b p = (b', p') \<Longrightarrow>
     framed en b' \<and> p \<le> p' \<and> p' \<le> en \<and> (p < en \<and> b ! p \<noteq> 10 \<longrightarrow> p < p')"
proof (induction en b p rule: discard_line.induct)
  case (1 en b p)
  show ?case
  proof (cases "p < en \<and> b ! p \<noteq> 10")
    case True
    then have "discard_line en (b[p := 0]) (p + 1) = (b', p')"
      using 1(4) by (simp add: discard_line.simps [of en b p])
    then show ?thesis using 1(1) [OF True framed_zero [OF 1(2)]] True by fastforce
  next
    case False
    then show ?thesis using 1(2,3,4) by (auto simp: discard_line.simps [of en b p])
  qed
qed

lemma trim_back_framed: "framed en b \<Longrightarrow> framed en (trim_back b p)"
  by (induction b p rule: trim_back.induct) (auto simp: framed_zero)

lemma skip_blank_framed:
  "framed en b \<Longrightarrow> p \<le> en \<Longrightarrow> skip_blank b p = (b', p') \<Longrightarrow> framed en b' \<and> p \<le> p' \<and> p' \<le> en"
proof (induction b p rule: skip_blank.induct)
  case (1 b p)
  show ?case
  proof (cases "p < length b \<and> (b ! p = 32 \<or> b ! p = 13 \<or> b ! p = 9)")
    case True
    then have "p < en" using 1(2,3) by (cases "p = en") (auto simp: framed_def)
    moreover have "skip_blank (b[p := 0]) (p + 1) = (b', p')"
      using 1(4) True by (simp add: skip_blank.simps [of b p])
    ultimately show ?thesis using 1(1) [OF True framed_zero [OF 1(2)]] by fastforce
  next
    case False
    then show ?thesis using 1(2,3,4) by (auto simp: skip_blank.simps [of b p])
  qed
qed

lemma unescape_loop_framed:
  "framed en b \<Longrightarrow> q < p \<Longrightarrow> p \<le> en \<Longrightarrow> unescape_loop en b q p = (b', q') \<Longrightarrow>
     framed en b' \<and> q \<le> q' \<and> q' \<le> en"
proof (induction en b q p rule: unescape_loop.induct)
  case (1 en b q p)
  define c where "c = b ! (p + 1)"
  consider (stop) "\<not> (p < en \<and> b ! p \<noteq> 34 \<and> b ! p \<noteq> 13 \<and> b ! p \<noteq> 10)"
    | (cut) "p < en \<and> b ! p \<noteq> 34 \<and> b ! p \<noteq> 13 \<and> b ! p \<noteq> 10" "b ! p = 92" "c = 13 \<or> c = 10 \<or> c = 0"
    | (esc) "p < en \<and> b ! p \<noteq> 34 \<and> b ! p \<noteq> 13 \<and> b ! p \<noteq> 10" "b ! p = 92" "\<not> (c = 13 \<or> c = 10 \<or> c = 0)"
    | (plain) "p < en \<and> b ! p \<noteq> 34 \<and> b ! p \<noteq> 13 \<and> b ! p \<noteq> 10" "b ! p \<noteq> 92" by blast
  then show ?case
  proof cases
    case stop
    then have "(b', q') = (b, q)" using 1(6) by (auto simp: unescape_loop.simps [of en b q p])
    then show ?thesis using 1(3-5) by simp
  next
    case cut
    then have "(b', q') = (b, q)" using 1(6) by (auto simp: unescape_loop.simps [of en b q p] c_def)
    then show ?thesis using 1(3-5) by simp
  next
    case esc
    have "p + 1 < en" using esc 1(3) by (cases "p + 1 = en") (auto simp: framed_def c_def)
    moreover have "unescape_loop en (b[q := unescape_char c]) (q + 1) (p + 2) = (b', q')"
      using 1(6) esc by (simp add: unescape_loop.simps [of en b q p] c_def)
    moreover have "framed en (b[q := unescape_char c])" using 1(3,4,5) by (intro framed_write) auto
    ultimately show ?thesis using 1(1) [OF esc(1,2) c_def esc(3)] 1(4) by fastforce
  next
    case plain
    have "unescape_loop en (b[q := b ! p]) (q + 1) (p + 1) = (b', q')"
      using 1(6) plain by (simp add: unescape_loop.simps [of en b q p])
    moreover have "framed en (b[q := b ! p])" using 1(3,4,5) by (intro framed_write) auto
    ultimately show ?thesis using 1(2) [OF plain] 1(4) plain(1) by fastforce
  qed
qed

text \<open>Cutting only writes zeros, so no line feed appears where there was none.\<close>

lemma update_zero_nth: "(b[p := 0]) ! i \<in> {b ! i, 0 :: u8}"
  by (cases "p < length b"; cases "i = p") (auto simp: list_update_beyond)

lemma trim_back_nth: "trim_back b k ! i \<in> {b ! i, 0}"
proof (induction b k rule: trim_back.induct)
  case (2 b p)
  then show ?case using update_zero_nth [of b p i] by auto
qed simp

lemma skip_blank_nth: "fst (skip_blank b p) ! i \<in> {b ! i, 0}"
proof (induction b p rule: skip_blank.induct)
  case (1 b p)
  then show ?case using update_zero_nth [of b p i]
    by (cases "p < length b \<and> (b ! p = 32 \<or> b ! p = 13 \<or> b ! p = 9)")
      (auto simp: skip_blank.simps [of b p])
qed

lemma unescape_loop_nth: "i < q \<Longrightarrow> fst (unescape_loop en b q p) ! i = b ! i"
proof (induction en b q p rule: unescape_loop.induct)
  case (1 en b q p)
  then show ?case by (subst unescape_loop.simps) (auto simp: Let_def)
qed

lemma discard_progress:
  assumes "framed en b" "p < en" "b ! p \<noteq> 10" "discard_line en b p = (b', p')"
  shows "framed en b' \<and> p < p' \<and> p' \<le> en"
  using discard_line_framed [OF assms(1) _ assms(4)] assms(2,3) by simp

lemma split_key_framed:
  assumes f: "framed en b" and p: "p < en" and c: "b ! p \<noteq> 0" "b ! p \<noteq> 10" and r: "split_key en b p = (b', p')"
  shows "framed en b' \<and> p < p' \<and> p' \<le> en"
proof -
  define q where "q = scan_to b [61, 10] p"
  have q: "p \<le> q" "q \<le> en" using scan_to_ge scan_to_le [of p en b] f p by (auto simp: q_def framed_def)
  show ?thesis
  proof (cases "b ! q = 61")
    case False
    then have "discard_line en b p = (b', p')" using r by (simp add: split_key_def q_def)
    then show ?thesis by (rule discard_progress [OF f p c(2)])
  next
    case True
    then have qe: "q < en" using f q by (cases "q = en") (auto simp: framed_def)
    obtain b1 p1 where sk: "skip_blank ((trim_back b q)[q := 0]) (q + 1) = (b1, p1)" by (metis prod.exhaust)
    have f1: "framed en b1" "q + 1 \<le> p1" "p1 \<le> en"
      using skip_blank_framed [OF framed_zero [OF trim_back_framed [OF f]] _ sk] qe by auto
    have n1: "b1 ! p \<noteq> 10"
      using skip_blank_nth [of "(trim_back b q)[q := 0]" "q + 1" p] update_zero_nth [of "trim_back b q" q p]
        trim_back_nth [of b q p] c sk by auto
    obtain b2 p2 where un: "unescape_quoted_value en b1 p1 = (b2, p2)" by (metis prod.exhaust)
    have u: "(b', p') = (if b1 ! p1 = 10 \<or> b1 ! p1 = 0 then discard_line en b1 p
        else if b1 ! p1 = 34 then if p2 = p1 then discard_line en b2 p else discard_line en b2 p2
        else (trim_back b1 (scan_to b1 [10] p1), scan_to b1 [10] p1))"
      using r True sk un unfolding split_key_def q_def [symmetric] Let_def
      by (cases "b1 ! p1 = 10 \<or> b1 ! p1 = 0"; cases "b1 ! p1 = 34"; cases "p2 = p1") simp_all
    have pl: "p1 < en" if "b1 ! p1 \<noteq> 0" using f1 that by (cases "p1 = en") (auto simp: framed_def)
    have f2: "framed en b2 \<and> p1 \<le> p2 \<and> p2 \<le> en \<and> b2 ! p = b1 ! p" if "p1 < en"
      using unescape_loop_framed [OF f1(1), of p1 "p1 + 1" b2 p2] unescape_loop_nth [of p p1 en b1 "p1 + 1"]
        un that q f1 by (simp add: unescape_quoted_value_def)
    consider (none) "b1 ! p1 = 10 \<or> b1 ! p1 = 0" | (quote) "b1 ! p1 = 34" "p1 < en"
      | (plain) "b1 ! p1 \<noteq> 10" "b1 ! p1 \<noteq> 0" "b1 ! p1 \<noteq> 34" using pl by fastforce
    then show ?thesis
    proof cases
      case none
      then have "discard_line en b1 p = (b', p')" using u by simp
      then show ?thesis by (rule discard_progress [OF f1(1) p n1])
    next
      case quote
      have g: "framed en b2" "p1 \<le> p2" "p2 \<le> en" "b2 ! p \<noteq> 10" using f2 [OF quote(2)] n1 by auto
      show ?thesis
      proof (cases "p2 = p1")
        case True
        then have "discard_line en b2 p = (b', p')" using u quote by simp
        then show ?thesis by (rule discard_progress [OF g(1) p g(4)])
      next
        case False
        then have "discard_line en b2 p2 = (b', p')" using u quote by simp
        then show ?thesis using discard_line_framed [OF g(1,3)] g(2) f1(2) q(1) by fastforce
      qed
    next
      case plain
      then have "b' = trim_back b1 (scan_to b1 [10] p1)" "p' = scan_to b1 [10] p1" using u by simp_all
      then show ?thesis using trim_back_framed [OF f1(1)] scan_to_ge [of p1 b1 "[10]"]
          scan_to_le [of p1 en b1 "[10]"] f1 q by (auto simp: framed_def)
    qed
  qed
qed

lemma split_step_framed:
  assumes f: "framed en b" and p: "p < en" and r: "split_step en b p = (b', p')"
  shows "framed en b' \<and> p < p' \<and> p' \<le> en"
proof -
  have l: "p < length b" "en < length b" "b ! en = 0" using f p by (auto simp: framed_def)
  consider (ws) "b ! p \<in> {13, 10, 9, 32}" | (nul) "b ! p = 0" | (sec) "b ! p = 91" | (com) "b ! p = 59"
    | (key) "b ! p \<notin> {13, 10, 9, 32, 0, 91, 59}" by blast
  then show ?thesis
  proof cases
    case sec
    then show ?thesis using r scan_to_step [OF l(1), of "[93, 10]"] scan_to_le [of p en b "[93, 10]"] l p f
      by (auto simp: split_step_def Let_def framed_zero)
  next
    case com
    then show ?thesis using r discard_progress [OF f p] by (simp add: split_step_def)
  next
    case key
    then show ?thesis using r split_key_framed [OF f p] by (simp add: split_step_def)
  qed (use r f p framed_zero in \<open>auto simp: split_step_def\<close>)
qed

text \<open>The loop of \<open>split_data\<close>, and that it ends inside the buffer.\<close>

partial_function (option) split_from :: "nat \<Rightarrow> bytes \<Rightarrow> nat \<Rightarrow> bytes option" where
  "split_from en b p =
     (if p < en then (let (b', p') = split_step en b p in split_from en b' p') else Some b)"

declare split_from.simps [code]

definition split_data :: "ini_t \<Rightarrow> ini_t option" where
  "split_data ini = map_option (\<lambda>b. ini\<lparr>ini_data := b\<rparr>) (split_from (ini_end ini) (ini_data ini) 0)"

definition ini_load :: "bytes \<Rightarrow> ini_t option" where
  "ini_load text = split_data \<lparr>ini_data = text @ [0], ini_end = length text\<rparr>"

lemma split_from_ends:
  "framed en b \<Longrightarrow> \<exists>b'. split_from en b p = Some b' \<and> framed en b'"
proof (induction "en - p" arbitrary: b p rule: less_induct)
  case less
  show ?case
  proof (cases "p < en")
    case True
    obtain b1 p1 where s: "split_step en b p = (b1, p1)" by (metis prod.exhaust)
    then have "framed en b1" "p < p1" using split_step_framed [OF less.prems True] by auto
    then have "\<exists>b'. split_from en b1 p1 = Some b' \<and> framed en b'" using less.hyps True by (meson diff_less_mono2)
    then show ?thesis using True s by (subst split_from.simps) simp
  next
    case False
    then show ?thesis using less.prems by (subst split_from.simps) simp
  qed
qed

section \<open>Looking up\<close>

definition tolower :: "u8 \<Rightarrow> int" where
  "tolower c = (if 65 \<le> c \<and> c \<le> 90 then uint c + 32 else uint c)"

text \<open>\<open>strcmpci\<close> on zero-terminated strings, given without the terminator.\<close>

fun strcmpci :: "bytes \<Rightarrow> bytes \<Rightarrow> int" where
  "strcmpci [] [] = 0"
| "strcmpci [] (y # ys) = 0 - tolower y"
| "strcmpci (x # xs) [] = tolower x"
| "strcmpci (x # xs) (y # ys) = (let d = tolower x - tolower y in if d \<noteq> 0 then d else strcmpci xs ys)"

definition str_at :: "bytes \<Rightarrow> nat \<Rightarrow> bytes" where
  "str_at b p = takeWhile (\<lambda>c. c \<noteq> 0) (drop p b)"

function skip_nul :: "nat \<Rightarrow> bytes \<Rightarrow> nat \<Rightarrow> nat" where
  "skip_nul en b p = (if p < en \<and> b ! p = 0 then skip_nul en b (p + 1) else p)"
  by pat_completeness auto
termination by (relation "measure (\<lambda>(e, b, p). e - p)") auto

declare skip_nul.simps [simp del]

definition next_str :: "nat \<Rightarrow> bytes \<Rightarrow> nat \<Rightarrow> nat" where
  "next_str en b p = skip_nul en b (scan_to b [] p)"

partial_function (option) get_from :: "nat \<Rightarrow> bytes \<Rightarrow> bytes option \<Rightarrow> bytes \<Rightarrow> bytes \<Rightarrow> nat \<Rightarrow> bytes option option" where
  "get_from en b section key cur p =
     (if p < en
      then if b ! p = 91 then get_from en b section key (str_at b (p + 1)) (next_str en b p)
           else (let v = next_str en b p
                 in if (case section of None \<Rightarrow> True | Some s \<Rightarrow> strcmpci s cur = 0) \<and> strcmpci (str_at b p) key = 0
                    then Some (Some (str_at b v))
                    else get_from en b section key cur (next_str en b v))
      else Some None)"

declare get_from.simps [code]

definition ini_get :: "ini_t \<Rightarrow> bytes option \<Rightarrow> bytes \<Rightarrow> bytes option option" where
  "ini_get ini section key =
     (let p = (if ini_data ini ! 0 = 0 then next_str (ini_end ini) (ini_data ini) 0 else 0)
      in get_from (ini_end ini) (ini_data ini) section key [] p)"

lemma skip_nul_bounds: "p \<le> skip_nul en b p \<and> (p \<le> en \<longrightarrow> skip_nul en b p \<le> en) \<and> (p < en \<and> b ! p = 0 \<longrightarrow> p < skip_nul en b p)"
proof (induction en b p rule: skip_nul.induct)
  case (1 en b p)
  then show ?case by (cases "p < en \<and> b ! p = 0") (auto simp: skip_nul.simps [of en b p])
qed

lemma next_str_progress:
  assumes "framed en b" "p \<le> en"
  shows "next_str en b p \<le> en" "p \<le> next_str en b p" "p < en \<Longrightarrow> p < next_str en b p"
proof -
  let ?q = "scan_to b [] p"
  have q: "p \<le> ?q" "?q \<le> en" using scan_to_ge [of p b] scan_to_le [of p en b "[]"] assms by (auto simp: framed_def)
  show "next_str en b p \<le> en" "p \<le> next_str en b p"
    using skip_nul_bounds [of ?q en b] q by (auto simp: next_str_def)
  show "p < next_str en b p" if "p < en"
  proof (cases "b ! p = 0")
    case True
    then have "?q = p" by (subst scan_to.simps) simp
    then show ?thesis using skip_nul_bounds [of p en b] True that by (simp add: next_str_def)
  next
    case False
    then have "p < ?q" using scan_to_step [of p b "[]"] that assms(1) by (simp add: framed_def)
    then show ?thesis using skip_nul_bounds [of ?q en b] by (simp add: next_str_def)
  qed
qed

lemma get_from_ends:
  "framed en b \<Longrightarrow> p \<le> en \<Longrightarrow> \<exists>v. get_from en b sec key cur p = Some v"
proof (induction "en - p" arbitrary: p cur rule: less_induct)
  case less
  show ?case
  proof (cases "p < en")
    case True
    note n1 = next_str_progress [OF less.prems]
    note n2 = next_str_progress [OF less.prems(1) n1(1)]
    have "\<exists>v. get_from en b sec key c (next_str en b p) = Some v"
      "\<exists>v. get_from en b sec key c (next_str en b (next_str en b p)) = Some v" for c
      using less.hyps less.prems(1) n1 n2 True by (meson diff_less_mono2 le_less_trans less_le_trans)+
    then show ?thesis by (subst get_from.simps) (auto simp: Let_def)
  next
    case False
    then show ?thesis by (subst get_from.simps) simp
  qed
qed

section \<open>Printing and parsing\<close>

text \<open>The lines of a file: section headers, comments and entries.\<close>

datatype item = Section bytes | Note bytes | Entry bytes bytes

fun item_text :: "item \<Rightarrow> bytes" where
  "item_text (Section s) = [91] @ s @ [93, 10]"
| "item_text (Note c) = [59] @ c @ [10]"
| "item_text (Entry k v) = k @ [61] @ v @ [10]"

definition render :: "item list \<Rightarrow> bytes" where
  "render items = concat (map item_text items)"

definition blank :: "u8 set" where "blank = {32, 9, 13}"

text \<open>Keys, values and names that need no quoting.\<close>

fun plain :: "item \<Rightarrow> bool" where
  "plain (Section s) \<longleftrightarrow> set s \<inter> {0, 10, 93} = {}"
| "plain (Note c) \<longleftrightarrow> 10 \<notin> set c"
| "plain (Entry k v) \<longleftrightarrow> k \<noteq> [] \<and> set k \<inter> {0, 10, 61} = {} \<and> hd k \<notin> blank \<union> {91, 59} \<and> last k \<notin> blank
     \<and> v \<noteq> [] \<and> set v \<inter> {0, 10} = {} \<and> hd v \<notin> blank \<union> {34} \<and> last v \<notin> blank"

text \<open>What the parser leaves of a line.\<close>

fun item_split :: "item \<Rightarrow> bytes" where
  "item_split (Section s) = [91] @ s @ [0, 0]"
| "item_split (Note c) = replicate (length c + 2) 0"
| "item_split (Entry k v) = k @ [0] @ v @ [0]"

lemma item_split_length [simp]: "length (item_split it) = length (item_text it)"
  by (cases it) simp_all

text \<open>What \<open>ini_get\<close> is meant to return.\<close>

definition ci_eq :: "bytes \<Rightarrow> bytes \<Rightarrow> bool" where
  "ci_eq a b \<longleftrightarrow> map tolower a = map tolower b"

fun lookup :: "bytes option \<Rightarrow> bytes \<Rightarrow> bytes \<Rightarrow> item list \<Rightarrow> bytes option" where
  "lookup section key cur [] = None"
| "lookup section key cur (Section s # items) = lookup section key s items"
| "lookup section key cur (Note c # items) = lookup section key cur items"
| "lookup section key cur (Entry k v # items) =
     (if (case section of None \<Rightarrow> True | Some s \<Rightarrow> ci_eq s cur) \<and> ci_eq k key then Some v
      else lookup section key cur items)"

lemma tolower_0: "tolower c = 0 \<longleftrightarrow> c = 0"
proof -
  have "0 \<le> uint c" by simp
  then have "uint c + 32 \<noteq> 0" by linarith
  then show ?thesis unfolding tolower_def by (auto simp: uint_0_iff)
qed

lemma strcmpci_eq: "0 \<notin> set a \<Longrightarrow> 0 \<notin> set b \<Longrightarrow> strcmpci a b = 0 \<longleftrightarrow> ci_eq a b"
  by (induction a b rule: strcmpci.induct) (auto simp: ci_eq_def Let_def tolower_0)

lemma scan_to_app:
  "(\<And>c. c \<in> set x \<Longrightarrow> c \<noteq> 0 \<and> c \<notin> set stops) \<Longrightarrow> d = 0 \<or> d \<in> set stops \<Longrightarrow>
     scan_to (pre @ x @ d # ys) stops (length pre) = length pre + length x"
proof (induction x arbitrary: pre)
  case Nil
  then show ?case by (subst scan_to.simps) auto
next
  case (Cons a x)
  have "scan_to ((pre @ [a]) @ x @ d # ys) stops (length (pre @ [a])) = length (pre @ [a]) + length x"
    using Cons by (intro Cons.IH) auto
  then show ?case using Cons.prems(1) [of a] by (subst scan_to.simps) (simp add: nth_append)
qed

lemma trim_back_keeps:
  assumes x: "x \<noteq> []" "last x \<notin> blank"
  shows "trim_back (pre @ x @ ys) (length pre + length x) = pre @ x @ ys"
proof -
  obtain y z where yz: "x = y @ [z]" using x(1) by (metis append_butlast_last_id)
  have "trim_back (pre @ x @ ys) (Suc (length pre + length y)) = pre @ x @ ys"
    using x(2) yz by (simp add: blank_def nth_append)
  then show ?thesis by (simp add: yz)
qed

lemma discard_line_app:
  "10 \<notin> set x \<Longrightarrow> length pre + length x < en \<Longrightarrow>
     discard_line en (pre @ x @ 10 # ys) (length pre) = (pre @ replicate (length x) 0 @ 10 # ys, length pre + length x)"
proof (induction x arbitrary: pre)
  case Nil
  then show ?case by (subst discard_line.simps) simp
next
  case (Cons a x)
  have "discard_line en ((pre @ [0]) @ x @ 10 # ys) (length (pre @ [0])) =
      ((pre @ [0]) @ replicate (length x) 0 @ 10 # ys, length (pre @ [0]) + length x)"
    using Cons by (intro Cons.IH) auto
  then show ?case using Cons.prems by (subst discard_line.simps) simp
qed

lemma split_entry_step:
  assumes kv: "plain (Entry k v)"
  shows "split_key en (pre @ k @ [61] @ v @ [10] @ ys) (length pre) =
    (pre @ k @ [0] @ v @ [10] @ ys, length pre + length k + 1 + length v)"
proof -
  let ?b = "pre @ k @ [61] @ v @ [10] @ ys" and ?b' = "pre @ k @ [0] @ v @ [10] @ ys"
  have s1: "scan_to ?b [61, 10] (length pre) = length pre + length k"
    using scan_to_app [of k "[61, 10]" 61 pre "v @ [10] @ ys"] kv by auto
  have t1: "trim_back ?b (length pre + length k) = ?b"
    using trim_back_keeps [of k pre "[61] @ v @ [10] @ ys"] kv by simp
  have c1: "?b ! (length pre + length k) = 61" by (simp add: nth_append)
  have u1: "?b[length pre + length k := 0] = ?b'" by (simp add: list_update_append)
  have hv: "?b' ! (length pre + length k + 1) = hd v" using kv by (cases v) (auto simp: nth_append)
  have sk: "skip_blank ?b' (length pre + length k + 1) = (?b', length pre + length k + 1)"
    using kv hv by (subst skip_blank.simps) (auto simp: blank_def)
  have hv2: "hd v \<noteq> 10" "hd v \<noteq> 0" "hd v \<noteq> 34" using kv by (cases v; auto)+
  have s2: "scan_to ?b' [10] (length pre + length k + 1) = length pre + length k + 1 + length v"
    using scan_to_app [of v "[10]" 10 "pre @ k @ [0]" ys] kv by auto
  have t2: "trim_back ?b' (length pre + length k + 1 + length v) = ?b'"
    using trim_back_keeps [of v "pre @ k @ [0]" "[10] @ ys"] kv by simp
  show ?thesis unfolding split_key_def Let_def s1 using t1 c1 u1 sk hv hv2 s2 t2 by simp
qed

lemma split_from_step: "p < en \<Longrightarrow> split_step en b p = (b', p') \<Longrightarrow> split_from en b p = split_from en b' p'"
  by (subst split_from.simps) simp

lemma split_newline: "length pre < en \<Longrightarrow> split_from en (pre @ 10 # ys) (length pre) = split_from en (pre @ 0 # ys) (length pre + 1)"
  by (rule split_from_step) (simp_all add: split_step_def)

lemma split_nul: "length pre < en \<Longrightarrow> split_from en (pre @ 0 # ys) (length pre) = split_from en (pre @ 0 # ys) (length pre + 1)"
  by (rule split_from_step) (simp_all add: split_step_def)

text \<open>The loop of \<open>split_data\<close> over one line.\<close>

lemma split_item:
  assumes it: "plain it" and en: "length pre + length (item_text it) \<le> en"
  shows "split_from en (pre @ item_text it @ ys) (length pre) =
    split_from en (pre @ item_split it @ ys) (length pre + length (item_text it))"
proof (cases it)
  case (Section s)
  let ?b = "pre @ [91] @ s @ [0] @ [10] @ ys"
  have "scan_to (pre @ (91 # s) @ 93 # [10] @ ys) [93, 10] (length pre) = length pre + length (91 # s)"
    using it Section by (intro scan_to_app) auto
  then have "split_step en (pre @ item_text it @ ys) (length pre) = (?b, length pre + 1 + length s)"
    by (simp add: split_step_def Section list_update_append)
  then have "split_from en (pre @ item_text it @ ys) (length pre) = split_from en ?b (length pre + 1 + length s)"
    using en Section by (intro split_from_step) auto
  also have "\<dots> = split_from en (pre @ item_split it @ ys) (length pre + length (item_text it))"
    using split_nul [of "pre @ [91] @ s" en "10 # ys"] split_newline [of "pre @ [91] @ s @ [0]" en ys] en
    by (simp add: Section)
  finally show ?thesis .
next
  case (Note c)
  let ?b = "pre @ replicate (length c + 1) 0 @ 10 # ys"
  have "discard_line en (pre @ (59 # c) @ 10 # ys) (length pre) =
      (pre @ replicate (length (59 # c)) 0 @ 10 # ys, length pre + length (59 # c))"
    using it en Note by (intro discard_line_app) auto
  then have "split_step en (pre @ item_text it @ ys) (length pre) = (?b, length pre + (length c + 1))"
    by (simp add: split_step_def Note)
  then have "split_from en (pre @ item_text it @ ys) (length pre) = split_from en ?b (length pre + (length c + 1))"
    using en Note by (intro split_from_step) auto
  also have "\<dots> = split_from en (pre @ item_split it @ ys) (length pre + length (item_text it))"
    using split_newline [of "pre @ replicate (length c + 1) 0" en ys] en
    by (simp add: Note replicate_app_Cons_same)
  finally show ?thesis .
next
  case (Entry k v)
  let ?b = "pre @ k @ [0] @ v @ [10] @ ys" and ?p = "length pre + length k + 1 + length v"
  have h: "(pre @ item_text it @ ys) ! length pre = hd k" using it Entry by (cases k) (auto simp: nth_append)
  have hk: "hd k \<notin> {13, 10, 9, 32, 0, 91, 59}" using it Entry by (cases k) (auto simp: blank_def)
  have "split_step en (pre @ item_text it @ ys) (length pre) = (?b, ?p)"
    using split_entry_step [of k v en pre ys] it h hk by (simp add: split_step_def Entry)
  then have "split_from en (pre @ item_text it @ ys) (length pre) = split_from en ?b ?p"
    using en Entry by (intro split_from_step) auto
  also have "\<dots> = split_from en (pre @ item_split it @ ys) (length pre + length (item_text it))"
    using split_newline [of "pre @ k @ [0] @ v" en ys] en by (simp add: Entry add.assoc)
  finally show ?thesis .
qed

lemma split_items:
  "(\<And>it. it \<in> set items \<Longrightarrow> plain it) \<Longrightarrow> en = length pre + length (render items) \<Longrightarrow>
     split_from en (pre @ render items @ ys) (length pre) = Some (pre @ concat (map item_split items) @ ys)"
proof (induction items arbitrary: pre)
  case Nil
  then show ?case by (subst split_from.simps) (simp add: render_def)
next
  case (Cons it items)
  have "split_from en (pre @ item_text it @ (render items @ ys)) (length pre) =
      split_from en ((pre @ item_split it) @ render items @ ys) (length (pre @ item_split it))"
    using split_item [of it pre en "render items @ ys"] Cons.prems by (simp add: render_def)
  also have "\<dots> = Some ((pre @ item_split it) @ concat (map item_split items) @ ys)"
    using Cons.prems by (intro Cons.IH) (auto simp: render_def)
  finally show ?case by (simp add: render_def)
qed

lemma ini_load_render:
  "(\<And>it. it \<in> set items \<Longrightarrow> plain it) \<Longrightarrow>
     ini_load (render items) = Some \<lparr>ini_data = concat (map item_split items) @ [0], ini_end = length (render items)\<rparr>"
  using split_items [of items "length (render items)" "[]" "[0]"] by (simp add: ini_load_def split_data_def)

text \<open>Walking what the parser left.\<close>

lemma skip_nul_zeros:
  "length pre + n \<le> en \<Longrightarrow> skip_nul en (pre @ replicate n 0 @ ys) (length pre) = skip_nul en (pre @ replicate n 0 @ ys) (length pre + n)"
proof (induction n arbitrary: pre)
  case (Suc n)
  have "skip_nul en ((pre @ [0]) @ replicate n 0 @ ys) (length (pre @ [0])) =
      skip_nul en ((pre @ [0]) @ replicate n 0 @ ys) (length (pre @ [0]) + n)"
    using Suc by (intro Suc.IH) simp
  then show ?case using Suc.prems by (subst (1) skip_nul.simps) simp
qed simp

lemma str_at_app: "0 \<notin> set x \<Longrightarrow> str_at (pre @ x @ 0 # ys) (length pre) = x"
  by (simp add: str_at_def takeWhile_append2 takeWhile_tail) (metis (mono_tags, lifting) takeWhile_eq_all_conv)

lemma next_str_app:
  "0 \<notin> set x \<Longrightarrow> length pre + length x + Suc n \<le> en \<Longrightarrow>
     next_str en (pre @ x @ replicate (Suc n) 0 @ ys) (length pre) =
     skip_nul en (pre @ x @ replicate (Suc n) 0 @ ys) (length pre + length x + Suc n)"
  using scan_to_app [of x "[]" 0 pre "replicate n 0 @ ys"] skip_nul_zeros [of "pre @ x" "Suc n" en ys]
  by (fastforce simp: next_str_def)

lemma skip_nul_stop: "p < length b \<Longrightarrow> b ! p \<noteq> 0 \<Longrightarrow> skip_nul en b p = p"
  by (subst skip_nul.simps) simp

lemma get_items:
  assumes key: "0 \<notin> set key" and sec: "\<And>s. sec = Some s \<Longrightarrow> 0 \<notin> set s"
  shows "(\<And>it. it \<in> set items \<Longrightarrow> plain it) \<Longrightarrow> 0 \<notin> set cur \<Longrightarrow> en = length pre + length (render items) \<Longrightarrow>
     b = pre @ concat (map item_split items) @ [0] \<Longrightarrow>
     get_from en b sec key cur (skip_nul en b (length pre)) = Some (lookup sec key cur items)"
proof (induction items arbitrary: pre cur)
  case Nil
  then show ?case by (subst get_from.simps, subst skip_nul.simps) (simp add: render_def)
next
  case (Cons it items)
  let ?ys = "concat (map item_split items) @ [0]"
  have en: "en = length pre + length (item_text it) + length (render items)" using Cons.prems(3) by (simp add: render_def)
  have b: "b = pre @ item_split it @ ?ys" using Cons.prems(4) by simp
  have step: "get_from en b sec key c (skip_nul en b (length pre + length (item_text it))) = Some (lookup sec key c items)"
    if "0 \<notin> set c" for c
    using Cons.IH [of c "pre @ item_split it"] Cons.prems that by (simp add: render_def)
  have pl: "plain it" using Cons.prems(1) by simp
  show ?case
  proof (cases it)
    case (Section s)
    have s0: "0 \<notin> set s" using pl Section by auto
    have at: "skip_nul en b (length pre) = length pre" using b by (intro skip_nul_stop) (auto simp: Section nth_append)
    have h: "b ! length pre = 91" "length pre < en" using b en by (auto simp: Section nth_append)
    have nx: "next_str en b (length pre) = skip_nul en b (length pre + length (item_text it))"
      using next_str_app [of "91 # s" pre 1 en ?ys] s0 en by (simp add: b Section)
    have st: "str_at b (length pre + 1) = s"
      using str_at_app [of s "pre @ [91]" "0 # ?ys"] s0 by (simp add: b Section)
    show ?thesis using step [OF s0] nx st h at by (subst get_from.simps) (simp add: Section)
  next
    case (Note c)
    have "skip_nul en b (length pre) = skip_nul en b (length pre + length (item_text it))"
      using skip_nul_zeros [of pre "length c + 2" en ?ys] en by (simp add: b Note)
    then show ?thesis using step [OF Cons.prems(2)] by (simp add: Note)
  next
    case (Entry k v)
    have k0: "0 \<notin> set k" and v0: "0 \<notin> set v" and k1: "k \<noteq> []" "hd k \<noteq> 91" using pl Entry by auto
    have h: "b ! length pre = hd k" using k1 by (cases k) (auto simp: b Entry nth_append)
    have h0: "hd k \<noteq> 0" using k0 k1 by (cases k) auto
    have at: "skip_nul en b (length pre) = length pre" using h h0 b by (intro skip_nul_stop) auto
    let ?v = "length pre + length k + 1"
    have vs: "skip_nul en b ?v = ?v"
      using v0 pl by (intro skip_nul_stop) (cases v; auto simp: b Entry nth_append)+
    have n1: "next_str en b (length pre) = ?v"
      using next_str_app [of k pre 0 en "v @ [0] @ ?ys"] k0 en vs by (simp add: b Entry)
    have n2: "next_str en b ?v = skip_nul en b (length pre + length (item_text it))"
      using next_str_app [of v "pre @ k @ [0]" 0 en ?ys] v0 en by (simp add: b Entry add.assoc)
    have s1: "str_at b (length pre) = k" using str_at_app [of k pre "v @ [0] @ ?ys"] k0 by (simp add: b Entry)
    have s2: "str_at b ?v = v" using str_at_app [of v "pre @ k @ [0]" ?ys] v0 by (simp add: b Entry)
    have m: "(case sec of None \<Rightarrow> True | Some s \<Rightarrow> strcmpci s cur = 0) \<longleftrightarrow> (case sec of None \<Rightarrow> True | Some s \<Rightarrow> ci_eq s cur)"
      using strcmpci_eq Cons.prems(2) sec by (auto split: option.split)
    have "length pre < en" using en k1 by (simp add: Entry)
    then show ?thesis using step [OF Cons.prems(2)] n1 n2 s1 s2 h k1 at m strcmpci_eq [OF k0 key]
      by (subst get_from.simps) (simp add: Entry Let_def)
  qed
qed

lemma ini_get_start: "ini_get ini section key = get_from (ini_end ini) (ini_data ini) section key [] (skip_nul (ini_end ini) (ini_data ini) 0)"
  by (cases "ini_data ini ! 0 = 0")
    (simp_all add: ini_get_def Let_def next_str_def scan_to.simps [of _ _ 0] skip_nul.simps [of _ _ 0])

section \<open>Properties\<close>

text \<open>
  C12. The parser is total: on every text \<open>ini_load\<close> returns a buffer of the length it allocated,
  still zero-terminated, and every \<open>ini_get\<close> on it returns.
\<close>

theorem ini_total:
  "\<exists>ini. ini_load text = Some ini \<and> ini_end ini = length text \<and> length (ini_data ini) = length text + 1
     \<and> ini_data ini ! length text = 0 \<and> (\<exists>v. ini_get ini section key = Some v)"
proof -
  have "framed (length text) (text @ [0])" by (simp add: framed_def)
  then obtain b where b: "split_from (length text) (text @ [0]) 0 = Some b" "framed (length text) b"
    using split_from_ends by blast
  let ?ini = "\<lparr>ini_data = b, ini_end = length text\<rparr>"
  have "ini_load text = Some ?ini" using b(1) by (simp add: ini_load_def split_data_def)
  moreover have "\<exists>v. ini_get ?ini section key = Some v"
    using get_from_ends [OF b(2)] skip_nul_bounds [of 0] by (simp add: ini_get_start)
  ultimately show ?thesis using b(2) by (auto simp: framed_def)
qed

text \<open>
  C13. A file written line by line is read back: for section headers, comments and unquoted entries
  \<open>ini_get\<close> returns the value of the first entry whose key matches without regard to case, below
  a header that matches the section asked for, and nothing when there is none.
\<close>

theorem ini_roundtrip:
  assumes "\<forall>it \<in> set items. plain it" "0 \<notin> set key" "0 \<notin> set section"
  shows "\<exists>ini. ini_load (render items) = Some ini \<and> ini_get ini (Some section) key = Some (lookup (Some section) key [] items)"
  using get_items [of key "Some section" items "[]" "length (render items)" "[]"] assms
  by (simp add: ini_load_render ini_get_start)

lemma ini_roundtrip_witness:
  "\<exists>ini. ini_load (render [Note [32, 97], Section [99, 66], Entry [75, 120] [49, 32, 50]]) = Some ini
     \<and> ini_get ini (Some [67, 98]) [107, 88] = Some (Some [49, 32, 50])"
  using ini_roundtrip [of "[Note [32, 97], Section [99, 66], Entry [75, 120] [49, 32, 50]]" "[107, 88]" "[67, 98]"]
  by (simp add: blank_def ci_eq_def tolower_def)

end
