(* ===== verification/Pcg.thy ===== *)
theory Pcg
  imports Prelude
begin

text \<open>
  Random cube colours: the PCG generator (cubeboot/source/pcg_basic.c) and
  \<open>generate_random_color\<close> of helpers.c. \<open>pcg32_boundedrand_r\<close> draws until a draw is large
  enough; its comment says that this loop ends, and \<open>boundedrand_returns\<close> proves it, from the
  full period of the underlying linear congruential generator.
\<close>

section \<open>Model\<close>

record pcg32_random_t =
  pcg_state :: u64
  pcg_inc :: u64

definition pcg_output :: "u64 \<Rightarrow> u32" where
  "pcg_output oldstate =
     (let xorshifted = (ucast (drop_bit 27 (drop_bit 18 oldstate XOR oldstate)) :: u32);
          rot = (ucast (drop_bit 59 oldstate) :: u32)
      in drop_bit (unat rot) xorshifted OR push_bit (unat ((- rot) AND 31)) xorshifted)"

definition pcg32_random_r :: "pcg32_random_t \<Rightarrow> u32 \<times> pcg32_random_t" where
  "pcg32_random_r rng =
     (pcg_output (pcg_state rng), rng\<lparr>pcg_state := pcg_state rng * 6364136223846793005 + pcg_inc rng\<rparr>)"

definition pcg32_srandom_r :: "u64 \<Rightarrow> u64 \<Rightarrow> pcg32_random_t" where
  "pcg32_srandom_r initstate initseq =
     (let rng = snd (pcg32_random_r \<lparr>pcg_state = 0, pcg_inc = push_bit 1 initseq OR 1\<rparr>)
      in snd (pcg32_random_r (rng\<lparr>pcg_state := pcg_state rng + initstate\<rparr>)))"

partial_function (option) pcg32_boundedrand_r :: "pcg32_random_t \<Rightarrow> u32 \<Rightarrow> (u32 \<times> pcg32_random_t) option" where
  "pcg32_boundedrand_r rng bound =
     (let threshold = (- bound) mod bound;
          (r, rng') = pcg32_random_r rng
      in if r \<ge> threshold then Some (r mod bound, rng') else pcg32_boundedrand_r rng' bound)"

declare pcg32_boundedrand_r.simps [code]

text \<open>\<open>tick\<close> and \<open>time\<close> are the time base and the system time.\<close>

definition generate_random_color :: "u32 \<Rightarrow> u64 \<Rightarrow> u32 option" where
  "generate_random_color tick time =
     map_option (\<lambda>(r, rng). r AND 0x00FFFFFF)
       (pcg32_boundedrand_r (pcg32_srandom_r time (ucast (0x97e6 + tick mod 0x20))) 0x00FFFFFF)"

section \<open>The generator reaches every state\<close>

definition lcg :: "int \<Rightarrow> int \<Rightarrow> int" where
  "lcg c z = 6364136223846793005 * z + c"

text \<open>\<open>2 ^ k\<close> steps are an affine map that is the identity plus \<open>2 ^ k\<close> modulo \<open>2 ^ (k + 1)\<close>.\<close>

lemma lcg_pow2:
  assumes "odd c"
  shows "\<exists>t s. \<forall>z. (lcg c ^^ (2 ^ k)) z = (1 + 2 ^ (k + 2) * t) * z + 2 ^ k * (2 * s + 1)"
proof (induction k)
  case 0
  obtain s where "c = 2 * s + 1" using assms by (elim oddE)
  then have "\<forall>z. (lcg c ^^ (2 ^ 0)) z = (1 + 2 ^ (0 + 2) * 1591034055961698251) * z + 2 ^ 0 * (2 * s + 1)"
    by (simp add: lcg_def)
  then show ?case by blast
next
  case (Suc k)
  then obtain t s where h: "\<And>z. (lcg c ^^ (2 ^ k)) z = (1 + 2 ^ (k + 2) * t) * z + 2 ^ k * (2 * s + 1)" by blast
  define t' where "t' = t + 2 ^ (k + 1) * t ^ 2"
  define s' where "s' = s + 2 ^ k * t * (2 * s + 1)"
  have "(lcg c ^^ (2 ^ Suc k)) z = (1 + 2 ^ (Suc k + 2) * t') * z + 2 ^ Suc k * (2 * s' + 1)" for z
  proof -
    have "(lcg c ^^ (2 ^ Suc k)) z = (lcg c ^^ (2 ^ k)) ((lcg c ^^ (2 ^ k)) z)"
      by (simp add: mult_2 funpow_add)
    also have "\<dots> = (1 + 2 ^ (Suc k + 2) * t') * z + 2 ^ Suc k * (2 * s' + 1)"
      unfolding h t'_def s'_def by (simp add: algebra_simps power2_eq_square power_add)
    finally show ?thesis .
  qed
  then show ?case by blast
qed

lemma lcg_reaches:
  assumes c: "odd c"
  shows "\<exists>n m. (lcg c ^^ n) x = y + 2 ^ k * m"
proof (induction k)
  case 0
  have "(lcg c ^^ 0) x = y + 2 ^ 0 * (x - y)" by simp
  then show ?case by blast
next
  case (Suc k)
  then obtain n m where nm: "(lcg c ^^ n) x = y + 2 ^ k * m" by blast
  show ?case
  proof (cases "even m")
    case True
    then obtain m' where "m = 2 * m'" by (elim evenE)
    then have "(lcg c ^^ n) x = y + 2 ^ Suc k * m'" using nm by simp
    then show ?thesis by blast
  next
    case False
    then obtain m' where m': "m = 2 * m' + 1" by (elim oddE)
    obtain t s where h: "\<And>z. (lcg c ^^ (2 ^ k)) z = (1 + 2 ^ (k + 2) * t) * z + 2 ^ k * (2 * s + 1)"
      using lcg_pow2 [OF c] by blast
    have "(lcg c ^^ (2 ^ k + n)) x = (1 + 2 ^ (k + 2) * t) * (y + 2 ^ k * m) + 2 ^ k * (2 * s + 1)"
      by (simp add: funpow_add h nm)
    also have "\<dots> = y + 2 ^ Suc k * (m' + 1 + s + 2 * t * (y + 2 ^ k * m))"
      by (simp add: m' algebra_simps power_add)
    finally show ?thesis by blast
  qed
qed

lemma lcg_word:
  "((\<lambda>s. s * 6364136223846793005 + i) ^^ n) s = (word_of_int ((lcg (uint i) ^^ n) (uint s)) :: u64)"
proof (induction n)
  case (Suc n)
  then show ?case by (simp add: lcg_def wi_hom_syms mult.commute)
qed simp

lemma pcg_state_reached:
  fixes i s y :: u64
  assumes "odd i"
  shows "\<exists>n. ((\<lambda>s. s * 6364136223846793005 + i) ^^ n) s = y"
proof -
  have "odd (uint i)" using assms by (simp add: bit_uint_iff flip: bit_0)
  then obtain n m where "(lcg (uint i) ^^ n) (uint s) = uint y + 2 ^ 64 * m" using lcg_reaches by blast
  then have "((\<lambda>s. s * 6364136223846793005 + i) ^^ n) s = (word_of_int (uint y + 2 ^ 64 * m) :: u64)"
    by (simp only: lcg_word)
  also have "\<dots> = y"
  proof -
    have "(word_of_int (uint y + 2 ^ 64 * m) :: u64) = word_of_int (uint y)"
      unfolding word_of_int_eq_iff by (simp add: take_bit_eq_mod)
    then show ?thesis by (simp only: word_of_int_uint)
  qed
  finally show ?thesis by blast
qed

section \<open>The drawing loop\<close>

lemma pcg_output_top: "pcg_output 0x07FFFE0000000000 = 0xFFFFFFFF"
  by code_simp

lemma boundedrand_after:
  assumes "bound \<noteq> 0"
  shows "pcg_output (((\<lambda>s. s * 6364136223846793005 + pcg_inc rng) ^^ n) (pcg_state rng)) \<ge> (- bound) mod bound \<Longrightarrow>
    \<exists>r rng'. pcg32_boundedrand_r rng bound = Some (r, rng') \<and> r < bound"
proof (induction n arbitrary: rng)
  case 0
  then show ?case using assms
    by (subst pcg32_boundedrand_r.simps) (simp add: pcg32_random_r_def word_mod_less_divisor word_neq_0_conv)
next
  case (Suc n)
  let ?rng = "rng\<lparr>pcg_state := pcg_state rng * 6364136223846793005 + pcg_inc rng\<rparr>"
  have "\<exists>r rng'. pcg32_boundedrand_r ?rng bound = Some (r, rng') \<and> r < bound"
    using Suc.prems by (intro Suc.IH) (simp add: funpow_Suc_right del: funpow.simps)
  then show ?case using assms
    by (subst pcg32_boundedrand_r.simps) (simp add: pcg32_random_r_def word_mod_less_divisor word_neq_0_conv)
qed

lemma boundedrand_ends:
  assumes "odd (pcg_inc rng)" "bound \<noteq> 0"
  shows "\<exists>r rng'. pcg32_boundedrand_r rng bound = Some (r, rng') \<and> r < bound"
proof -
  obtain n where "((\<lambda>s. s * 6364136223846793005 + pcg_inc rng) ^^ n) (pcg_state rng) = 0x07FFFE0000000000"
    using pcg_state_reached [OF assms(1)] by blast
  moreover have "x \<le> (0xFFFFFFFF :: u32)" for x
  proof -
    have "(0xFFFFFFFF :: u32) = - 1" by simp
    then show ?thesis by (simp only: word_order.extremum)
  qed
  ultimately show ?thesis by (intro boundedrand_after [OF assms(2), of n]) (simp only: pcg_output_top)
qed

lemma srandom_odd: "odd (pcg_inc (pcg32_srandom_r s q))"
  by (simp add: pcg32_srandom_r_def pcg32_random_r_def even_or_iff)

text \<open>
  C14. \<open>pcg32_boundedrand_r\<close> returns on every seeded generator and every bound, and its result is
  below the bound: the rejection loop ends because the generator passes through all its states.
\<close>

theorem boundedrand_returns:
  assumes "bound \<noteq> 0"
  shows "\<exists>r rng'. pcg32_boundedrand_r (pcg32_srandom_r seed q) bound = Some (r, rng') \<and> r < bound"
  using boundedrand_ends [OF srandom_odd assms] .

theorem boundedrand_returns_witness:
  "\<exists>r rng'. pcg32_boundedrand_r (pcg32_srandom_r 42 54) 6 = Some (r, rng') \<and> r < 6"
  using boundedrand_returns [of 6 42 54] by simp

lemma random_color_returns: "\<exists>c. generate_random_color tick time = Some c"
  using boundedrand_ends [OF srandom_odd, of "0xFFFFFF"] by (fastforce simp: generate_random_color_def)

end
