(* ===== verification/Arq.thy ===== *)
theory Arq
  imports Prelude
begin

text \<open>
  The ARAM request queue (patches/source/decomp_arq.c) and the start of a transfer
  (decomp_ar.c). Requests are structures at addresses (\<open>tasks\<close>), linked through \<open>next\<close>; address
  0 is the null pointer. The priority field of a request, which the code neither sets nor reads, is
  left out. \<open>dma\<close> is the transfer the engine is working on; when it ends the engine
  interrupts, which runs \<open>ARQInterruptServiceRoutine\<close>. Callbacks are addresses; \<open>arq_log\<close> records
  transfers and calls in order, and \<open>clash\<close> whether the engine was started while busy. The second
  half relates the linked lists to plain lists of requests and shows that there is never a
  clash, that every request is served completely and in order, and that all callbacks are called.
\<close>

section \<open>Model\<close>

record arq_task =
  t_next :: u32
  t_owner :: u32
  t_type :: u32
  t_source :: u32
  t_dest :: u32
  t_length :: u32
  t_callback :: u32

type_synonym transfer = "u32 \<times> u32 \<times> u32 \<times> u32"

datatype event = Transfer transfer | Called u32 u32

record arq =
  tasks :: "u32 \<Rightarrow> arq_task"
  queueHi :: u32
  tailHi :: u32
  queueLo :: u32
  tailLo :: u32
  pendingHi :: u32
  pendingLo :: u32
  callbackHi :: u32
  callbackLo :: u32
  chunkSize :: u32
  arq_init_flag :: bool
  dma :: "transfer option"
  arq_log :: "event list"
  clash :: bool

definition ARQ_TYPE_MRAM_TO_ARAM :: u32 where "ARQ_TYPE_MRAM_TO_ARAM = 0"
definition ARQ_TYPE_ARAM_TO_MRAM :: u32 where "ARQ_TYPE_ARAM_TO_MRAM = 1"
definition ARQ_CHUNK_SIZE_DEFAULT :: u32 where "ARQ_CHUNK_SIZE_DEFAULT = 4096"
definition ARQ_PRIORITY_LOW :: u32 where "ARQ_PRIORITY_LOW = 0"
definition ARQ_PRIORITY_HIGH :: u32 where "ARQ_PRIORITY_HIGH = 1"

definition ARStartDMA :: "u32 \<Rightarrow> u32 \<Rightarrow> u32 \<Rightarrow> u32 \<Rightarrow> arq \<Rightarrow> arq" where
  "ARStartDMA typ mainmem aram len s =
     s\<lparr>dma := Some (typ, mainmem, aram, len), arq_log := arq_log s @ [Transfer (typ, mainmem, aram, len)],
       clash := (clash s \<or> dma s \<noteq> None)\<rparr>"

text \<open>The call both queues make, with the main memory address first.\<close>

definition start_task :: "u32 \<Rightarrow> u32 \<Rightarrow> arq \<Rightarrow> arq" where
  "start_task t len s =
     (let k = tasks s t
      in if t_type k = ARQ_TYPE_MRAM_TO_ARAM then ARStartDMA (t_type k) (t_source k) (t_dest k) len s
         else ARStartDMA (t_type k) (t_dest k) (t_source k) len s)"

definition ARQPopTaskQueueHi :: "arq \<Rightarrow> arq" where
  "ARQPopTaskQueueHi s =
     (if queueHi s \<noteq> 0
      then (let t = queueHi s; s = start_task t (t_length (tasks s t)) s
            in s\<lparr>callbackHi := t_callback (tasks s t), pendingHi := t, queueHi := t_next (tasks s t)\<rparr>)
      else s)"

definition advance_task :: "u32 \<Rightarrow> arq_task \<Rightarrow> arq_task" where
  "advance_task n k = k\<lparr>t_length := t_length k - n, t_source := t_source k + n, t_dest := t_dest k + n\<rparr>"

definition ARQServiceQueueLo :: "arq \<Rightarrow> arq" where
  "ARQServiceQueueLo s =
     (let s = (if pendingLo s = 0 \<and> queueLo s \<noteq> 0
               then s\<lparr>pendingLo := queueLo s, queueLo := t_next (tasks s (queueLo s))\<rparr> else s);
          t = pendingLo s
      in if t \<noteq> 0
         then (let s = (if t_length (tasks s t) \<le> chunkSize s
                        then (start_task t (t_length (tasks s t)) s)\<lparr>callbackLo := t_callback (tasks s t)\<rparr>
                        else start_task t (chunkSize s) s)
               in s\<lparr>tasks := (tasks s)(t := advance_task (chunkSize s) (tasks s t))\<rparr>)
         else s)"

text \<open>The interrupt at the end of a transfer.\<close>

definition ARQInterruptServiceRoutine :: "arq \<Rightarrow> arq" where
  "ARQInterruptServiceRoutine s =
     (let s = s\<lparr>dma := None\<rparr>;
          s = (if callbackHi s \<noteq> 0
               then s\<lparr>arq_log := arq_log s @ [Called (callbackHi s) (pendingHi s)], pendingHi := 0, callbackHi := 0\<rparr>
               else if callbackLo s \<noteq> 0
               then s\<lparr>arq_log := arq_log s @ [Called (callbackLo s) (pendingLo s)], pendingLo := 0, callbackLo := 0\<rparr>
               else s);
          s = ARQPopTaskQueueHi s
      in if pendingHi s = 0 then ARQServiceQueueLo s else s)"

definition ARQInit :: "arq \<Rightarrow> arq" where
  "ARQInit s =
     (if arq_init_flag s then s
      else s\<lparr>queueHi := 0, queueLo := 0, chunkSize := ARQ_CHUNK_SIZE_DEFAULT, pendingHi := 0, pendingLo := 0,
             callbackHi := 0, callbackLo := 0, arq_init_flag := True\<rparr>)"

definition enqueueLo :: "u32 \<Rightarrow> arq \<Rightarrow> arq" where
  "enqueueLo task s =
     (let s = (if queueLo s \<noteq> 0 then s\<lparr>tasks := (tasks s)(tailLo s := (tasks s (tailLo s))\<lparr>t_next := task\<rparr>)\<rparr>
               else s\<lparr>queueLo := task\<rparr>)
      in s\<lparr>tailLo := task\<rparr>)"

definition enqueueHi :: "u32 \<Rightarrow> arq \<Rightarrow> arq" where
  "enqueueHi task s =
     (let s = (if queueHi s \<noteq> 0 then s\<lparr>tasks := (tasks s)(tailHi s := (tasks s (tailHi s))\<lparr>t_next := task\<rparr>)\<rparr>
               else s\<lparr>queueHi := task\<rparr>)
      in s\<lparr>tailHi := task\<rparr>)"

text \<open>\<open>hack\<close> is the address of \<open>__ARQCallbackHack\<close>.\<close>

definition ARQPostRequest :: "u32 \<Rightarrow> u32 \<Rightarrow> u32 \<Rightarrow> u32 \<Rightarrow> u32 \<Rightarrow> u32 \<Rightarrow> u32 \<Rightarrow> u32 \<Rightarrow> u32 \<Rightarrow> arq \<Rightarrow> arq" where
  "ARQPostRequest hack task owner typ priority source dest len callback s =
     (let s = s\<lparr>tasks := (tasks s)(task := \<lparr>t_next = 0, t_owner = owner, t_type = typ, t_source = source, t_dest = dest,
                t_length = len, t_callback = (if callback \<noteq> 0 then callback else hack)\<rparr>)\<rparr>;
          s = (if priority = ARQ_PRIORITY_LOW then enqueueLo task s
               else if priority = ARQ_PRIORITY_HIGH then enqueueHi task s else s)
      in if pendingHi s = 0 \<and> pendingLo s = 0
         then (let s = ARQPopTaskQueueHi s in if pendingHi s = 0 then ARQServiceQueueLo s else s)
         else s)"

section \<open>Linked lists\<close>

primrec linked :: "(u32 \<Rightarrow> arq_task) \<Rightarrow> u32 \<Rightarrow> u32 list \<Rightarrow> bool" where
  "linked h p [] \<longleftrightarrow> p = 0"
| "linked h p (t # ts) \<longleftrightarrow> p = t \<and> t \<noteq> 0 \<and> linked h (t_next (h t)) ts"

lemma linked_null: "linked h p ts \<Longrightarrow> p = 0 \<longleftrightarrow> ts = []"
  by (cases ts) auto

lemma linked_nonnull: "linked h p ts \<Longrightarrow> t \<in> set ts \<Longrightarrow> t \<noteq> 0"
  by (induction ts arbitrary: p) auto

lemma linked_cong: "(\<And>t. t \<in> set ts \<Longrightarrow> t_next (h t) = t_next (h' t)) \<Longrightarrow> linked h p ts \<longleftrightarrow> linked h' p ts"
  by (induction ts arbitrary: p) auto

lemma linked_snoc:
  "linked h p ts \<Longrightarrow> ts \<noteq> [] \<Longrightarrow> distinct ts \<Longrightarrow> x \<notin> set ts \<Longrightarrow> x \<noteq> 0 \<Longrightarrow> t_next (h x) = 0 \<Longrightarrow>
     linked (h(last ts := (h (last ts))\<lparr>t_next := x\<rparr>)) p (ts @ [x])"
proof (induction ts arbitrary: p)
  case (Cons t ts)
  show ?case
  proof (cases "ts = []")
    case False
    let ?h = "h(last ts := (h (last ts))\<lparr>t_next := x\<rparr>)"
    have "linked ?h (t_next (h t)) (ts @ [x])" by (rule Cons.IH) (use Cons.prems False in auto)
    moreover have "last ts \<noteq> t" using Cons.prems(3) False by (metis distinct.simps(2) last_in_set)
    ultimately show ?thesis using Cons.prems False by (simp del: fun_upd_apply add: fun_upd_other)
  qed (use Cons.prems in auto)
qed simp

text \<open>
  The state with its queues as lists: \<open>hi\<close> and \<open>lo\<close> wait, and the requests in service are the
  pending ones. No request is in two places, and the engine is working exactly if one is in
  service.
\<close>

definition in_service :: "u32 \<Rightarrow> u32 list" where
  "in_service p = (if p = 0 then [] else [p])"

definition queues_ok :: "arq \<Rightarrow> u32 list \<Rightarrow> u32 list \<Rightarrow> bool" where
  "queues_ok s hi lo \<longleftrightarrow>
     linked (tasks s) (queueHi s) hi \<and> (hi \<noteq> [] \<longrightarrow> tailHi s = last hi) \<and>
     linked (tasks s) (queueLo s) lo \<and> (lo \<noteq> [] \<longrightarrow> tailLo s = last lo) \<and>
     distinct (in_service (pendingHi s) @ in_service (pendingLo s) @ hi @ lo) \<and>
     (\<forall>t \<in> set (hi @ lo @ in_service (pendingLo s)). t_callback (tasks s t) \<noteq> 0) \<and>
     chunkSize s \<noteq> 0 \<and> \<not> clash s"

definition arq_inv :: "arq \<Rightarrow> u32 list \<Rightarrow> u32 list \<Rightarrow> bool" where
  "arq_inv s hi lo \<longleftrightarrow> queues_ok s hi lo \<and>
     (callbackHi s \<noteq> 0 \<longleftrightarrow> pendingHi s \<noteq> 0) \<and> (callbackLo s \<noteq> 0 \<longrightarrow> pendingLo s \<noteq> 0 \<and> pendingHi s = 0) \<and>
     (dma s \<noteq> None \<longleftrightarrow> pendingHi s \<noteq> 0 \<or> pendingLo s \<noteq> 0) \<and>
     (pendingHi s = 0 \<and> pendingLo s = 0 \<longrightarrow> hi = [] \<and> lo = [])"

text \<open>The events a request gives rise to: one transfer, or one per chunk, then its callback.\<close>

definition task_args :: "arq_task \<Rightarrow> u32 \<Rightarrow> transfer" where
  "task_args k len = (if t_type k = ARQ_TYPE_MRAM_TO_ARAM then (t_type k, t_source k, t_dest k, len)
     else (t_type k, t_dest k, t_source k, len))"

definition task_transfer :: "arq_task \<Rightarrow> u32 \<Rightarrow> event" where
  "task_transfer k len = Transfer (task_args k len)"

function chunk_events :: "u32 \<Rightarrow> arq_task \<Rightarrow> event list" where
  "chunk_events c k =
     (if t_length k \<le> c \<or> c = 0 then [task_transfer k (t_length k)]
      else task_transfer k c # chunk_events c (advance_task c k))"
  by pat_completeness auto

termination
proof (relation "measure (\<lambda>(c, k). unat (t_length k))")
  fix c :: u32 and k :: arq_task
  assume "\<not> (t_length k \<le> c \<or> c = 0)"
  then have "unat (t_length k - c) = unat (t_length k) - unat c" "0 < unat c" "unat c < unat (t_length k)"
    by (auto simp: unat_sub word_le_nat_alt unat_gt_0)
  then show "((c, advance_task c k), (c, k)) \<in> measure (\<lambda>(c, k). unat (t_length k))"
    by (simp add: advance_task_def)
qed simp

declare chunk_events.simps [simp del]

definition hi_events :: "(u32 \<Rightarrow> arq_task) \<Rightarrow> u32 \<Rightarrow> event list" where
  "hi_events h t = [task_transfer (h t) (t_length (h t)), Called (t_callback (h t)) t]"

definition lo_events :: "u32 \<Rightarrow> (u32 \<Rightarrow> arq_task) \<Rightarrow> u32 \<Rightarrow> event list" where
  "lo_events c h t = chunk_events c (h t) @ [Called (t_callback (h t)) t]"

text \<open>What is still to happen if nothing more is posted.\<close>

definition plan :: "arq \<Rightarrow> u32 list \<Rightarrow> u32 list \<Rightarrow> event list" where
  "plan s hi lo =
     (if pendingHi s \<noteq> 0 then [Called (callbackHi s) (pendingHi s)] else []) @
     (if callbackLo s \<noteq> 0 then [Called (callbackLo s) (pendingLo s)] else []) @
     concat (map (hi_events (tasks s)) hi) @
     (if pendingLo s \<noteq> 0 \<and> callbackLo s = 0 then lo_events (chunkSize s) (tasks s) (pendingLo s) else []) @
     concat (map (lo_events (chunkSize s) (tasks s)) lo)"

lemma start_task_simps [simp]:
  "tasks (start_task t n s) = tasks s" "queueHi (start_task t n s) = queueHi s" "tailHi (start_task t n s) = tailHi s"
  "queueLo (start_task t n s) = queueLo s" "tailLo (start_task t n s) = tailLo s" "pendingHi (start_task t n s) = pendingHi s"
  "pendingLo (start_task t n s) = pendingLo s" "callbackHi (start_task t n s) = callbackHi s"
  "callbackLo (start_task t n s) = callbackLo s" "chunkSize (start_task t n s) = chunkSize s"
  "arq_log (start_task t n s) = arq_log s @ [task_transfer (tasks s t) n]" "dma (start_task t n s) = Some (task_args (tasks s t) n)"
  "clash (start_task t n s) = (clash s \<or> dma s \<noteq> None)"
  by (simp_all add: start_task_def ARStartDMA_def Let_def task_transfer_def task_args_def)

text \<open>The state between the two halves of the interrupt: the engine is idle, and no callback is due.\<close>

definition arq_idle :: "arq \<Rightarrow> u32 list \<Rightarrow> u32 list \<Rightarrow> bool" where
  "arq_idle s hi lo \<longleftrightarrow> queues_ok s hi lo \<and> dma s = None \<and> pendingHi s = 0 \<and> callbackHi s = 0 \<and> callbackLo s = 0"

definition arq_next :: "arq \<Rightarrow> arq" where
  "arq_next s = (let s = ARQPopTaskQueueHi s in if pendingHi s = 0 then ARQServiceQueueLo s else s)"

lemma lo_events_cong: "h t = h' t \<Longrightarrow> lo_events c h t = lo_events c h' t"
  by (simp add: lo_events_def)

lemma hi_events_cong: "h t = h' t \<Longrightarrow> hi_events h t = hi_events h' t"
  by (simp add: hi_events_def)

lemma next_hi:
  assumes "arq_idle s (t # hi) lo"
  shows "arq_inv (arq_next s) hi lo" "arq_log (arq_next s) @ plan (arq_next s) hi lo = arq_log s @ plan s (t # hi) lo"
    "arq_log (arq_next s) = arq_log s @ [task_transfer (tasks s t) (t_length (tasks s t))]"
  using assms by (auto simp: arq_idle_def queues_ok_def arq_inv_def arq_next_def ARQPopTaskQueueHi_def Let_def
      in_service_def plan_def hi_events_def split: if_splits)

text \<open>Serving a low-priority request that is already the pending one.\<close>

definition serve_pending :: "arq \<Rightarrow> arq" where
  "serve_pending s =
     (let t = pendingLo s;
          s = (if t_length (tasks s t) \<le> chunkSize s
               then (start_task t (t_length (tasks s t)) s)\<lparr>callbackLo := t_callback (tasks s t)\<rparr>
               else start_task t (chunkSize s) s)
      in s\<lparr>tasks := (tasks s)(t := advance_task (chunkSize s) (tasks s t))\<rparr>)"

lemma service_lo_pending: "pendingLo s \<noteq> 0 \<Longrightarrow> ARQServiceQueueLo s = serve_pending s"
  by (simp add: ARQServiceQueueLo_def serve_pending_def Let_def)

lemma service_lo_queue:
  "pendingLo s = 0 \<Longrightarrow> queueLo s \<noteq> 0 \<Longrightarrow>
     ARQServiceQueueLo s = serve_pending (s\<lparr>pendingLo := queueLo s, queueLo := t_next (tasks s (queueLo s))\<rparr>)"
  by (simp add: ARQServiceQueueLo_def serve_pending_def Let_def)

lemma advance_task_simps [simp]:
  "t_next (advance_task n k) = t_next k" "t_callback (advance_task n k) = t_callback k" "t_type (advance_task n k) = t_type k"
  by (simp_all add: advance_task_def)

lemma serve_pending_inv:
  assumes i: "arq_idle s [] lo" and t: "pendingLo s \<noteq> 0"
  shows "arq_inv (serve_pending s) [] lo"
    "arq_log (serve_pending s) @ plan (serve_pending s) [] lo = arq_log s @ plan s [] lo"
    "length (arq_log s) < length (arq_log (serve_pending s))"
proof -
  let ?t = "pendingLo s" and ?s = "serve_pending s"
  let ?h = "(tasks s)(?t := advance_task (chunkSize s) (tasks s ?t))"
  have tk: "tasks ?s = ?h" by (simp add: serve_pending_def Let_def)
  have nl: "?t \<notin> set lo" and q: "queues_ok s [] lo" using i t by (auto simp: arq_idle_def queues_ok_def in_service_def)
  have l: "linked ?h p lo \<longleftrightarrow> linked (tasks s) p lo" for p by (rule linked_cong) auto
  have e: "concat (map (lo_events (chunkSize s) ?h) lo) = concat (map (lo_events (chunkSize s) (tasks s)) lo)"
    using nl by (intro arg_cong [where f = concat] map_cong) (auto intro: lo_events_cong)
  have q': "queues_ok ?s [] lo"
    using q i t l nl unfolding queues_ok_def tk by (auto simp: serve_pending_def Let_def arq_idle_def)
  show "arq_inv ?s [] lo"
    using i t q' by (auto simp: arq_inv_def arq_idle_def serve_pending_def Let_def task_args_def)
  show "arq_log ?s @ plan ?s [] lo = arq_log s @ plan s [] lo"
  proof (cases "t_length (tasks s ?t) \<le> chunkSize s")
    case True
    have "t_callback (tasks s ?t) \<noteq> 0" using q t by (simp add: queues_ok_def in_service_def)
    then show ?thesis using i t e True
      by (simp add: plan_def arq_idle_def serve_pending_def Let_def lo_events_def chunk_events.simps [of _ "tasks s ?t"])
  next
    case False
    moreover have "chunkSize s \<noteq> 0" using q by (simp add: queues_ok_def)
    ultimately show ?thesis using i t e
      by (simp add: plan_def arq_idle_def serve_pending_def Let_def lo_events_def chunk_events.simps [of _ "tasks s ?t"])
  qed
  show "length (arq_log s) < length (arq_log ?s)" by (simp add: serve_pending_def Let_def)
qed

lemma next_lo:
  assumes i: "arq_idle s [] lo"
  shows "\<exists>lo'. arq_inv (arq_next s) [] lo' \<and> arq_log (arq_next s) @ plan (arq_next s) [] lo' = arq_log s @ plan s [] lo \<and>
    (plan s [] lo \<noteq> [] \<longrightarrow> length (arq_log s) < length (arq_log (arq_next s)))"
proof -
  have n: "arq_next s = ARQServiceQueueLo s" using i
    by (auto simp: arq_next_def ARQPopTaskQueueHi_def Let_def arq_idle_def queues_ok_def)
  consider (mid) "pendingLo s \<noteq> 0" | (none) "pendingLo s = 0" "lo = []" | (first) t lo' where "pendingLo s = 0" "lo = t # lo'"
    by (cases lo) auto
  then show ?thesis
  proof cases
    case mid
    then show ?thesis using serve_pending_inv [OF i mid] by (auto simp: n service_lo_pending)
  next
    case none
    then have "ARQServiceQueueLo s = s" using i by (auto simp: ARQServiceQueueLo_def arq_idle_def queues_ok_def)
    moreover have "plan s [] [] = []" using i none by (simp add: plan_def arq_idle_def)
    moreover have "arq_inv s [] []" using i none by (auto simp: arq_inv_def arq_idle_def)
    ultimately show ?thesis using none n by auto
  next
    case (first t lo')
    let ?s = "s\<lparr>pendingLo := queueLo s, queueLo := t_next (tasks s (queueLo s))\<rparr>"
    have q: "queueLo s = t" "t \<noteq> 0" using i first by (auto simp: arq_idle_def queues_ok_def)
    have "queues_ok ?s [] lo'" using i first
      by (auto simp: arq_idle_def queues_ok_def in_service_def split: if_splits)
    then have i': "arq_idle ?s [] lo'" using i by (simp add: arq_idle_def)
    have "plan ?s [] lo' = plan s [] lo" using i first q by (simp add: plan_def arq_idle_def)
    then show ?thesis using serve_pending_inv [OF i'] q first(1) by (auto simp: n service_lo_queue)
  qed
qed

lemma next_any:
  assumes i: "arq_idle s hi lo"
  shows "\<exists>hi' lo'. arq_inv (arq_next s) hi' lo' \<and> arq_log (arq_next s) @ plan (arq_next s) hi' lo' = arq_log s @ plan s hi lo \<and>
    (plan s hi lo \<noteq> [] \<longrightarrow> length (arq_log s) < length (arq_log (arq_next s)))"
proof (cases hi)
  case (Cons t ts)
  then show ?thesis using next_hi [of s t ts lo] i by fastforce
qed (use next_lo i in blast)

lemma next_log_grows: "length (arq_log s) \<le> length (arq_log (arq_next s))"
proof -
  have h: "length (arq_log s) \<le> length (arq_log (ARQPopTaskQueueHi s))" for s
    by (simp add: ARQPopTaskQueueHi_def Let_def)
  have "length (arq_log s) \<le> length (arq_log (ARQServiceQueueLo s))" for s
    by (simp add: ARQServiceQueueLo_def Let_def)
  then show ?thesis using h [of s] by (simp add: arq_next_def Let_def) (meson le_trans)
qed

text \<open>One interrupt: the plan advances.\<close>

lemma interrupt_step:
  assumes i: "arq_inv s hi lo" and d: "dma s \<noteq> None"
  shows "\<exists>hi' lo'. arq_inv (ARQInterruptServiceRoutine s) hi' lo' \<and>
    arq_log (ARQInterruptServiceRoutine s) @ plan (ARQInterruptServiceRoutine s) hi' lo' = arq_log s @ plan s hi lo \<and>
    length (arq_log s) < length (arq_log (ARQInterruptServiceRoutine s))"
proof -
  define s1 where "s1 = (let s = s\<lparr>dma := None\<rparr> in
    if callbackHi s \<noteq> 0 then s\<lparr>arq_log := arq_log s @ [Called (callbackHi s) (pendingHi s)], pendingHi := 0, callbackHi := 0\<rparr>
    else if callbackLo s \<noteq> 0 then s\<lparr>arq_log := arq_log s @ [Called (callbackLo s) (pendingLo s)], pendingLo := 0, callbackLo := 0\<rparr>
    else s)"
  have n: "ARQInterruptServiceRoutine s = arq_next s1"
    by (simp add: ARQInterruptServiceRoutine_def arq_next_def s1_def Let_def)
  have q: "queues_ok s1 hi lo" using i
    by (auto simp: s1_def Let_def arq_inv_def queues_ok_def in_service_def split: if_splits)
  have e: "arq_idle s1 hi lo" using i q by (auto simp: s1_def Let_def arq_inv_def arq_idle_def split: if_splits)
  have p: "arq_log s1 @ plan s1 hi lo = arq_log s @ plan s hi lo"
    using i by (auto simp: s1_def Let_def arq_inv_def plan_def)
  have l: "length (arq_log s) < length (arq_log s1) \<or> plan s1 hi lo \<noteq> []"
  proof (cases "callbackHi s = 0 \<and> callbackLo s = 0")
    case True
    then have "pendingLo s \<noteq> 0" "s1 = s\<lparr>dma := None\<rparr>" using i d by (auto simp: arq_inv_def s1_def Let_def)
    then show ?thesis using True by (simp add: plan_def lo_events_def)
  qed (auto simp: s1_def Let_def)
  have le: "length (arq_log s) \<le> length (arq_log s1)" by (auto simp: s1_def Let_def)
  obtain hi' lo' where r: "arq_inv (arq_next s1) hi' lo'" "arq_log (arq_next s1) @ plan (arq_next s1) hi' lo' = arq_log s1 @ plan s1 hi lo"
    "plan s1 hi lo \<noteq> [] \<longrightarrow> length (arq_log s1) < length (arq_log (arq_next s1))" using next_any [OF e] by blast
  have "length (arq_log s) < length (arq_log (arq_next s1))"
  proof (cases "plan s1 hi lo = []")
    case True
    then have "length (arq_log (arq_next s1)) \<ge> length (arq_log s1)" using next_log_grows by simp
    then show ?thesis using l True by linarith
  qed (use r(3) le in linarith)
  then show ?thesis using r p n by auto
qed

section \<open>Posting\<close>

text \<open>Appending to a queue changes the link of its last request only.\<close>

definition same_work :: "arq_task \<Rightarrow> arq_task \<Rightarrow> bool" where
  "same_work k k' \<longleftrightarrow> k\<lparr>t_next := 0\<rparr> = k'\<lparr>t_next := 0\<rparr>"

lemma same_work_link [simp]: "same_work (k\<lparr>t_next := x\<rparr>) k" "same_work k k"
  by (simp_all add: same_work_def)

lemma same_work_task: "same_work k k' \<Longrightarrow> k' = k\<lparr>t_next := t_next k'\<rparr>"
  by (cases k; cases k') (simp add: same_work_def)

lemma chunk_events_link: "chunk_events c (k\<lparr>t_next := x\<rparr>) = chunk_events c k"
proof (induction c k rule: chunk_events.induct)
  case (1 c k)
  have t: "task_transfer (k\<lparr>t_next := x\<rparr>) n = task_transfer k n" for n by (simp add: task_transfer_def task_args_def)
  have a: "advance_task c (k\<lparr>t_next := x\<rparr>) = (advance_task c k)\<lparr>t_next := x\<rparr>" by (simp add: advance_task_def)
  show ?case using 1 by (subst (1 2) chunk_events.simps) (simp add: t a)
qed

lemma same_work_events:
  assumes "same_work (h t) (h' t)"
  shows "lo_events c h t = lo_events c h' t" "hi_events h t = hi_events h' t"
proof -
  obtain x where x: "h' t = (h t)\<lparr>t_next := x\<rparr>" using same_work_task [OF assms] by blast
  show "lo_events c h t = lo_events c h' t" "hi_events h t = hi_events h' t"
    by (simp_all add: lo_events_def hi_events_def x chunk_events_link) (simp_all add: task_transfer_def task_args_def)
qed

lemma same_work_plan:
  assumes "\<And>t. t \<in> set (in_service (pendingLo s) @ hi @ lo) \<Longrightarrow> same_work (tasks s t) (h t)"
  shows "plan (s\<lparr>tasks := h\<rparr>) hi lo = plan s hi lo"
proof -
  have "map (hi_events h) hi = map (hi_events (tasks s)) hi"
    "map (lo_events (chunkSize s) h) lo = map (lo_events (chunkSize s) (tasks s)) lo"
    using assms by (auto intro!: map_cong same_work_events [symmetric])
  moreover have "pendingLo s \<noteq> 0 \<Longrightarrow> lo_events (chunkSize s) h (pendingLo s) = lo_events (chunkSize s) (tasks s) (pendingLo s)"
    using assms by (intro same_work_events(1) [symmetric]) (simp add: in_service_def)
  ultimately show ?thesis by (simp add: plan_def del: map_eq_conv)
qed

lemma enqueueLo_ok:
  assumes q: "queues_ok s hi lo" and t: "task \<notin> set (in_service (pendingHi s) @ in_service (pendingLo s) @ hi @ lo)" "task \<noteq> 0"
    "t_next (tasks s task) = 0" "t_callback (tasks s task) \<noteq> 0"
  shows "queues_ok (enqueueLo task s) hi (lo @ [task])"
    "plan (enqueueLo task s) hi (lo @ [task]) = plan s hi lo @ lo_events (chunkSize s) (tasks s) task"
proof -
  show "queues_ok (enqueueLo task s) hi (lo @ [task])"
  proof (cases "lo = []")
    case True
    then show ?thesis using q t by (auto simp: queues_ok_def enqueueLo_def Let_def)
  next
    case False
    let ?h = "(tasks s)(last lo := (tasks s (last lo))\<lparr>t_next := task\<rparr>)"
    have nz: "queueLo s \<noteq> 0" "tailLo s = last lo"
      using q False linked_null [of "tasks s" "queueLo s" lo] by (auto simp: queues_ok_def)
    have "last lo \<notin> set hi" using q last_in_set [OF False] by (auto simp: queues_ok_def)
    then have "linked (tasks s) (queueHi s) hi = linked ?h (queueHi s) hi" by (intro linked_cong) auto
    then have "linked ?h (queueHi s) hi" using q by (simp add: queues_ok_def)
    moreover have "linked ?h (queueLo s) (lo @ [task])" using q t False by (intro linked_snoc) (auto simp: queues_ok_def)
    ultimately show ?thesis using q t nz False by (auto simp: queues_ok_def enqueueLo_def Let_def)
  qed
  let ?e = "enqueueLo task s"
  have w: "same_work (tasks s t) (tasks ?e t)" for t by (simp add: enqueueLo_def Let_def same_work_def)
  have "plan ?e hi (lo @ [task]) = plan (s\<lparr>tasks := tasks ?e\<rparr>) hi (lo @ [task])"
    by (simp add: enqueueLo_def Let_def plan_def)
  also have "\<dots> = plan s hi (lo @ [task])" by (rule same_work_plan) (rule w)
  finally show "plan ?e hi (lo @ [task]) = plan s hi lo @ lo_events (chunkSize s) (tasks s) task" by (simp add: plan_def)
qed

lemma enqueueHi_ok:
  assumes q: "queues_ok s hi lo" and t: "task \<notin> set (in_service (pendingHi s) @ in_service (pendingLo s) @ hi @ lo)" "task \<noteq> 0"
    "t_next (tasks s task) = 0" "t_callback (tasks s task) \<noteq> 0"
  shows "queues_ok (enqueueHi task s) (hi @ [task]) lo"
    "plan (enqueueHi task s) (hi @ [task]) lo = plan s (hi @ [task]) lo"
proof -
  show "queues_ok (enqueueHi task s) (hi @ [task]) lo"
  proof (cases "hi = []")
    case True
    then show ?thesis using q t by (auto simp: queues_ok_def enqueueHi_def Let_def)
  next
    case False
    let ?h = "(tasks s)(last hi := (tasks s (last hi))\<lparr>t_next := task\<rparr>)"
    have nz: "queueHi s \<noteq> 0" "tailHi s = last hi"
      using q False linked_null [of "tasks s" "queueHi s" hi] by (auto simp: queues_ok_def)
    have "last hi \<notin> set lo" using q last_in_set [OF False] by (auto simp: queues_ok_def)
    then have "linked (tasks s) (queueLo s) lo = linked ?h (queueLo s) lo" by (intro linked_cong) auto
    then have "linked ?h (queueLo s) lo" using q by (simp add: queues_ok_def)
    moreover have "linked ?h (queueHi s) (hi @ [task])" using q t False by (intro linked_snoc) (auto simp: queues_ok_def)
    ultimately show ?thesis using q t nz False by (auto simp: queues_ok_def enqueueHi_def Let_def)
  qed
  let ?e = "enqueueHi task s"
  have w: "same_work (tasks s t) (tasks ?e t)" for t by (simp add: enqueueHi_def Let_def same_work_def)
  have "plan ?e (hi @ [task]) lo = plan (s\<lparr>tasks := tasks ?e\<rparr>) (hi @ [task]) lo"
    by (simp add: enqueueHi_def Let_def plan_def)
  also have "\<dots> = plan s (hi @ [task]) lo" by (rule same_work_plan) (rule w)
  finally show "plan ?e (hi @ [task]) lo = plan s (hi @ [task]) lo" .
qed

text \<open>Filling in a request that is in no queue changes neither queues nor plan.\<close>

lemma fill_task_ok:
  assumes q: "queues_ok s hi lo" and t: "task \<notin> set (in_service (pendingLo s) @ hi @ lo)"
  shows "queues_ok (s\<lparr>tasks := (tasks s)(task := k)\<rparr>) hi lo" "plan (s\<lparr>tasks := (tasks s)(task := k)\<rparr>) hi lo = plan s hi lo"
proof -
  let ?h = "(tasks s)(task := k)"
  have "linked ?h (queueHi s) hi = linked (tasks s) (queueHi s) hi" "linked ?h (queueLo s) lo = linked (tasks s) (queueLo s) lo"
    using t by (auto intro!: linked_cong)
  then show "queues_ok (s\<lparr>tasks := ?h\<rparr>) hi lo" using q t by (auto simp: queues_ok_def)
  show "plan (s\<lparr>tasks := ?h\<rparr>) hi lo = plan s hi lo" by (rule same_work_plan) (use t in auto)
qed

text \<open>The request a call of \<open>ARQPostRequest\<close> describes.\<close>

definition posted :: "u32 \<Rightarrow> u32 \<Rightarrow> u32 \<Rightarrow> u32 \<Rightarrow> u32 \<Rightarrow> u32 \<Rightarrow> u32 \<Rightarrow> arq_task" where
  "posted hack owner typ source dest len callback = \<lparr>t_next = 0, t_owner = owner, t_type = typ, t_source = source,
     t_dest = dest, t_length = len, t_callback = (if callback \<noteq> 0 then callback else hack)\<rparr>"

lemma post_unfold:
  "ARQPostRequest hack task owner typ priority source dest len callback s =
     (let s = s\<lparr>tasks := (tasks s)(task := posted hack owner typ source dest len callback)\<rparr>;
          s = (if priority = ARQ_PRIORITY_LOW then enqueueLo task s
               else if priority = ARQ_PRIORITY_HIGH then enqueueHi task s else s)
      in if pendingHi s = 0 \<and> pendingLo s = 0 then arq_next s else s)"
  by (simp add: ARQPostRequest_def arq_next_def posted_def Let_def)

lemma enqueue_simps [simp]:
  "pendingHi (enqueueLo t s) = pendingHi s" "pendingLo (enqueueLo t s) = pendingLo s" "callbackHi (enqueueLo t s) = callbackHi s"
  "callbackLo (enqueueLo t s) = callbackLo s" "dma (enqueueLo t s) = dma s" "arq_log (enqueueLo t s) = arq_log s"
  "pendingHi (enqueueHi t s) = pendingHi s" "pendingLo (enqueueHi t s) = pendingLo s" "callbackHi (enqueueHi t s) = callbackHi s"
  "callbackLo (enqueueHi t s) = callbackLo s" "dma (enqueueHi t s) = dma s" "arq_log (enqueueHi t s) = arq_log s"
  by (simp_all add: enqueueLo_def enqueueHi_def Let_def)

text \<open>Once enqueued, the request is started if nothing is in service; the plan does not change.\<close>

lemma start_if_free:
  assumes i: "arq_inv s hi0 lo0" and s: "pendingHi s' = pendingHi s" "pendingLo s' = pendingLo s" "callbackHi s' = callbackHi s"
    "callbackLo s' = callbackLo s" "dma s' = dma s" "arq_log s' = arq_log s" and q: "queues_ok s' hi lo"
  shows "\<exists>hi' lo'. (let r = (if pendingHi s' = 0 \<and> pendingLo s' = 0 then arq_next s' else s') in
    arq_inv r hi' lo' \<and> arq_log r @ plan r hi' lo' = arq_log s @ plan s' hi lo)"
proof (cases "pendingHi s' = 0 \<and> pendingLo s' = 0")
  case True
  then have "arq_idle s' hi lo" using i s q by (auto simp: arq_idle_def arq_inv_def simp del: not_None_eq)
  then show ?thesis using next_any [of s' hi lo] True s by (auto simp: Let_def)
next
  case False
  then have "arq_inv s' hi lo" using i s q by (auto simp: arq_inv_def)
  then show ?thesis using False s by auto
qed

lemma post_low:
  fixes owner ty source dest len :: u32
  assumes i: "arq_inv s hi lo" and t: "task \<notin> set (in_service (pendingHi s) @ in_service (pendingLo s) @ hi @ lo)" "task \<noteq> 0"
    and c: "callback \<noteq> 0 \<or> hack \<noteq> 0"
  defines "k \<equiv> posted hack owner ty source dest len callback"
  defines "r \<equiv> ARQPostRequest hack task owner ty ARQ_PRIORITY_LOW source dest len callback s"
  shows "\<exists>hi' lo'. arq_inv r hi' lo' \<and>
    arq_log r @ plan r hi' lo' = arq_log s @ plan s hi lo @ chunk_events (chunkSize s) k @ [Called (t_callback k) task]"
proof -
  let ?s = "s\<lparr>tasks := (tasks s)(task := k)\<rparr>"
  have q: "queues_ok ?s hi lo" "plan ?s hi lo = plan s hi lo"
    using fill_task_ok [of s hi lo task k] i t by (auto simp: arq_inv_def)
  have e: "queues_ok (enqueueLo task ?s) hi (lo @ [task])"
    "plan (enqueueLo task ?s) hi (lo @ [task]) = plan ?s hi lo @ lo_events (chunkSize s) (tasks ?s) task"
    using enqueueLo_ok [OF q(1), of task] t c by (simp_all add: k_def posted_def)
  show ?thesis
    using start_if_free [OF i _ _ _ _ _ _ e(1)] e(2) q(2)
    by (simp add: r_def post_unfold k_def [symmetric] Let_def lo_events_def)
qed

lemma post_high:
  fixes owner ty source dest len :: u32
  assumes i: "arq_inv s hi lo" and t: "task \<notin> set (in_service (pendingHi s) @ in_service (pendingLo s) @ hi @ lo)" "task \<noteq> 0"
    and c: "callback \<noteq> 0 \<or> hack \<noteq> 0"
  defines "k \<equiv> posted hack owner ty source dest len callback"
  defines "r \<equiv> ARQPostRequest hack task owner ty ARQ_PRIORITY_HIGH source dest len callback s"
  shows "\<exists>hi' lo'. arq_inv r hi' lo' \<and>
    arq_log r @ plan r hi' lo' = arq_log s @ plan (s\<lparr>tasks := (tasks s)(task := k)\<rparr>) (hi @ [task]) lo"
proof -
  let ?s = "s\<lparr>tasks := (tasks s)(task := k)\<rparr>"
  have q: "queues_ok ?s hi lo" using fill_task_ok [of s hi lo task k] i t by (auto simp: arq_inv_def)
  have e: "queues_ok (enqueueHi task ?s) (hi @ [task]) lo"
    "plan (enqueueHi task ?s) (hi @ [task]) lo = plan ?s (hi @ [task]) lo"
    using enqueueHi_ok [OF q, of task] t c by (simp_all add: k_def posted_def)
  have h: "ARQ_PRIORITY_HIGH \<noteq> ARQ_PRIORITY_LOW" by (simp add: ARQ_PRIORITY_HIGH_def ARQ_PRIORITY_LOW_def)
  show ?thesis
    using start_if_free [OF i _ _ _ _ _ _ e(1)] e(2) h
    by (simp add: r_def post_unfold k_def [symmetric] Let_def)
qed

section \<open>Runs\<close>

definition called :: "event list \<Rightarrow> u32 list" where
  "called es = concat (map (\<lambda>e. case e of Called c t \<Rightarrow> [t] | Transfer d \<Rightarrow> []) es)"

lemma called_simps [simp]:
  "called [] = []" "called (Called c t # es) = t # called es" "called (task_transfer k n # es) = called es"
  "called (xs @ ys) = called xs @ called ys"
  by (simp_all add: called_def task_transfer_def)

lemma called_chunks [simp]: "called (chunk_events c k) = []"
proof (induction c k rule: chunk_events.induct)
  case (1 c k)
  then show ?case by (subst chunk_events.simps) simp
qed

definition outstanding :: "arq \<Rightarrow> u32 list \<Rightarrow> u32 list \<Rightarrow> u32 set" where
  "outstanding s hi lo = set (in_service (pendingHi s) @ in_service (pendingLo s) @ hi @ lo)"

lemma called_plan:
  assumes "arq_inv s hi lo"
  shows "distinct (called (plan s hi lo))" "set (called (plan s hi lo)) = outstanding s hi lo"
proof -
  have h: "called (concat (map (hi_events h) ts)) = ts" for h ts by (induction ts) (simp_all add: hi_events_def)
  have l: "called (concat (map (lo_events c h) ts)) = ts" for c h ts by (induction ts) (simp_all add: lo_events_def)
  show "distinct (called (plan s hi lo))" "set (called (plan s hi lo)) = outstanding s hi lo"
    using assms by (auto simp: plan_def h l lo_events_def arq_inv_def queues_ok_def in_service_def outstanding_def split: if_splits)
qed

text \<open>
  Runs of the queue: it is initialised, requests that are not outstanding are posted, and
  transfers end. \<open>out\<close> is the set of requests posted whose callback has not been called.
\<close>

inductive arq_reach :: "u32 \<Rightarrow> arq \<Rightarrow> u32 set \<Rightarrow> bool" for hack :: u32 where
  reach_init: "\<not> arq_init_flag s \<Longrightarrow> dma s = None \<Longrightarrow> \<not> clash s \<Longrightarrow> arq_reach hack (ARQInit s) {}"
| reach_post: "arq_reach hack s out \<Longrightarrow> task \<noteq> 0 \<Longrightarrow> task \<notin> out \<Longrightarrow> callback \<noteq> 0 \<or> hack \<noteq> 0 \<Longrightarrow>
    priority = ARQ_PRIORITY_LOW \<or> priority = ARQ_PRIORITY_HIGH \<Longrightarrow>
    arq_reach hack (ARQPostRequest hack task owner ty priority source dest len callback s) (insert task out)"
| reach_end: "arq_reach hack s out \<Longrightarrow> dma s \<noteq> None \<Longrightarrow>
    arq_reach hack (ARQInterruptServiceRoutine s)
      (out - set (called (drop (length (arq_log s)) (arq_log (ARQInterruptServiceRoutine s)))))"

text \<open>Events that were planned and have happened are no longer outstanding.\<close>

lemma plan_progress:
  assumes i: "arq_inv s hi lo" "arq_inv s' hi' lo'" and l: "arq_log s' @ plan s' hi' lo' = arq_log s @ plan s hi lo"
    and n: "length (arq_log s) \<le> length (arq_log s')"
  shows "\<exists>es. arq_log s' = arq_log s @ es \<and> plan s hi lo = es @ plan s' hi' lo' \<and>
    outstanding s' hi' lo' = outstanding s hi lo - set (called es) \<and> distinct (called es) \<and> set (called es) \<subseteq> outstanding s hi lo"
proof -
  define es where "es = drop (length (arq_log s)) (arq_log s')"
  have "take (length (arq_log s)) (arq_log s' @ plan s' hi' lo') = arq_log s" by (simp only: l append_eq_conv_conj) simp
  then have e: "arq_log s' = arq_log s @ es" using n by (metis append_take_drop_id es_def take_append diff_is_0_eq' take_0 append_Nil2)
  then have p: "plan s hi lo = es @ plan s' hi' lo'" using l by simp
  have "distinct (called es @ called (plan s' hi' lo'))" using called_plan(1) [OF i(1)] p by simp
  then show ?thesis using e p called_plan(2) [OF i(1)] called_plan(2) [OF i(2)] by auto
qed

lemma next_log: "\<exists>es. arq_log (arq_next s) = arq_log s @ es \<and> called es = []"
proof -
  have h: "\<exists>es. arq_log (ARQPopTaskQueueHi s) = arq_log s @ es \<and> called es = []" for s
    by (simp add: ARQPopTaskQueueHi_def Let_def)
  have l: "\<exists>es. arq_log (ARQServiceQueueLo s) = arq_log s @ es \<and> called es = []" for s
    by (simp add: ARQServiceQueueLo_def Let_def)
  obtain es where es: "arq_log (ARQPopTaskQueueHi s) = arq_log s @ es" "called es = []" using h by blast
  obtain es' where "arq_log (ARQServiceQueueLo (ARQPopTaskQueueHi s)) = arq_log (ARQPopTaskQueueHi s) @ es'" "called es' = []"
    using l by blast
  then show ?thesis using es by (auto simp: arq_next_def Let_def)
qed

lemma post_log:
  "\<exists>es. arq_log (ARQPostRequest hack task owner ty priority source dest len callback s) = arq_log s @ es \<and> called es = []"
proof -
  define s' where "s' = (let s = s\<lparr>tasks := (tasks s)(task := posted hack owner ty source dest len callback)\<rparr> in
    if priority = ARQ_PRIORITY_LOW then enqueueLo task s else if priority = ARQ_PRIORITY_HIGH then enqueueHi task s else s)"
  have "arq_log s' = arq_log s" by (simp add: s'_def Let_def)
  then show ?thesis using next_log [of s'] unfolding post_unfold Let_def s'_def [unfolded Let_def, symmetric] by auto
qed

lemma post_outstanding:
  assumes i: "arq_inv s hi lo" and t: "task \<noteq> 0" "task \<notin> outstanding s hi lo" and c: "callback \<noteq> 0 \<or> hack \<noteq> 0"
    and p: "priority = ARQ_PRIORITY_LOW \<or> priority = ARQ_PRIORITY_HIGH"
  shows "\<exists>hi' lo'. arq_inv (ARQPostRequest hack task owner ty priority source dest len callback s) hi' lo' \<and>
    outstanding (ARQPostRequest hack task owner ty priority source dest len callback s) hi' lo' = insert task (outstanding s hi lo)"
proof -
  let ?r = "ARQPostRequest hack task owner ty priority source dest len callback s"
  let ?k = "posted hack owner ty source dest len callback"
  let ?s = "s\<lparr>tasks := (tasks s)(task := ?k)\<rparr>"
  have t': "task \<notin> set (in_service (pendingHi s) @ in_service (pendingLo s) @ hi @ lo)" using t(2) by (simp add: outstanding_def)
  have pl: "plan ?s hi lo = plan s hi lo" using fill_task_ok(2) [of s hi lo task ?k] i t' by (simp add: arq_inv_def)
  have "set (called (plan ?s (hi @ [task]) lo)) = insert task (set (called (plan ?s hi lo)))"
    by (auto simp: plan_def hi_events_def)
  then have hi: "set (called (plan ?s (hi @ [task]) lo)) = insert task (outstanding s hi lo)"
    using pl called_plan(2) [OF i] by simp
  obtain hi' lo' q where r: "arq_inv ?r hi' lo'" "arq_log ?r @ plan ?r hi' lo' = arq_log s @ q"
    "set (called q) = insert task (outstanding s hi lo)"
  proof (cases "priority = ARQ_PRIORITY_LOW")
    case True
    have "set (called (plan s hi lo @ chunk_events (chunkSize s) ?k @ [Called (t_callback ?k) task])) = insert task (outstanding s hi lo)"
      using called_plan(2) [OF i] by simp
    then show ?thesis using post_low [OF i t' t(1) c, of owner ty source dest len] True by (metis that)
  next
    case False
    then have "priority = ARQ_PRIORITY_HIGH" using p by simp
    then show ?thesis using post_high [OF i t' t(1) c, of owner ty source dest len] hi by (metis that)
  qed
  obtain es where "arq_log ?r = arq_log s @ es" "called es = []" using post_log by blast
  then have "called (plan ?r hi' lo') = called q" using r(2) by (metis append_assoc append_self_conv2 called_simps(4) same_append_eq)
  then show ?thesis using r called_plan(2) [OF r(1)] by auto
qed

lemma reach_inv: "arq_reach hack s out \<Longrightarrow> \<exists>hi lo. arq_inv s hi lo \<and> outstanding s hi lo = out"
proof (induction rule: arq_reach.induct)
  case (reach_init s)
  then have "arq_inv (ARQInit s) [] []" "outstanding (ARQInit s) [] [] = {}"
    by (simp_all add: arq_inv_def queues_ok_def ARQInit_def in_service_def ARQ_CHUNK_SIZE_DEFAULT_def outstanding_def)
  then show ?case by blast
next
  case (reach_post s out task callback priority owner ty source dest len)
  then show ?case using post_outstanding by blast
next
  case (reach_end s out)
  then obtain hi lo where i: "arq_inv s hi lo" "outstanding s hi lo = out" by blast
  obtain hi' lo' where r: "arq_inv (ARQInterruptServiceRoutine s) hi' lo'"
    "arq_log (ARQInterruptServiceRoutine s) @ plan (ARQInterruptServiceRoutine s) hi' lo' = arq_log s @ plan s hi lo"
    "length (arq_log s) < length (arq_log (ARQInterruptServiceRoutine s))"
    using interrupt_step [OF i(1) reach_end.hyps(2)] by blast
  obtain es where "arq_log (ARQInterruptServiceRoutine s) = arq_log s @ es"
    "outstanding (ARQInterruptServiceRoutine s) hi' lo' = outstanding s hi lo - set (called es)"
    using plan_progress [OF i(1) r(1,2)] r(3) by auto
  then show ?case using r(1) i(2) by (intro exI [of _ hi'] exI [of _ lo']) simp
qed

text \<open>Letting the transfers end: everything planned happens.\<close>

lemma drain:
  "arq_inv s hi lo \<Longrightarrow> \<exists>n. let s' = (ARQInterruptServiceRoutine ^^ n) s in
     arq_inv s' [] [] \<and> dma s' = None \<and> arq_log s' = arq_log s @ plan s hi lo \<and>
     (\<forall>m < n. dma ((ARQInterruptServiceRoutine ^^ m) s) \<noteq> None)"
proof (induction "length (plan s hi lo)" arbitrary: s hi lo rule: less_induct)
  case less
  show ?case
  proof (cases "dma s = None")
    case True
    then have "arq_inv s [] []" "hi = []" "lo = []" using less.prems by (auto simp: arq_inv_def)
    moreover have "plan s [] [] = []" using True less.prems by (auto simp: arq_inv_def plan_def)
    ultimately show ?thesis using True by (intro exI [of _ 0]) simp
  next
    case False
    let ?i = "ARQInterruptServiceRoutine"
    obtain hi' lo' where r: "arq_inv (?i s) hi' lo'" "arq_log (?i s) @ plan (?i s) hi' lo' = arq_log s @ plan s hi lo"
      "length (arq_log s) < length (arq_log (?i s))" using interrupt_step [OF less.prems False] by blast
    have "length (plan (?i s) hi' lo') < length (plan s hi lo)" using arg_cong [OF r(2), of length] r(3) by simp
    then obtain n where n: "let s' = (?i ^^ n) (?i s) in arq_inv s' [] [] \<and> dma s' = None \<and>
        arq_log s' = arq_log (?i s) @ plan (?i s) hi' lo' \<and> (\<forall>m < n. dma ((?i ^^ m) (?i s)) \<noteq> None)"
      using less.hyps r(1) by blast
    have "\<forall>m < Suc n. dma ((?i ^^ m) s) \<noteq> None"
    proof (intro allI impI)
      fix m assume "m < Suc n"
      then show "dma ((?i ^^ m) s) \<noteq> None" using n False by (cases m) (auto simp: Let_def funpow_Suc_right simp del: funpow.simps)
    qed
    then show ?thesis using n r(2) by (intro exI [of _ "Suc n"]) (simp add: Let_def funpow_Suc_right del: funpow.simps)
  qed
qed

section \<open>What the transfers do\<close>

type_synonym memory = "u32 \<Rightarrow> u8"

text \<open>A transfer between main memory and ARAM, in the direction of its type.\<close>

fun do_transfer :: "transfer \<Rightarrow> memory \<times> memory \<Rightarrow> memory \<times> memory" where
  "do_transfer (ty, mm, ar, len) (m, aram) =
     (if ty = ARQ_TYPE_MRAM_TO_ARAM then (m, \<lambda>a. if a - ar < len then m (mm + (a - ar)) else aram a)
      else (\<lambda>a. if a - mm < len then aram (ar + (a - mm)) else m a, aram))"

fun do_event :: "event \<Rightarrow> memory \<times> memory \<Rightarrow> memory \<times> memory" where
  "do_event (Transfer t) mm = do_transfer t mm"
| "do_event (Called c t) mm = mm"

lemma split_less:
  fixes d c len :: u32
  assumes "c < len"
  shows "(d - c < len - c \<or> d < c) \<longleftrightarrow> d < len" "d < c \<Longrightarrow> \<not> d - c < len - c"
  using assms unat_u32_less [of len] by (auto simp: word_less_nat_alt unat_sub_if' split: if_splits)

lemma do_transfer_split:
  assumes "c < len"
  shows "do_transfer (ty, mm + c, ar + c, len - c) (do_transfer (ty, mm, ar, c) mem) = do_transfer (ty, mm, ar, len) mem"
proof -
  obtain m aram where mem: "mem = (m, aram)" by (metis prod.exhaust)
  have s: "a - (x + c) = (a - x) - c" "y + c + (a - x - c) = y + (a - x)" for a x y :: u32 by simp_all
  have i: "(if d - c < len - c then v else if d < c then v else g) = (if d < len then v else g)" for d :: u32 and v g :: u8
    using split_less [OF assms, of d] by auto
  show ?thesis unfolding mem do_transfer.simps
    by (cases "ty = ARQ_TYPE_MRAM_TO_ARAM") (simp_all only: if_True if_False do_transfer.simps s i refl)
qed

lemma chunk_events_copy:
  "fold do_event (chunk_events c k) mem = do_event (task_transfer k (t_length k)) mem"
proof (induction c k arbitrary: mem rule: chunk_events.induct)
  case (1 c k)
  show ?case
  proof (cases "t_length k \<le> c \<or> c = 0")
    case False
    then have c: "c < t_length k" by auto
    have "fold do_event (chunk_events c k) mem =
        do_event (task_transfer (advance_task c k) (t_length k - c)) (do_event (task_transfer k c) mem)"
      using 1 [OF False] False by (subst chunk_events.simps) (simp add: advance_task_def)
    also have "\<dots> = do_event (task_transfer k (t_length k)) mem"
      using do_transfer_split [OF c] by (simp add: task_transfer_def task_args_def advance_task_def del: do_transfer.simps)
    finally show ?thesis .
  qed (simp add: chunk_events.simps)
qed

text \<open>Every transfer of a chunked request fits the chunk.\<close>

lemma chunk_events_bound:
  "c \<noteq> 0 \<Longrightarrow> Transfer (ty, mm, ar, n) \<in> set (chunk_events c k) \<Longrightarrow> n \<le> c"
proof (induction c k rule: chunk_events.induct)
  case (1 c k)
  then show ?case by (subst (asm) chunk_events.simps) (auto simp: task_transfer_def task_args_def split: if_splits)
qed

section \<open>Properties\<close>

text \<open>
  C17. The transfer engine is never started while it is busy: in every run of posts and
  interrupts, at both priorities, and it is busy exactly while some request is outstanding.
\<close>

theorem arq_never_clashes:
  assumes "arq_reach hack s out"
  shows "\<not> clash s \<and> (dma s \<noteq> None \<longleftrightarrow> out \<noteq> {})"
proof -
  obtain hi lo where i: "arq_inv s hi lo" "outstanding s hi lo = out" using reach_inv [OF assms] by blast
  then show ?thesis by (auto simp: arq_inv_def queues_ok_def outstanding_def in_service_def simp del: not_None_eq)
qed

text \<open>
  C18. No request is lost: from every reachable state, when the transfers end one after the other
  and nothing more is posted, the callback of every outstanding request is called, each exactly
  once, no other callback is called, and the engine comes to rest.
\<close>

theorem arq_calls_every_callback:
  assumes "arq_reach hack s out"
  shows "\<exists>n es. arq_log ((ARQInterruptServiceRoutine ^^ n) s) = arq_log s @ es \<and> distinct (called es) \<and> set (called es) = out \<and>
    dma ((ARQInterruptServiceRoutine ^^ n) s) = None \<and> (\<forall>m < n. dma ((ARQInterruptServiceRoutine ^^ m) s) \<noteq> None)"
proof -
  obtain hi lo where i: "arq_inv s hi lo" "outstanding s hi lo = out" using reach_inv [OF assms] by blast
  then show ?thesis using drain [OF i(1)] called_plan [OF i(1)] by (metis (no_types, lifting))
qed

text \<open>
  C19. A request is served completely: when a low-priority request is posted to a queue at rest and
  the transfers end, only transfers of at most the chunk size happen before its callback, and
  together they copy exactly the bytes asked for, in the direction asked for.
\<close>

theorem arq_request_served:
  fixes owner ty source dest len :: u32
  assumes "arq_reach hack s {}" "task \<noteq> 0" "callback \<noteq> 0"
  defines "r \<equiv> ARQPostRequest hack task owner ty ARQ_PRIORITY_LOW source dest len callback s"
  shows "\<exists>n es. arq_log ((ARQInterruptServiceRoutine ^^ n) r) = arq_log s @ es @ [Called callback task] \<and>
    dma ((ARQInterruptServiceRoutine ^^ n) r) = None \<and> called es = [] \<and>
    (\<forall>ty mm ar k. Transfer (ty, mm, ar, k) \<in> set es \<longrightarrow> k \<le> chunkSize s) \<and>
    (\<forall>mem. fold do_event es mem = do_transfer
       (if ty = ARQ_TYPE_MRAM_TO_ARAM then (ty, source, dest, len) else (ty, dest, source, len)) mem)"
proof -
  let ?k = "posted hack owner ty source dest len callback"
  obtain hi lo where i: "arq_inv s hi lo" "outstanding s hi lo = {}" using reach_inv [OF assms(1)] by blast
  then have e: "hi = []" "lo = []" "pendingHi s = 0" "pendingLo s = 0" "callbackLo s = 0" "chunkSize s \<noteq> 0"
    by (auto simp: outstanding_def in_service_def arq_inv_def queues_ok_def split: if_splits)
  have p: "plan s hi lo = []" using e by (simp add: plan_def)
  have f: "task \<notin> set (in_service (pendingHi s) @ in_service (pendingLo s) @ hi @ lo)" using e by (simp add: in_service_def)
  obtain hi' lo' where r: "arq_inv r hi' lo'"
    "arq_log r @ plan r hi' lo' = arq_log s @ chunk_events (chunkSize s) ?k @ [Called callback task]"
    using post_low [OF i(1) f assms(2), of callback hack owner ty source dest len] assms(3) p
    unfolding r_def by (auto simp: posted_def)
  obtain n where n: "dma ((ARQInterruptServiceRoutine ^^ n) r) = None"
    "arq_log ((ARQInterruptServiceRoutine ^^ n) r) = arq_log r @ plan r hi' lo'" using drain [OF r(1)] by (auto simp: Let_def)
  have "\<forall>mem. fold do_event (chunk_events (chunkSize s) ?k) mem = do_transfer
      (if ty = ARQ_TYPE_MRAM_TO_ARAM then (ty, source, dest, len) else (ty, dest, source, len)) mem"
    by (simp add: chunk_events_copy task_transfer_def task_args_def posted_def)
  then show ?thesis using n r(2) chunk_events_bound e(6) by (intro exI [of _ n] exI [of _ "chunk_events (chunkSize s) ?k"]) auto
qed

text \<open>A queue at rest, and a low and a high request posted to it.\<close>

definition blank_arq :: arq where
  "blank_arq = \<lparr>tasks = (\<lambda>t. \<lparr>t_next = 0, t_owner = 0, t_type = 0, t_source = 0, t_dest = 0, t_length = 0, t_callback = 0\<rparr>),
     queueHi = 0, tailHi = 0, queueLo = 0, tailLo = 0, pendingHi = 0, pendingLo = 0, callbackHi = 0, callbackLo = 0,
     chunkSize = 0, arq_init_flag = False, dma = None, arq_log = [], clash = False\<rparr>"

definition demo_arq :: arq where
  "demo_arq = ARQPostRequest 1 0x200 0 0 ARQ_PRIORITY_HIGH 0 0 64 7
     (ARQPostRequest 1 0x100 0 0 ARQ_PRIORITY_LOW 0 0 5000 7 (ARQInit blank_arq))"

lemma blank_reach: "arq_reach 1 (ARQInit blank_arq) {}"
  by (rule reach_init) (simp_all add: blank_arq_def)

lemma demo_reach: "arq_reach 1 demo_arq {0x200, 0x100}"
  unfolding demo_arq_def by (intro reach_post blank_reach) simp_all

theorem arq_never_clashes_witness: "\<not> clash demo_arq \<and> dma demo_arq \<noteq> None"
  using arq_never_clashes [OF demo_reach] by simp

theorem arq_calls_every_callback_witness:
  "\<exists>n es. arq_log ((ARQInterruptServiceRoutine ^^ n) demo_arq) = arq_log demo_arq @ es \<and> set (called es) = {0x100, 0x200}"
  using arq_calls_every_callback [OF demo_reach] by (metis insert_commute)

theorem arq_request_served_witness:
  "\<exists>n es. arq_log ((ARQInterruptServiceRoutine ^^ n)
      (ARQPostRequest 1 0x100 0 0 ARQ_PRIORITY_LOW 0x80001000 0x4000 5000 7 (ARQInit blank_arq))) = es @ [Called 7 0x100] \<and>
     snd (fold do_event es (\<lambda>a. ucast a, \<lambda>a. 0)) 0x5000 = ucast (0x80002000 :: u32)"
proof -
  have "arq_log (ARQInit blank_arq) = []" by (simp add: ARQInit_def blank_arq_def)
  then obtain n es where "arq_log ((ARQInterruptServiceRoutine ^^ n)
      (ARQPostRequest 1 0x100 0 0 ARQ_PRIORITY_LOW 0x80001000 0x4000 5000 7 (ARQInit blank_arq))) = es @ [Called 7 0x100]"
    "\<forall>mem. fold do_event es mem = do_transfer (0, 0x80001000, 0x4000, 5000) mem"
    using arq_request_served [OF blank_reach, of "0x100" 7 0 0 "0x80001000" "0x4000" 5000]
    by (auto simp: ARQ_TYPE_MRAM_TO_ARAM_def simp del: do_transfer.simps)
  moreover have "snd (do_transfer (0, 0x80001000, 0x4000, 5000) (\<lambda>a. ucast a, \<lambda>a. 0)) 0x5000 = ucast (0x80002000 :: u32)"
    by (simp add: ARQ_TYPE_MRAM_TO_ARAM_def)
  ultimately show ?thesis by (metis (no_types, lifting))
qed

end
