(* ===== verification/BnrCache.thy ===== *)
theory BnrCache
  imports Arq "HOL-Library.Monad_Syntax"
begin

text \<open>
  The banner cache of the menu (cubeboot/source/emu/tweaks.c, IPL build): a ring of 1024 entries
  that map a key to a slot of ARAM. \<open>banner_port\<close> is what the cache needs of ARAM: copying a
  banner to a slot and back. The cache is shown, for every such port, to be a queue of the last
  1024 keys; the port the program uses, on the request queue of \<open>Arq\<close>, is an instance.
\<close>

section \<open>Model\<close>

definition BNR_SIZE :: nat where "BNR_SIZE = 8096"
definition BNR_CACHE_SIZE :: nat where "BNR_CACHE_SIZE = 1024"

record bnr_cache_entry =
  ce_key :: u32
  ce_offset :: u32
  ce_valid :: bool

record bnr_cache =
  entries :: "bnr_cache_entry list"
  next_index :: u32

definition empty_cache :: bnr_cache where
  "empty_cache = \<lparr>entries = replicate BNR_CACHE_SIZE \<lparr>ce_key = 0, ce_offset = 0, ce_valid = False\<rparr>, next_index = 0\<rparr>"

definition slot_offset :: "u32 \<Rightarrow> u32" where
  "slot_offset i = 16 * 1024 * 1024 - of_nat BNR_SIZE * (i + 1)"

text \<open>The first entry with the key, from entry \<open>i\<close> on.\<close>

fun find_entry :: "u32 \<Rightarrow> bnr_cache_entry list \<Rightarrow> bnr_cache_entry option" where
  "find_entry key [] = None"
| "find_entry key (e # es) = (if ce_valid e \<and> ce_key e = key then Some e else find_entry key es)"

definition bnr_cache_get :: "('p \<Rightarrow> u32 \<Rightarrow> u32 \<Rightarrow> 'p option) \<Rightarrow> bnr_cache \<Rightarrow> u32 \<Rightarrow> u32 \<Rightarrow> 'p \<Rightarrow> (bool \<times> 'p) option" where
  "bnr_cache_get load c key bnr p =
     (case find_entry key (entries c) of
        Some e \<Rightarrow> map_option (Pair True) (load p bnr (ce_offset e))
      | None \<Rightarrow> Some (False, p))"

definition bnr_cache_put :: "('p \<Rightarrow> u32 \<Rightarrow> u32 \<Rightarrow> 'p option) \<Rightarrow> bnr_cache \<Rightarrow> u32 \<Rightarrow> u32 \<Rightarrow> 'p \<Rightarrow> (bnr_cache \<times> 'p) option" where
  "bnr_cache_put store c key bnr p =
     (if find_entry key (entries c) \<noteq> None then Some (c, p)
      else do {
        let i = unat (next_index c);
        let e = \<lparr>ce_key = key, ce_offset = slot_offset (next_index c), ce_valid = False\<rparr>;
        p \<leftarrow> store p bnr (ce_offset e);
        Some (\<lparr>entries = (entries c)[i := e\<lparr>ce_valid := True\<rparr>],
               next_index = (next_index c + 1) mod of_nat BNR_CACHE_SIZE\<rparr>, p)
      })"

section \<open>What the cache needs, and what it then is\<close>

definition slots :: "u32 set" where
  "slots = slot_offset ` {i. i < of_nat BNR_CACHE_SIZE}"

lemma unat_slot_offset:
  assumes "i < of_nat BNR_CACHE_SIZE"
  shows "unat (slot_offset i) = 16777216 - 8096 * (unat i + 1)"
proof -
  have i: "unat i < 1024" using assms by (simp add: BNR_CACHE_SIZE_def word_less_nat_alt)
  then have "unat (8096 * (i + 1)) = 8096 * (unat i + 1)" by (simp add: unat_word_ariths)
  moreover have "8096 * (unat i + 1) \<le> 16777216" using i by simp
  ultimately have "unat ((16777216 :: u32) - 8096 * (i + 1)) = unat (16777216 :: u32) - 8096 * (unat i + 1)"
    by (subst unat_sub) (simp_all only: word_le_nat_alt unat_numeral, simp)
  then show ?thesis by (simp only: slot_offset_def BNR_SIZE_def) simp
qed

lemma slot_offset_inj:
  assumes "i < of_nat BNR_CACHE_SIZE" "j < of_nat BNR_CACHE_SIZE" "slot_offset i = slot_offset j"
  shows "i = j"
proof -
  have "unat i < 1024" "unat j < 1024" using assms(1,2) by (simp_all add: BNR_CACHE_SIZE_def word_less_nat_alt)
  then have "unat i = unat j" using arg_cong [OF assms(3), of unat] by (simp add: unat_slot_offset assms(1,2))
  then show ?thesis by (simp add: word_unat_eq_iff)
qed

text \<open>The queue: newest key first, at most \<open>BNR_CACHE_SIZE\<close> of them.\<close>

type_synonym 'b fifo = "(u32 \<times> 'b) list"

definition fifo_put :: "u32 \<Rightarrow> 'b \<Rightarrow> 'b fifo \<Rightarrow> 'b fifo" where
  "fifo_put key b f = (if key \<in> fst ` set f then f else take BNR_CACHE_SIZE ((key, b) # f))"

text \<open>Which ring entry holds the element \<open>j\<close> of the queue when \<open>n\<close> is the next entry to be used.\<close>

definition ring :: "nat \<Rightarrow> nat \<Rightarrow> nat" where
  "ring n j = (n + 1023 - j) mod 1024"

lemma ring_less [simp]: "ring n j < 1024"
  by (simp add: ring_def)

lemma ring_inj: "j < 1024 \<Longrightarrow> k < 1024 \<Longrightarrow> ring n j = ring n k \<Longrightarrow> n < 1024 \<Longrightarrow> j = k"
  by (auto simp: ring_def mod_if split: if_splits)

lemma ring_next:
  assumes "n < 1024" "j < 1023"
  shows "ring ((n + 1) mod 1024) (Suc j) = ring n j" "ring ((n + 1) mod 1024) 0 = n" "ring n j \<noteq> n"
  using assms by (auto simp: ring_def mod_if split: if_splits)

locale banner_port =
  fixes store load :: "'p \<Rightarrow> u32 \<Rightarrow> u32 \<Rightarrow> 'p option" and inv :: "'p \<Rightarrow> bool"
    and ram slot :: "'p \<Rightarrow> u32 \<Rightarrow> 'b"
  assumes store_ok: "inv p \<Longrightarrow> off \<in> slots \<Longrightarrow> \<exists>p'. store p a off = Some p' \<and> inv p' \<and> slot p' off = ram p a \<and>
      (\<forall>x \<in> slots. x \<noteq> off \<longrightarrow> slot p' x = slot p x)"
    and load_ok: "inv p \<Longrightarrow> off \<in> slots \<Longrightarrow> \<exists>p'. load p a off = Some p' \<and> inv p' \<and> ram p' a = slot p off \<and> slot p' = slot p"
begin

text \<open>The ring holds the queue \<open>f\<close>.\<close>

definition holds :: "bnr_cache \<Rightarrow> 'p \<Rightarrow> 'b fifo \<Rightarrow> bool" where
  "holds c p f \<longleftrightarrow> inv p \<and> length (entries c) = 1024 \<and> unat (next_index c) < 1024 \<and> length f \<le> 1024 \<and> distinct (map fst f) \<and>
     (\<forall>j < length f. let i = ring (unat (next_index c)) j in
        entries c ! i = \<lparr>ce_key = fst (f ! j), ce_offset = slot_offset (of_nat i), ce_valid = True\<rparr> \<and>
        slot p (slot_offset (of_nat i)) = snd (f ! j)) \<and>
     (\<forall>i < 1024. ce_valid (entries c ! i) \<longrightarrow> (\<exists>j < length f. i = ring (unat (next_index c)) j))"

lemma find_entry_Some: "find_entry key es = Some e \<Longrightarrow> e \<in> set es \<and> ce_valid e \<and> ce_key e = key"
  by (induction es) (auto split: if_splits)

lemma find_entry_None: "find_entry key es = None \<longleftrightarrow> (\<forall>e \<in> set es. ce_valid e \<longrightarrow> ce_key e \<noteq> key)"
  by (induction es) auto

lemma find_holds:
  assumes h: "holds c p f"
  shows "(find_entry key (entries c) \<noteq> None) = (key \<in> fst ` set f)"
    "find_entry key (entries c) = Some e \<Longrightarrow> ce_offset e \<in> slots \<and> map_of f key = Some (slot p (ce_offset e))"
proof -
  have e: "\<exists>j < length f. e = \<lparr>ce_key = fst (f ! j), ce_offset = slot_offset (of_nat (ring (unat (next_index c)) j)), ce_valid = True\<rparr> \<and>
      slot p (ce_offset e) = snd (f ! j) \<and> key = fst (f ! j)" if "e \<in> set (entries c)" "ce_valid e" "ce_key e = key" for e
  proof -
    obtain i where i: "i < 1024" "e = entries c ! i" using \<open>e \<in> set (entries c)\<close> h by (auto simp: in_set_conv_nth holds_def)
    then obtain j where j: "j < length f" "i = ring (unat (next_index c)) j" using h \<open>ce_valid e\<close> unfolding holds_def by blast
    then show ?thesis using h i \<open>ce_key e = key\<close> unfolding holds_def Let_def by (intro exI [of _ j]) auto
  qed
  have s: "slot_offset (of_nat (ring n j)) \<in> slots" for n j
    unfolding slots_def by (rule imageI) (simp add: BNR_CACHE_SIZE_def word_less_nat_alt unat_of_nat take_bit_nat_eq_self order_less_trans [OF ring_less])
  show "(find_entry key (entries c) \<noteq> None) = (key \<in> fst ` set f)"
  proof
    assume "find_entry key (entries c) \<noteq> None"
    then obtain e' where "find_entry key (entries c) = Some e'" by blast
    then show "key \<in> fst ` set f" using e [of e'] find_entry_Some [of key _ e'] by (metis image_eqI nth_mem)
  next
    assume "key \<in> fst ` set f"
    then obtain j where j: "j < length f" "key = fst (f ! j)" by (auto simp: in_set_conv_nth)
    have "entries c ! ring (unat (next_index c)) j \<in> set (entries c)" using h by (simp add: holds_def)
    then show "find_entry key (entries c) \<noteq> None" using h j unfolding find_entry_None holds_def Let_def by force
  qed
  show "ce_offset e \<in> slots \<and> map_of f key = Some (slot p (ce_offset e))" if "find_entry key (entries c) = Some e"
  proof -
    obtain j where j: "j < length f" "ce_offset e = slot_offset (of_nat (ring (unat (next_index c)) j))"
      "slot p (ce_offset e) = snd (f ! j)" "key = fst (f ! j)" using e [of e] find_entry_Some [OF \<open>find_entry key (entries c) = Some e\<close>] by auto
    then show ?thesis using s h by (auto simp: holds_def map_of_eq_Some_iff in_set_conv_nth)
  qed
qed

lemma get_holds:
  assumes h: "holds c p f"
  shows "\<exists>found p'. bnr_cache_get load c key a p = Some (found, p') \<and> holds c p' f \<and> found = (key \<in> fst ` set f) \<and>
    (found \<longrightarrow> map_of f key = Some (ram p' a))"
proof (cases "find_entry key (entries c)")
  case None
  then have "key \<notin> fst ` set f" using find_holds(1) [OF h, of key] by simp
  then show ?thesis using None h by (intro exI [of _ False] exI [of _ p]) (simp add: bnr_cache_get_def)
next
  case (Some e)
  have i: "inv p" using h by (simp add: holds_def)
  obtain p' where p': "load p a (ce_offset e) = Some p'" "inv p'" "ram p' a = slot p (ce_offset e)" "slot p' = slot p"
    using load_ok [OF i, of "ce_offset e" a] find_holds(2) [OF h Some] by blast
  then have "holds c p' f" using h by (simp add: holds_def)
  then show ?thesis using p' Some find_holds [OF h] by (auto simp: bnr_cache_get_def)
qed

lemma put_new:
  assumes h: "holds c p f" and k: "key \<notin> fst ` set f" and p': "inv p'" "slot p' (slot_offset (next_index c)) = b"
    "\<forall>x \<in> slots. x \<noteq> slot_offset (next_index c) \<longrightarrow> slot p' x = slot p x"
  shows "holds \<lparr>entries = (entries c)[unat (next_index c) := \<lparr>ce_key = key, ce_offset = slot_offset (next_index c), ce_valid = True\<rparr>],
      next_index = (next_index c + 1) mod of_nat BNR_CACHE_SIZE\<rparr> p' (take BNR_CACHE_SIZE ((key, b) # f))"
    (is "holds ?c p' ?f")
proof -
  let ?n = "unat (next_index c)"
  have n: "?n < 1024" and l: "length (entries c) = 1024" "length f \<le> 1024" using h by (auto simp: holds_def)
  have nw: "unat ((next_index c + 1) mod 1024) = Suc ?n mod 1024" using n
    by (simp add: unat_mod unat_word_ariths)
  then have nn: "unat (next_index ?c) = (?n + 1) mod 1024" by (simp add: BNR_CACHE_SIZE_def)
  have nx: "of_nat ?n = next_index c" by simp
  have apart: "slot p' (slot_offset (of_nat i)) = slot p (slot_offset (of_nat i))" if "i < 1024" "i \<noteq> ?n" for i
  proof -
    have u: "unat (of_nat i :: u32) = i" using that(1) by (simp add: unat_of_nat take_bit_nat_eq_self)
    then have m: "of_nat i < (of_nat BNR_CACHE_SIZE :: u32)" "next_index c < of_nat BNR_CACHE_SIZE"
      using that(1) n by (simp_all add: BNR_CACHE_SIZE_def word_less_nat_alt)
    then have "slot_offset (of_nat i) \<noteq> slot_offset (next_index c)" using slot_offset_inj [OF m] that(2) u by auto
    moreover have "slot_offset (of_nat i) \<in> slots" using m(1) by (simp add: slots_def)
    ultimately show ?thesis using p'(3) by blast
  qed
  have "distinct (map fst ((key, b) # f))" using h k by (simp add: holds_def)
  then have "distinct (take BNR_CACHE_SIZE (map fst ((key, b) # f)))" by (rule distinct_take)
  then have "distinct (map fst ?f)" by (simp only: take_map)
  moreover have "let i = ring (unat (next_index ?c)) j in
      entries ?c ! i = \<lparr>ce_key = fst (?f ! j), ce_offset = slot_offset (of_nat i), ce_valid = True\<rparr> \<and>
      slot p' (slot_offset (of_nat i)) = snd (?f ! j)" if "j < length ?f" for j
  proof (cases j)
    case 0
    then show ?thesis using ring_next(2) [OF n, of 0] n l p'(2) nx by (simp add: nw Let_def BNR_CACHE_SIZE_def)
  next
    case (Suc m)
    then have m: "m < 1023" "m < length f" using that by (simp_all add: BNR_CACHE_SIZE_def)
    note ri = ring_next [OF n m(1)]
    have o: "entries c ! ring ?n m = \<lparr>ce_key = fst (f ! m), ce_offset = slot_offset (of_nat (ring ?n m)), ce_valid = True\<rparr>"
      "slot p (slot_offset (of_nat (ring ?n m))) = snd (f ! m)" using h m(2) by (auto simp: holds_def Let_def)
    then show ?thesis using Suc m ri apart [OF ring_less ri(3)] by (simp add: nw Let_def BNR_CACHE_SIZE_def)
  qed
  moreover have "\<exists>j < length ?f. i = ring (unat (next_index ?c)) j" if "i < 1024" "ce_valid (entries ?c ! i)" for i
  proof (cases "i = ?n")
    case True
    then show ?thesis using ring_next(2) [OF n, of 0] nn by (intro exI [of _ 0]) (simp add: nw BNR_CACHE_SIZE_def)
  next
    case False
    then have "ce_valid (entries c ! i)" using that l by simp
    then obtain j where j: "j < length f" "i = ring ?n j" using h \<open>i < 1024\<close> unfolding holds_def by blast
    have "j \<noteq> 1023" using False j(2) n by (auto simp: ring_def)
    then have "j < 1023" using j(1) l(2) by linarith
    then show ?thesis using ring_next(1) [OF n, of j] j nn by (intro exI [of _ "Suc j"]) (simp add: nw BNR_CACHE_SIZE_def)
  qed
  ultimately show ?thesis using p'(1) l nn unfolding holds_def by (auto simp: BNR_CACHE_SIZE_def)
qed

lemma put_holds:
  assumes h: "holds c p f"
  shows "\<exists>c' p'. bnr_cache_put store c key a p = Some (c', p') \<and> holds c' p' (fifo_put key (ram p a) f)"
proof (cases "find_entry key (entries c)")
  case None
  have k: "key \<notin> fst ` set f" using find_holds(1) [OF h, of key] None by simp
  have "next_index c < of_nat BNR_CACHE_SIZE" using h by (simp add: holds_def BNR_CACHE_SIZE_def word_less_nat_alt)
  then have "slot_offset (next_index c) \<in> slots" by (simp add: slots_def)
  then obtain p' where p': "store p a (slot_offset (next_index c)) = Some p'" "inv p'"
    "slot p' (slot_offset (next_index c)) = ram p a" "\<forall>x \<in> slots. x \<noteq> slot_offset (next_index c) \<longrightarrow> slot p' x = slot p x"
    using store_ok [of p] h unfolding holds_def by blast
  then show ?thesis using put_new [OF h k p'(2-4)] None k by (auto simp: bnr_cache_put_def fifo_put_def Let_def)
next
  case (Some e)
  then have "key \<in> fst ` set f" using find_holds(1) [OF h, of key] by simp
  then show ?thesis using Some h by (simp add: bnr_cache_put_def fifo_put_def)
qed

lemma holds_same_slots: "holds c p f \<Longrightarrow> inv p' \<Longrightarrow> slot p' = slot p \<Longrightarrow> holds c p' f"
  by (simp add: holds_def)

lemma empty_holds: "inv p \<Longrightarrow> holds empty_cache p []"
  by (simp add: holds_def empty_cache_def BNR_CACHE_SIZE_def)

end

section \<open>The port on the request queue\<close>

text \<open>
  Main memory, ARAM and the queue. \<open>ap_interrupt\<close> is the end of a transfer: the bytes have moved,
  then the service routine runs. \<open>wait_called\<close> is the wait for the flag the callback clears: it
  looks for the call in what was logged since the request was posted, and lets the engine finish
  a transfer while there is none. With no transfer running and no call it would wait forever.
\<close>

record aram_port =
  ap_arq :: arq
  ap_mem :: "memory \<times> memory"

definition ap_interrupt :: "aram_port \<Rightarrow> aram_port" where
  "ap_interrupt p =
     \<lparr>ap_arq = ARQInterruptServiceRoutine (ap_arq p),
      ap_mem = (case dma (ap_arq p) of Some t \<Rightarrow> do_transfer t (ap_mem p) | None \<Rightarrow> ap_mem p)\<rparr>"

partial_function (option) wait_called :: "event \<Rightarrow> nat \<Rightarrow> aram_port \<Rightarrow> aram_port option" where
  "wait_called e n p =
     (if e \<in> set (drop n (arq_log (ap_arq p))) then Some p
      else if dma (ap_arq p) = None then None
      else wait_called e n (ap_interrupt p))"

declare wait_called.simps [code]

text \<open>Addresses of the two static requests, their callbacks and \<open>__ARQCallbackHack\<close>, and the owner tags.\<close>

definition ARAM_DIR_MRAM_TO_ARAM :: u32 where "ARAM_DIR_MRAM_TO_ARAM = 0"
definition ARAM_DIR_ARAM_TO_MRAM :: u32 where "ARAM_DIR_ARAM_TO_MRAM = 1"
definition store_req :: u32 where "store_req = 0x81700000"
definition load_req :: u32 where "load_req = 0x81700020"
definition bnr_cache_store_cb :: u32 where "bnr_cache_store_cb = 0x81300000"
definition bnr_cache_load_cb :: u32 where "bnr_cache_load_cb = 0x81300020"

definition bnr_cache_store :: "aram_port \<Rightarrow> u32 \<Rightarrow> u32 \<Rightarrow> aram_port option" where
  "bnr_cache_store p bnr aram_offset =
     (let n = length (arq_log (ap_arq p));
          s = ARQPostRequest 0 store_req 0x49585853 ARAM_DIR_MRAM_TO_ARAM ARQ_PRIORITY_LOW bnr aram_offset (of_nat BNR_SIZE)
                bnr_cache_store_cb (ap_arq p)
      in wait_called (Called bnr_cache_store_cb store_req) n (p\<lparr>ap_arq := s\<rparr>))"

definition bnr_cache_load :: "aram_port \<Rightarrow> u32 \<Rightarrow> u32 \<Rightarrow> aram_port option" where
  "bnr_cache_load p bnr aram_offset =
     (let n = length (arq_log (ap_arq p));
          s = ARQPostRequest 0 load_req 0x4958584C ARAM_DIR_ARAM_TO_MRAM ARQ_PRIORITY_LOW aram_offset bnr (of_nat BNR_SIZE)
                bnr_cache_load_cb (ap_arq p)
      in wait_called (Called bnr_cache_load_cb load_req) n (p\<lparr>ap_arq := s\<rparr>))"

text \<open>An interrupt logs calls and at most one new transfer, the one then running.\<close>

definition running :: "arq \<Rightarrow> event list" where
  "running s = (case dma s of Some t \<Rightarrow> [Transfer t] | None \<Rightarrow> [])"

lemma do_calls: "\<forall>e \<in> set es. \<exists>c t. e = Called c t \<Longrightarrow> fold do_event es m = m"
  by (induction es) auto

lemma start_log:
  assumes "dma s = None"
  shows "arq_log (arq_next s) = arq_log s @ running (arq_next s)"
  using assms by (simp add: arq_next_def ARQPopTaskQueueHi_def ARQServiceQueueLo_def running_def task_transfer_def Let_def)

lemma interrupt_log:
  "\<exists>cs. (\<forall>e \<in> set cs. \<exists>c t. e = Called c t) \<and>
     arq_log (ARQInterruptServiceRoutine s) = arq_log s @ cs @ running (ARQInterruptServiceRoutine s)"
proof -
  define s1 where "s1 = (let s = s\<lparr>dma := None\<rparr> in
    if callbackHi s \<noteq> 0 then s\<lparr>arq_log := arq_log s @ [Called (callbackHi s) (pendingHi s)], pendingHi := 0, callbackHi := 0\<rparr>
    else if callbackLo s \<noteq> 0 then s\<lparr>arq_log := arq_log s @ [Called (callbackLo s) (pendingLo s)], pendingLo := 0, callbackLo := 0\<rparr>
    else s)"
  have i: "ARQInterruptServiceRoutine s = arq_next s1"
    by (simp add: ARQInterruptServiceRoutine_def arq_next_def s1_def Let_def)
  have "dma s1 = None" by (simp add: s1_def Let_def)
  moreover have "\<exists>cs. (\<forall>e \<in> set cs. \<exists>c t. e = Called c t) \<and> arq_log s1 = arq_log s @ cs" by (simp add: s1_def Let_def)
  ultimately show ?thesis using start_log [of s1] unfolding i by auto
qed

text \<open>Memory is what the logged transfers but the running one make of it.\<close>

definition mem_done :: "memory \<times> memory \<Rightarrow> nat \<Rightarrow> aram_port \<Rightarrow> bool" where
  "mem_done m0 n p \<longleftrightarrow> fold do_event (drop n (arq_log (ap_arq p))) m0 = fold do_event (running (ap_arq p)) (ap_mem p)"

lemma mem_done_step:
  assumes "mem_done m0 n p" "n \<le> length (arq_log (ap_arq p))"
  shows "mem_done m0 n (ap_interrupt p)"
proof -
  obtain cs where cs: "\<forall>e \<in> set cs. \<exists>c t. e = Called c t"
    "arq_log (ARQInterruptServiceRoutine (ap_arq p)) = arq_log (ap_arq p) @ cs @ running (ARQInterruptServiceRoutine (ap_arq p))"
    using interrupt_log by blast
  have "fold do_event (running (ap_arq p)) (ap_mem p) = ap_mem (ap_interrupt p)"
    by (simp add: running_def ap_interrupt_def split: option.splits)
  then show ?thesis using assms cs(2) do_calls [OF cs(1)] by (simp add: mem_done_def ap_interrupt_def)
qed

lemma wait_called_ends:
  assumes "arq_inv (ap_arq p) hi lo" "plan (ap_arq p) hi lo = es @ [e]" "e \<notin> set es" "n \<le> length (arq_log (ap_arq p))"
    "e \<notin> set (drop n (arq_log (ap_arq p)))" "mem_done m0 n p"
  shows "\<exists>p'. wait_called e n p = Some p' \<and> arq_inv (ap_arq p') [] [] \<and> dma (ap_arq p') = None \<and>
    ap_mem p' = fold do_event (drop n (arq_log (ap_arq p) @ es @ [e])) m0"
  using assms
proof (induction "length (plan (ap_arq p) hi lo)" arbitrary: p hi lo es rule: less_induct)
  case less
  let ?s = "ap_arq p" and ?q = "ap_interrupt p"
  have d: "dma ?s \<noteq> None" using less.prems(1,2) by (auto simp: arq_inv_def plan_def split: if_splits)
  obtain hi' lo' where st: "arq_inv (ap_arq ?q) hi' lo'"
    "arq_log (ap_arq ?q) @ plan (ap_arq ?q) hi' lo' = arq_log ?s @ plan ?s hi lo" "length (arq_log ?s) < length (arq_log (ap_arq ?q))"
    using interrupt_step [OF less.prems(1) d] by (auto simp: ap_interrupt_def)
  have u: "wait_called e n p = wait_called e n ?q" by (subst wait_called.simps) (use less.prems(5) d in \<open>simp del: not_None_eq\<close>)
  have m: "mem_done m0 n ?q" using mem_done_step [OF less.prems(6,4)] .
  have n: "n \<le> length (arq_log (ap_arq ?q))" using less.prems(4) st(3) by linarith
  obtain ds where ds: "arq_log (ap_arq ?q) = arq_log ?s @ ds" "es @ [e] = ds @ plan (ap_arq ?q) hi' lo'"
    using plan_progress [OF less.prems(1) st(1,2) less_imp_le [OF st(3)]] less.prems(2) by auto
  show ?case
  proof (cases "plan (ap_arq ?q) hi' lo' = []")
    case True
    have f: "arq_inv (ap_arq ?q) [] []" "dma (ap_arq ?q) = None"
      using called_plan(2) [OF st(1)] st(1) True by (auto simp: outstanding_def in_service_def arq_inv_def simp del: not_None_eq not_Some_eq split: if_splits)
    have "wait_called e n ?q = Some ?q" by (subst wait_called.simps) (use ds True less.prems(4) in auto)
    moreover have "ap_mem ?q = fold do_event (drop n (arq_log ?s @ es @ [e])) m0"
      using m f(2) ds True by (simp add: mem_done_def running_def)
    ultimately show ?thesis using u f by simp
  next
    case False
    then obtain fs where fs: "plan (ap_arq ?q) hi' lo' = fs @ [e]" "es = ds @ fs"
      using ds(2) by (metis append_assoc append_butlast_last_id butlast_append butlast_snoc last_append last_snoc)
    have "length (plan (ap_arq ?q) hi' lo') < length (plan ?s hi lo)"
      using arg_cong [OF st(2), of length] st(3) by simp
    moreover have "e \<notin> set fs" "e \<notin> set (drop n (arq_log (ap_arq ?q)))"
      using less.prems(3-5) fs(2) ds(1) by auto
    ultimately have "\<exists>p'. wait_called e n ?q = Some p' \<and> arq_inv (ap_arq p') [] [] \<and> dma (ap_arq p') = None \<and>
        ap_mem p' = fold do_event (drop n (arq_log (ap_arq ?q) @ fs @ [e])) m0"
      using less.hyps [OF _ st(1) fs(1) _ n _ m] by blast
    then show ?thesis using u ds(1) fs(2) by simp
  qed
qed

lemma post_running:
  assumes "pendingHi s = 0" "pendingLo s = 0" "dma s = None"
  shows "arq_log (ARQPostRequest hack task owner ty priority source dest len callback s) = arq_log s @
    running (ARQPostRequest hack task owner ty priority source dest len callback s)"
proof -
  define s' where "s' = (let s = s\<lparr>tasks := (tasks s)(task := posted hack owner ty source dest len callback)\<rparr> in
    if priority = ARQ_PRIORITY_LOW then enqueueLo task s else if priority = ARQ_PRIORITY_HIGH then enqueueHi task s else s)"
  have "arq_log s' = arq_log s" "dma s' = None" "pendingHi s' = 0" "pendingLo s' = 0" using assms by (simp_all add: s'_def Let_def)
  then show ?thesis using start_log [of s'] unfolding post_unfold Let_def s'_def [unfolded Let_def, symmetric] by simp
qed

definition port_idle :: "aram_port \<Rightarrow> bool" where
  "port_idle p \<longleftrightarrow> arq_inv (ap_arq p) [] [] \<and> dma (ap_arq p) = None"

lemma request_copies:
  fixes hack owner ty source dest len :: u32
  assumes p: "port_idle p" and t: "task \<noteq> 0" "callback \<noteq> 0"
  defines "s \<equiv> ARQPostRequest hack task owner ty ARQ_PRIORITY_LOW source dest len callback (ap_arq p)"
  shows "\<exists>p'. wait_called (Called callback task) (length (arq_log (ap_arq p))) (p\<lparr>ap_arq := s\<rparr>) = Some p' \<and> port_idle p' \<and>
    ap_mem p' = (if ty = ARQ_TYPE_MRAM_TO_ARAM then do_transfer (ty, source, dest, len) (ap_mem p)
                 else do_transfer (ty, dest, source, len) (ap_mem p))"
proof -
  let ?s0 = "ap_arq p" and ?k = "posted hack owner ty source dest len callback" and ?e = "Called callback task"
  have i: "arq_inv ?s0 [] []" and z: "pendingHi ?s0 = 0" "pendingLo ?s0 = 0" "dma ?s0 = None"
    using p by (auto simp: port_idle_def arq_inv_def)
  have pl: "plan ?s0 [] [] = []" using i z by (auto simp: plan_def arq_inv_def)
  have "task \<notin> set (in_service (pendingHi ?s0) @ in_service (pendingLo ?s0) @ [] @ [])" using z by (simp add: in_service_def)
  from post_low [OF i this t(1), of callback hack owner ty source dest len]
  obtain hi lo where r: "arq_inv s hi lo" "arq_log s @ plan s hi lo = arq_log ?s0 @ chunk_events (chunkSize ?s0) ?k @ [?e]"
    using t(2) pl by (auto simp: s_def posted_def)
  have l: "arq_log s = arq_log ?s0 @ running s" unfolding s_def by (rule post_running [OF z])
  have e: "?e \<notin> set (running s)" by (auto simp: running_def split: option.splits)
  have rp: "running s @ plan s hi lo = chunk_events (chunkSize ?s0) ?k @ [?e]" using r(2) l by simp
  then have "plan s hi lo \<noteq> []" using e by (metis append_Nil2 in_set_conv_decomp)
  then obtain es where es: "plan s hi lo = es @ [?e]" "chunk_events (chunkSize ?s0) ?k = running s @ es"
    using rp by (metis append_assoc append_butlast_last_id butlast_append butlast_snoc last_append last_snoc)
  have ne: "?e \<notin> set (chunk_events c k)" for c k
  proof (induction c k rule: chunk_events.induct)
    case (1 c k)
    then show ?case by (subst chunk_events.simps) (auto simp: task_transfer_def)
  qed
  have "?e \<notin> set es" using ne [of "chunkSize ?s0" ?k] es(2) by simp
  moreover have "mem_done (ap_mem p) (length (arq_log ?s0)) (p\<lparr>ap_arq := s\<rparr>)" using l by (simp add: mem_done_def)
  moreover have "length (arq_log ?s0) \<le> length (arq_log s)" using l by simp
  moreover have "?e \<notin> set (drop (length (arq_log ?s0)) (arq_log s))" using e l by simp
  ultimately obtain p' where p': "wait_called ?e (length (arq_log ?s0)) (p\<lparr>ap_arq := s\<rparr>) = Some p'" "arq_inv (ap_arq p') [] []"
    "dma (ap_arq p') = None" "ap_mem p' = fold do_event (drop (length (arq_log ?s0)) (arq_log s @ es @ [?e])) (ap_mem p)"
    using wait_called_ends [of "p\<lparr>ap_arq := s\<rparr>" hi lo es ?e "length (arq_log ?s0)" "ap_mem p"] r(1) es(1) by auto
  have "ap_mem p' = fold do_event (chunk_events (chunkSize ?s0) ?k) (ap_mem p)" using p'(4) l es(2) by simp
  then have "ap_mem p' = do_event (task_transfer ?k len) (ap_mem p)" by (simp add: chunk_events_copy posted_def)
  then show ?thesis using p'(1-3) by (auto simp: port_idle_def task_transfer_def task_args_def posted_def)
qed

text \<open>A banner in main memory or in a slot of ARAM, as its bytes.\<close>

definition bytes_at :: "memory \<Rightarrow> u32 \<Rightarrow> u8 list" where
  "bytes_at m a = map (\<lambda>i. m (a + of_nat i)) [0..<BNR_SIZE]"

lemma bytes_at_cong: "(\<And>i. i < BNR_SIZE \<Longrightarrow> m (a + of_nat i) = m' (a' + of_nat i)) \<Longrightarrow> bytes_at m a = bytes_at m' a'"
  by (simp add: bytes_at_def)

lemma less_BNR_SIZE: "i < BNR_SIZE \<Longrightarrow> (of_nat i :: u32) < of_nat BNR_SIZE"
  by (simp add: BNR_SIZE_def word_less_nat_alt unat_of_nat take_bit_nat_eq_self)

text \<open>No byte of a slot is in another slot.\<close>

lemma slots_apart:
  assumes "x \<in> slots" "y \<in> slots" "x \<noteq> y" "i < BNR_SIZE"
  shows "\<not> x + of_nat i - y < of_nat BNR_SIZE"
proof -
  obtain j k where jk: "j < of_nat BNR_CACHE_SIZE" "k < of_nat BNR_CACHE_SIZE" "x = slot_offset j" "y = slot_offset k"
    using assms(1,2) by (auto simp: slots_def)
  let ?j = "unat j" and ?k = "unat k"
  have le: "?j < 1024" "?k < 1024" using jk(1,2) by (simp_all add: BNR_CACHE_SIZE_def word_less_nat_alt)
  have n: "?j \<noteq> ?k" using jk(3,4) assms(3) word_unat_eq_iff by metis
  have x: "unat x = 16777216 - 8096 * (?j + 1)" and y: "unat y = 16777216 - 8096 * (?k + 1)"
    using unat_slot_offset jk by simp_all
  have u: "unat (of_nat i :: u32) = i" using assms(4) by (simp add: BNR_SIZE_def unat_of_nat take_bit_nat_eq_self)
  have xi: "unat (x + of_nat i) = unat x + i"
    using u x assms(4) by (subst unat_add_lem [THEN iffD1]) (simp_all add: BNR_SIZE_def)
  have "8096 \<le> unat (x + of_nat i - y)"
  proof (cases "?j < ?k")
    case True
    have "unat y \<le> unat (x + of_nat i)" using xi x y True le by simp
    then have "unat (x + of_nat i - y) = unat x + i - unat y" using xi by (simp add: unat_sub word_le_nat_alt)
    then show ?thesis using x y True le by simp
  next
    case False
    then have k: "?k < ?j" using n by simp
    have lt: "unat (x + of_nat i) < unat y" using xi x y k le assms(4) by (simp add: BNR_SIZE_def)
    have "unat (x + of_nat i - y) = 2 ^ 32 + unat (x + of_nat i) - unat y"
      using lt by (simp add: unat_sub_if' word_le_nat_alt)
    moreover have "unat y \<le> 16777216" using y by simp
    ultimately show ?thesis by simp
  qed
  then show ?thesis by (simp add: word_less_nat_alt BNR_SIZE_def)
qed

definition port_ram :: "aram_port \<Rightarrow> u32 \<Rightarrow> u8 list" where
  "port_ram p = bytes_at (fst (ap_mem p))"

definition port_slot :: "aram_port \<Rightarrow> u32 \<Rightarrow> u8 list" where
  "port_slot p = bytes_at (snd (ap_mem p))"

lemma store_copies:
  assumes p: "port_idle p" and o: "off \<in> slots"
  shows "\<exists>p'. bnr_cache_store p a off = Some p' \<and> port_idle p' \<and> port_slot p' off = port_ram p a \<and>
    (\<forall>x \<in> slots. x \<noteq> off \<longrightarrow> port_slot p' x = port_slot p x)"
proof -
  obtain p' where p': "bnr_cache_store p a off = Some p'" "port_idle p'"
    "ap_mem p' = do_transfer (ARQ_TYPE_MRAM_TO_ARAM, a, off, of_nat BNR_SIZE) (ap_mem p)"
    using request_copies [OF p, of store_req bnr_cache_store_cb 0 "0x49585853" ARAM_DIR_MRAM_TO_ARAM a off "of_nat BNR_SIZE"]
    by (auto simp: bnr_cache_store_def ARAM_DIR_MRAM_TO_ARAM_def ARQ_TYPE_MRAM_TO_ARAM_def store_req_def bnr_cache_store_cb_def Let_def)
  obtain m ar where m: "ap_mem p = (m, ar)" by fastforce
  have ar: "snd (ap_mem p') = (\<lambda>x. if x - off < of_nat BNR_SIZE then m (a + (x - off)) else ar x)" using p'(3) m by simp
  have "port_slot p' off = port_ram p a" unfolding port_slot_def port_ram_def ar m
    by (rule bytes_at_cong) (simp add: less_BNR_SIZE)
  moreover have "port_slot p' x = port_slot p x" if "x \<in> slots" "x \<noteq> off" for x unfolding port_slot_def ar m
    by (rule bytes_at_cong) (simp add: slots_apart [OF that(1) o that(2)])
  ultimately show ?thesis using p'(1,2) by blast
qed

lemma load_copies:
  assumes p: "port_idle p" and o: "off \<in> slots"
  shows "\<exists>p'. bnr_cache_load p a off = Some p' \<and> port_idle p' \<and> port_ram p' a = port_slot p off \<and> port_slot p' = port_slot p"
proof -
  obtain p' where p': "bnr_cache_load p a off = Some p'" "port_idle p'"
    "ap_mem p' = do_transfer (ARQ_TYPE_ARAM_TO_MRAM, a, off, of_nat BNR_SIZE) (ap_mem p)"
    using request_copies [OF p, of load_req bnr_cache_load_cb 0 "0x4958584C" ARAM_DIR_ARAM_TO_MRAM off a "of_nat BNR_SIZE"]
    by (auto simp: bnr_cache_load_def ARAM_DIR_ARAM_TO_MRAM_def ARQ_TYPE_MRAM_TO_ARAM_def ARQ_TYPE_ARAM_TO_MRAM_def load_req_def
      bnr_cache_load_cb_def Let_def)
  obtain m ar where m: "ap_mem p = (m, ar)" by fastforce
  have ar: "ap_mem p' = (\<lambda>x. if x - a < of_nat BNR_SIZE then ar (off + (x - a)) else m x, ar)"
    using p'(3) m by (simp add: ARQ_TYPE_MRAM_TO_ARAM_def ARQ_TYPE_ARAM_TO_MRAM_def)
  have "port_ram p' a = port_slot p off" unfolding port_slot_def port_ram_def ar m
    by (rule bytes_at_cong) (simp add: less_BNR_SIZE)
  then show ?thesis using p'(1,2) ar m by (auto simp: port_slot_def)
qed

interpretation aram: banner_port bnr_cache_store bnr_cache_load port_idle port_ram port_slot
  by unfold_locales (use store_copies load_copies in auto)

section \<open>Properties\<close>

text \<open>
  The cache and the queue of the keys put into it: from the start of the menu, by puts, gets and
  any writes to main memory in between. The banner of a put is what the buffer held at the time.
\<close>

inductive cache_reach :: "bnr_cache \<Rightarrow> aram_port \<Rightarrow> u8 list fifo \<Rightarrow> bool" where
  cache_start: "port_idle p \<Longrightarrow> cache_reach empty_cache p []"
| cache_put: "cache_reach c p f \<Longrightarrow> bnr_cache_put bnr_cache_store c key a p = Some (c', p') \<Longrightarrow>
    cache_reach c' p' (fifo_put key (port_ram p a) f)"
| cache_get: "cache_reach c p f \<Longrightarrow> bnr_cache_get bnr_cache_load c key a p = Some (found, p') \<Longrightarrow> cache_reach c p' f"
| cache_write: "cache_reach c p f \<Longrightarrow> cache_reach c (p\<lparr>ap_mem := (m, snd (ap_mem p))\<rparr>) f"

lemma reach_holds: "cache_reach c p f \<Longrightarrow> aram.holds c p f"
proof (induction rule: cache_reach.induct)
  case (cache_start p)
  then show ?case by (rule aram.empty_holds)
next
  case (cache_put c p f key a c' p')
  then show ?case using aram.put_holds [OF cache_put.IH, of key a] by auto
next
  case (cache_get c p f key a found p')
  then show ?case using aram.get_holds [OF cache_get.IH, of key a] by auto
next
  case (cache_write c p f m)
  have "port_idle p" using cache_write.IH by (simp add: aram.holds_def)
  then show ?case by (intro aram.holds_same_slots [OF cache_write.IH]) (auto simp: port_idle_def port_slot_def)
qed


definition quiet_port :: aram_port where
  "quiet_port = \<lparr>ap_arq = ARQInit \<lparr>tasks = (\<lambda>_. \<lparr>t_next = 0, t_owner = 0, t_type = 0, t_source = 0, t_dest = 0, t_length = 0,
       t_callback = 0\<rparr>), queueHi = 0, tailHi = 0, queueLo = 0, tailLo = 0, pendingHi = 0, pendingLo = 0, callbackHi = 0,
       callbackLo = 0, chunkSize = 0, arq_init_flag = False, dma = None, arq_log = [], clash = False\<rparr>, ap_mem = (\<lambda>a. ucast a, \<lambda>_. 0)\<rparr>"

lemma quiet_port_idle: "port_idle quiet_port"
  by (simp add: quiet_port_def port_idle_def arq_inv_def queues_ok_def ARQInit_def in_service_def ARQ_CHUNK_SIZE_DEFAULT_def)


text \<open>
  The 1024 slots of the ring are 32-byte aligned areas of the size of a banner in the upper
  half of the 16 MB of ARAM, and no two of them overlap.
\<close>

theorem banner_slots_apart:
  assumes "i < of_nat BNR_CACHE_SIZE"
  shows "32 dvd unat (slot_offset i) \<and> 8 * 1024 * 1024 \<le> unat (slot_offset i) \<and>
    unat (slot_offset i) + BNR_SIZE \<le> 16 * 1024 * 1024 \<and>
    (\<forall>j < i. unat (slot_offset i) + BNR_SIZE \<le> unat (slot_offset j))"
proof (intro conjI allI impI)
  have i: "unat i < 1024" using assms by (simp add: BNR_CACHE_SIZE_def word_less_nat_alt)
  note u = unat_slot_offset [OF assms]
  have "unat (slot_offset i) = 32 * (524288 - 253 * (unat i + 1))" using i u by simp
  then show "32 dvd unat (slot_offset i)" by simp
  show "8 * 1024 * 1024 \<le> unat (slot_offset i)" "unat (slot_offset i) + BNR_SIZE \<le> 16 * 1024 * 1024"
    using i u by (simp_all add: BNR_SIZE_def)
  show "unat (slot_offset i) + BNR_SIZE \<le> unat (slot_offset j)" if "j < i" for j
    using i u unat_slot_offset [of j] that assms by (simp add: BNR_SIZE_def word_less_nat_alt)
qed

lemma banner_slots_apart_witness: "unat (slot_offset 5) + BNR_SIZE \<le> unat (slot_offset 4)"
  using banner_slots_apart [of 5] by (simp add: BNR_CACHE_SIZE_def word_less_nat_alt)

end
