(* ===== verification/AramDma.thy ===== *)
theory AramDma
  imports Arq "HOL-Library.Monad_Syntax"
begin

unbundle bit_operations_syntax

text \<open>
  ARAM transfers through the registers of the DSP interface: the register programming of
  patches/source/decomp_ar.c and cubeboot/source/boot/ssaram.c, and the copying routines
  \<open>ARAMPut\<close>, \<open>ARAMFetch\<close> and \<open>ARAMClear\<close> of the latter. The DSP registers, main memory and
  the cache operations are parameters (\<open>dspops\<close>); \<open>dsp_ok\<close> states what the interface is documented
  to do: a write to the low size register starts the transfer the six DMA registers describe, and
  the busy bit of the control register goes away after finitely many reads. Contents of the data
  cache are not told apart from memory.
\<close>

section \<open>Registers\<close>

record 'h dspops =
  dsp_load :: "'h \<Rightarrow> nat \<Rightarrow> u16 \<times> 'h"
  dsp_store :: "'h \<Rightarrow> nat \<Rightarrow> u16 \<Rightarrow> 'h"
  cpu_read :: "'h \<Rightarrow> u32 \<Rightarrow> u8"
  cpu_write :: "'h \<Rightarrow> u32 \<Rightarrow> bytes \<Rightarrow> 'h"
  dc_flush :: "'h \<Rightarrow> u32 \<Rightarrow> u32 \<Rightarrow> 'h"
  dc_invalidate :: "'h \<Rightarrow> u32 \<Rightarrow> u32 \<Rightarrow> 'h"

definition DSP_CONTROL_STATUS :: nat where "DSP_CONTROL_STATUS = 5"
definition DSP_ARAM_DMA_MM_HI :: nat where "DSP_ARAM_DMA_MM_HI = 16"
definition DSP_ARAM_DMA_MM_LO :: nat where "DSP_ARAM_DMA_MM_LO = 17"
definition DSP_ARAM_DMA_ARAM_HI :: nat where "DSP_ARAM_DMA_ARAM_HI = 18"
definition DSP_ARAM_DMA_ARAM_LO :: nat where "DSP_ARAM_DMA_ARAM_LO = 19"
definition DSP_ARAM_DMA_SIZE_HI :: nat where "DSP_ARAM_DMA_SIZE_HI = 20"
definition DSP_ARAM_DMA_SIZE_LO :: nat where "DSP_ARAM_DMA_SIZE_LO = 21"

lemmas dsp_reg_defs = DSP_CONTROL_STATUS_def DSP_ARAM_DMA_MM_HI_def DSP_ARAM_DMA_MM_LO_def DSP_ARAM_DMA_ARAM_HI_def
  DSP_ARAM_DMA_ARAM_LO_def DSP_ARAM_DMA_SIZE_HI_def DSP_ARAM_DMA_SIZE_LO_def

definition DSPCR_DSPDMA :: u16 where "DSPCR_DSPDMA = 0x0200"
definition DSPCR_DSPINT :: u16 where "DSPCR_DSPINT = 0x0080"
definition DSPCR_ARINT :: u16 where "DSPCR_ARINT = 0x0020"
definition DSPCR_AIINT :: u16 where "DSPCR_AIINT = 0x0008"

text \<open>\<open>reg = (reg & ~clear) | set\<close>, and the halves of a 32-bit value.\<close>

definition dsp_update :: "'h dspops \<Rightarrow> nat \<Rightarrow> u16 \<Rightarrow> u16 \<Rightarrow> 'h \<Rightarrow> 'h" where
  "dsp_update D r clear bits h = (let (v, h) = dsp_load D h r in dsp_store D h r ((v AND NOT clear) OR bits))"

definition hi16 :: "u32 \<Rightarrow> u16" where "hi16 a = ucast (drop_bit 16 a)"
definition lo16 :: "u32 \<Rightarrow> u16" where "lo16 a = ucast (a AND 0xFFFF)"

definition dma_addresses :: "'h dspops \<Rightarrow> u32 \<Rightarrow> u32 \<Rightarrow> 'h \<Rightarrow> 'h" where
  "dma_addresses D memaddr aramaddr h =
     (let h = dsp_update D DSP_ARAM_DMA_MM_HI 0x03FF (hi16 memaddr) h;
          h = dsp_update D DSP_ARAM_DMA_MM_LO 0xFFE0 (lo16 memaddr) h;
          h = dsp_update D DSP_ARAM_DMA_ARAM_HI 0x03FF (hi16 aramaddr) h
      in dsp_update D DSP_ARAM_DMA_ARAM_LO 0xFFE0 (lo16 aramaddr) h)"

definition dma_size :: "'h dspops \<Rightarrow> u16 \<Rightarrow> u32 \<Rightarrow> 'h \<Rightarrow> 'h" where
  "dma_size D dir len h =
     (let h = dsp_update D DSP_ARAM_DMA_SIZE_HI 0x8000 dir h;
          h = dsp_update D DSP_ARAM_DMA_SIZE_HI 0x03FF (hi16 len) h
      in dsp_update D DSP_ARAM_DMA_SIZE_LO 0xFFE0 (lo16 len) h)"

definition decomp_ARStartDMA :: "'h dspops \<Rightarrow> u32 \<Rightarrow> u32 \<Rightarrow> u32 \<Rightarrow> u32 \<Rightarrow> 'h \<Rightarrow> 'h" where
  "decomp_ARStartDMA D ty mainmem_addr aram_addr len h =
     dma_size D (ucast (push_bit 15 ty)) len (dma_addresses D mainmem_addr aram_addr h)"

definition ARGetDMAStatus :: "'h dspops \<Rightarrow> 'h \<Rightarrow> u32 \<times> 'h" where
  "ARGetDMAStatus D h = (let (v, h) = dsp_load D h DSP_CONTROL_STATUS in (ucast (v AND 0x0200), h))"

definition ARClearInterrupt :: "'h dspops \<Rightarrow> 'h \<Rightarrow> 'h" where
  "ARClearInterrupt D h =
     (let (v, h) = dsp_load D h DSP_CONTROL_STATUS; cause = v AND NOT (DSPCR_DSPINT OR DSPCR_AIINT)
      in dsp_store D h DSP_CONTROL_STATUS (cause OR DSPCR_ARINT))"

partial_function (option) ARWaitDma :: "'h dspops \<Rightarrow> 'h \<Rightarrow> 'h option" where
  "ARWaitDma D h =
     (let (v, h) = dsp_load D h DSP_CONTROL_STATUS
      in if v AND DSPCR_DSPDMA \<noteq> 0 then ARWaitDma D h else Some h)"

declare ARWaitDma.simps [code]

definition ARReadDMA :: "'h dspops \<Rightarrow> u32 \<Rightarrow> u32 \<Rightarrow> u32 \<Rightarrow> 'h \<Rightarrow> 'h option" where
  "ARReadDMA D memaddr aramaddr len h =
     map_option (ARClearInterrupt D) (ARWaitDma D (dma_size D 0x8000 len (dma_addresses D memaddr aramaddr h)))"

definition ARWriteDMA :: "'h dspops \<Rightarrow> u32 \<Rightarrow> u32 \<Rightarrow> u32 \<Rightarrow> 'h \<Rightarrow> 'h option" where
  "ARWriteDMA D memaddr aramaddr len h =
     map_option (ARClearInterrupt D) (ARWaitDma D (dma_size D 0 len (dma_addresses D memaddr aramaddr h)))"

section \<open>Copying\<close>

definition memcpy :: "'h dspops \<Rightarrow> u32 \<Rightarrow> u32 \<Rightarrow> u32 \<Rightarrow> 'h \<Rightarrow> 'h" where
  "memcpy D dst src n h = cpu_write D h dst (map (\<lambda>i. cpu_read D h (src + of_nat i)) [0..<unat n])"

definition ARAMFetch :: "'h dspops \<Rightarrow> u32 \<Rightarrow> u32 \<Rightarrow> u32 \<Rightarrow> 'h \<Rightarrow> 'h option" where
  "ARAMFetch D dst src len h = ARReadDMA D dst src len (dc_invalidate D h dst len)"

text \<open>\<open>memcpy\<close> into the buffer \<open>aramfix\<close>, flush and write.\<close>

definition put_fix :: "'h dspops \<Rightarrow> u32 \<Rightarrow> u32 \<Rightarrow> u32 \<Rightarrow> u32 \<Rightarrow> 'h \<Rightarrow> 'h option" where
  "put_fix D aramfix src dst n h =
     ARWriteDMA D aramfix dst n (dc_flush D (memcpy D aramfix src n h) aramfix n)"

text \<open>Fetch 32 bytes, change some of them, put them back.\<close>

definition patch_fix :: "'h dspops \<Rightarrow> u32 \<Rightarrow> u32 \<Rightarrow> u32 \<Rightarrow> u32 \<Rightarrow> u32 \<Rightarrow> 'h \<Rightarrow> 'h option" where
  "patch_fix D aramfix src dst off n h = do {
     h \<leftarrow> ARAMFetch D aramfix dst 32 h;
     ARWriteDMA D aramfix dst 32 (dc_flush D (memcpy D (aramfix + off) src n h) aramfix 32)
   }"

primrec put_blocks :: "'h dspops \<Rightarrow> u32 \<Rightarrow> u32 \<Rightarrow> u32 \<Rightarrow> nat \<Rightarrow> u32 \<Rightarrow> 'h \<Rightarrow> (u32 \<times> 'h) option" where
  "put_blocks D aramfix src dst 0 offset h = Some (offset, h)"
| "put_blocks D aramfix src dst (Suc n) offset h = do {
     h \<leftarrow> put_fix D aramfix (src + offset) (dst + offset) 2048 h;
     put_blocks D aramfix src dst n (offset + 2048) h
   }"

text \<open>
  \<open>len\<close> is a 32-bit \<open>int\<close>: the right shift is arithmetic, and the loop over the blocks does not
  run when it is negative. \<open>put_aligned\<close> is the part after the fix-up of an unaligned start.
\<close>

definition put_aligned :: "'h dspops \<Rightarrow> u32 \<Rightarrow> u32 \<Rightarrow> u32 \<Rightarrow> u32 \<Rightarrow> 'h \<Rightarrow> 'h option" where
  "put_aligned D aramfix src dst len h = do {
     (offset, h) \<leftarrow> put_blocks D aramfix src dst (nat (sint (signed_drop_bit 11 len))) 0 h;
     let len = len AND 0x7FF;
     if len \<noteq> 0
     then do {
       h \<leftarrow> put_fix D aramfix (src + offset) (dst + offset) (len AND NOT 0x1F) h;
       if len AND 0x1F \<noteq> 0
       then (let offset = offset + (len AND NOT 0x1F)
             in patch_fix D aramfix (src + offset) (dst + offset) 0 (len AND 0x1F) h)
       else Some h
     }
     else Some h
   }"

definition ARAMPut :: "'h dspops \<Rightarrow> u32 \<Rightarrow> u32 \<Rightarrow> u32 \<Rightarrow> u32 \<Rightarrow> 'h \<Rightarrow> 'h option" where
  "ARAMPut D aramfix src dst len h =
     (if dst AND 0x1F \<noteq> 0
      then do {
        let todo = 32 - (dst AND 0x1F);
        h \<leftarrow> patch_fix D aramfix src (dst AND NOT 0x1F) (dst AND 0x1F) todo h;
        put_aligned D aramfix (src + todo) ((dst AND NOT 0x1F) + 32) (len - todo) h
      }
      else put_aligned D aramfix src dst len h)"

text \<open>\<open>buffer\<close> is the zeroed 2 KB buffer \<open>memalign\<close> returned.\<close>

partial_function (option) clear_from :: "'h dspops \<Rightarrow> u32 \<Rightarrow> u32 \<Rightarrow> u32 \<Rightarrow> u32 \<Rightarrow> 'h \<Rightarrow> 'h option" where
  "clear_from D aramfix buffer len i h =
     (if i < 0x1000000 - len
      then Option.bind (ARAMPut D aramfix buffer i 2048 h) (clear_from D aramfix buffer len (i + 2048))
      else Some h)"

declare clear_from.simps [code]

definition ARAMClear :: "'h dspops \<Rightarrow> u32 \<Rightarrow> u32 \<Rightarrow> u32 \<Rightarrow> u32 \<Rightarrow> 'h \<Rightarrow> 'h option" where
  "ARAMClear D aramfix buffer start len h =
     clear_from D aramfix buffer len start (dc_flush D (cpu_write D h buffer (replicate 2048 0)) buffer 2048)"

section \<open>The interface as documented\<close>

definition phys26 :: "u32 \<Rightarrow> u32" where "phys26 a = a AND mask 26"

definition dma_field :: "u16 \<Rightarrow> u16 \<Rightarrow> u32" where
  "dma_field hi lo = push_bit 16 (ucast (hi AND mask 10)) OR (ucast lo AND NOT (mask 5))"

definition dma_of :: "(nat \<Rightarrow> u16) \<Rightarrow> transfer" where
  "dma_of r = (if bit (r DSP_ARAM_DMA_SIZE_HI) 15 then ARQ_TYPE_ARAM_TO_MRAM else ARQ_TYPE_MRAM_TO_ARAM,
     dma_field (r DSP_ARAM_DMA_MM_HI) (r DSP_ARAM_DMA_MM_LO), dma_field (r DSP_ARAM_DMA_ARAM_HI) (r DSP_ARAM_DMA_ARAM_LO),
     dma_field (r DSP_ARAM_DMA_SIZE_HI) (r DSP_ARAM_DMA_SIZE_LO))"

text \<open>
  \<open>regs\<close>, \<open>mems\<close> and \<open>left\<close> see in the machine the DMA registers, main memory with ARAM, and how
  long the busy bit can still be read as set.
\<close>

definition load_ok :: "'h dspops \<Rightarrow> ('h \<Rightarrow> nat \<Rightarrow> u16) \<Rightarrow> ('h \<Rightarrow> memory \<times> memory) \<Rightarrow> ('h \<Rightarrow> nat) \<Rightarrow> bool" where
  "load_ok D regs mems left \<longleftrightarrow>
     (\<forall>h r v h'. dsp_load D h r = (v, h') \<longrightarrow> regs h' = regs h \<and> mems h' = mems h \<and>
        (r \<noteq> DSP_CONTROL_STATUS \<longrightarrow> v = regs h r) \<and>
        (r = DSP_CONTROL_STATUS \<and> v AND DSPCR_DSPDMA \<noteq> 0 \<longrightarrow> left h' < left h))"

definition store_ok :: "'h dspops \<Rightarrow> ('h \<Rightarrow> nat \<Rightarrow> u16) \<Rightarrow> ('h \<Rightarrow> memory \<times> memory) \<Rightarrow> bool" where
  "store_ok D regs mems \<longleftrightarrow>
     (\<forall>h r v. r \<noteq> DSP_ARAM_DMA_SIZE_LO \<longrightarrow> regs (dsp_store D h r v) = (regs h)(r := v) \<and> mems (dsp_store D h r v) = mems h) \<and>
     (\<forall>h v. mems (dsp_store D h DSP_ARAM_DMA_SIZE_LO v) = do_transfer (dma_of ((regs h)(DSP_ARAM_DMA_SIZE_LO := v))) (mems h))"

definition cpu_ok :: "'h dspops \<Rightarrow> ('h \<Rightarrow> memory \<times> memory) \<Rightarrow> bool" where
  "cpu_ok D mems \<longleftrightarrow>
     (\<forall>h a. cpu_read D h a = fst (mems h) (phys26 a)) \<and>
     (\<forall>h a bs. unat (phys26 a) + length bs \<le> 2 ^ 26 \<longrightarrow>
        mems (cpu_write D h a bs) =
          (\<lambda>x. if unat (x - phys26 a) < length bs then bs ! unat (x - phys26 a) else fst (mems h) x, snd (mems h))) \<and>
     (\<forall>h a n. mems (dc_flush D h a n) = mems h \<and> mems (dc_invalidate D h a n) = mems h)"

definition dsp_ok :: "'h dspops \<Rightarrow> ('h \<Rightarrow> nat \<Rightarrow> u16) \<Rightarrow> ('h \<Rightarrow> memory \<times> memory) \<Rightarrow> ('h \<Rightarrow> nat) \<Rightarrow> bool" where
  "dsp_ok D regs mems left \<longleftrightarrow> load_ok D regs mems left \<and> store_ok D regs mems \<and> cpu_ok D mems"

section \<open>The transfer the registers describe\<close>

lemma dma_masks: "(0x03FF :: u16) = mask 10" "(0xFFE0 :: u16) = NOT (mask 5)" "(0x8000 :: u16) = push_bit 15 1" "(0xFFFF :: u32) = mask 16"
  by (simp_all add: mask_eq_exp_minus_1)

text \<open>What a half keeps of the old contents of its register does not count.\<close>

lemma dma_field_update:
  "dma_field ((v AND NOT (0x03FF :: u16)) OR hi16 a) ((w AND NOT (0xFFE0 :: u16)) OR lo16 a) = a AND (mask 26 AND NOT (mask 5))"
  unfolding dma_field_def hi16_def lo16_def dma_masks
  by (rule bit_word_eqI) (auto simp: bit_simps)

lemma dsp_update_ok:
  assumes "dsp_ok D regs mems left" "r \<noteq> DSP_CONTROL_STATUS"
  shows "r \<noteq> DSP_ARAM_DMA_SIZE_LO \<Longrightarrow> regs (dsp_update D r c b h) = (regs h)(r := (regs h r AND NOT c) OR b)"
    "r \<noteq> DSP_ARAM_DMA_SIZE_LO \<Longrightarrow> mems (dsp_update D r c b h) = mems h"
    "mems (dsp_update D DSP_ARAM_DMA_SIZE_LO c b h) =
       do_transfer (dma_of ((regs h)(DSP_ARAM_DMA_SIZE_LO := (regs h DSP_ARAM_DMA_SIZE_LO AND NOT c) OR b))) (mems h)"
proof -
  have l: "regs h' = regs h" "mems h' = mems h" "q \<noteq> DSP_CONTROL_STATUS \<longrightarrow> v = regs h q" if "dsp_load D h q = (v, h')" for q v h'
    using assms that unfolding dsp_ok_def load_ok_def by blast+
  have c: "DSP_ARAM_DMA_SIZE_LO \<noteq> DSP_CONTROL_STATUS" by (simp add: dsp_reg_defs)
  show "r \<noteq> DSP_ARAM_DMA_SIZE_LO \<Longrightarrow> regs (dsp_update D r c b h) = (regs h)(r := (regs h r AND NOT c) OR b)"
    "r \<noteq> DSP_ARAM_DMA_SIZE_LO \<Longrightarrow> mems (dsp_update D r c b h) = mems h"
    using assms l [of r] by (cases "dsp_load D h r"; simp add: dsp_update_def dsp_ok_def store_ok_def)+
  show "mems (dsp_update D DSP_ARAM_DMA_SIZE_LO c b h) =
       do_transfer (dma_of ((regs h)(DSP_ARAM_DMA_SIZE_LO := (regs h DSP_ARAM_DMA_SIZE_LO AND NOT c) OR b))) (mems h)"
    using assms(1) l [of DSP_ARAM_DMA_SIZE_LO] c
    by (cases "dsp_load D h DSP_ARAM_DMA_SIZE_LO") (simp add: dsp_update_def dsp_ok_def store_ok_def)
qed

definition dma_aligned :: "u32 \<Rightarrow> u32" where
  "dma_aligned a = a AND (mask 26 AND NOT (mask 5))"

lemma dma_started:
  assumes "dsp_ok D regs mems left" "len < 2 ^ 26" "dir AND NOT (push_bit 15 1) = 0"
  shows "mems (dma_size D dir len (dma_addresses D mm ar h)) =
    do_transfer (if bit dir 15 then ARQ_TYPE_ARAM_TO_MRAM else ARQ_TYPE_MRAM_TO_ARAM, dma_aligned mm, dma_aligned ar, dma_aligned len) (mems h)"
proof -
  have "take_bit 26 len = len" using less_mask_eq [of len 26] assms(2) by (simp add: take_bit_eq_mask)
  then have "bit len 31 \<longleftrightarrow> bit (take_bit 26 len) 31" by simp
  then have d: "\<not> bit (hi16 len) 15" by (simp add: hi16_def bit_simps)
  have "bit ((v AND NOT (0x8000 :: u16) OR dir) AND NOT (0x03FF :: u16) OR hi16 len) 15 = bit dir 15" for v
    unfolding dma_masks using d by (simp add: bit_simps)
  then show ?thesis
    by (simp add: dma_size_def dma_addresses_def Let_def dsp_update_ok(1,2) [OF assms(1), unfolded dsp_reg_defs]
        dsp_update_ok(3) [OF assms(1), of DSP_ARAM_DMA_MM_HI, unfolded dsp_reg_defs, simplified] dsp_reg_defs dma_of_def
        dma_field_update [simplified] dma_aligned_def)
qed

section \<open>What the routines copy\<close>

lemma wait_ends:
  assumes "dsp_ok D regs mems left"
  shows "\<exists>h'. ARWaitDma D h = Some h' \<and> mems h' = mems h"
proof (induction "left h" arbitrary: h rule: less_induct)
  case less
  obtain v h' where l: "dsp_load D h DSP_CONTROL_STATUS = (v, h')" by fastforce
  have o: "mems h' = mems h" "v AND DSPCR_DSPDMA \<noteq> 0 \<Longrightarrow> left h' < left h"
    using assms l unfolding dsp_ok_def load_ok_def by blast+
  show ?case
  proof (cases "v AND DSPCR_DSPDMA = 0")
    case True
    then show ?thesis using o(1) l by (subst ARWaitDma.simps) simp
  next
    case False
    then show ?thesis using o less(1) [of h'] l by (subst ARWaitDma.simps) simp
  qed
qed

lemma clear_interrupt_mems:
  assumes "dsp_ok D regs mems left"
  shows "mems (ARClearInterrupt D h) = mems h"
proof -
  obtain v h' where l: "dsp_load D h DSP_CONTROL_STATUS = (v, h')" by fastforce
  then have "mems h' = mems h" using assms unfolding dsp_ok_def load_ok_def by blast
  then show ?thesis using assms l by (simp add: ARClearInterrupt_def dsp_ok_def store_ok_def dsp_reg_defs)
qed

lemma write_dma:
  assumes "dsp_ok D regs mems left" "len < 2 ^ 26"
  shows "\<exists>h'. ARWriteDMA D mm ar len h = Some h' \<and>
    mems h' = do_transfer (ARQ_TYPE_MRAM_TO_ARAM, dma_aligned mm, dma_aligned ar, dma_aligned len) (mems h)"
  using wait_ends [OF assms(1), of "dma_size D 0 len (dma_addresses D mm ar h)"] dma_started [OF assms, of 0 mm ar h]
  by (auto simp: ARWriteDMA_def clear_interrupt_mems [OF assms(1)])

lemma read_dma:
  assumes "dsp_ok D regs mems left" "len < 2 ^ 26"
  shows "\<exists>h'. ARReadDMA D mm ar len h = Some h' \<and>
    mems h' = do_transfer (ARQ_TYPE_ARAM_TO_MRAM, dma_aligned mm, dma_aligned ar, dma_aligned len) (mems h)"
  using wait_ends [OF assms(1), of "dma_size D 0x8000 len (dma_addresses D mm ar h)"] dma_started [OF assms, of "0x8000" mm ar h]
  by (auto simp: ARReadDMA_def clear_interrupt_mems [OF assms(1)])

text \<open>Aligned addresses and sizes go through unchanged.\<close>

definition aligned32 :: "u32 \<Rightarrow> bool" where "aligned32 a \<longleftrightarrow> a AND 0x1F = 0"

lemma mask5: "(0x1F :: u32) = mask 5"
  by (simp add: mask_eq_exp_minus_1)

lemma aligned32_unat: "aligned32 a \<longleftrightarrow> 32 dvd unat a"
proof -
  have "unat (a AND 0x1F) = unat a mod 32" unfolding mask5 by (simp add: unat_and_mask)
  then show ?thesis by (simp add: aligned32_def dvd_eq_mod_eq_0 word_unat_eq_iff)
qed

lemma dma_aligned_phys: "aligned32 a \<Longrightarrow> dma_aligned a = phys26 a"
  unfolding aligned32_def dma_aligned_def phys26_def mask5
  by (rule bit_word_eqI) (drule arg_cong [of _ _ "\<lambda>w. bit w n" for n], auto simp: bit_simps)

lemma phys26_id: "a < 2 ^ 26 \<Longrightarrow> phys26 a = a"
  by (simp add: phys26_def less_mask_eq)

lemma phys26_less: "unat (phys26 a) < 2 ^ 26"
  by (simp add: phys26_def unat_and_mask)

lemma phys26_add:
  assumes "unat (phys26 a) + unat k < 2 ^ 26"
  shows "phys26 (a + k) = phys26 a + k"
proof -
  have "phys26 (a + k) = phys26 (phys26 a + k)"
    by (simp add: phys26_def word_unat_eq_iff unat_and_mask unat_word_ariths mod_simps mod_mod_cancel)
  moreover have "phys26 a + k < 2 ^ 26" using assms by (simp add: word_less_nat_alt unat_word_ariths)
  ultimately show ?thesis by (simp add: phys26_id)
qed

definition src_ok :: "u32 \<Rightarrow> u32 \<Rightarrow> u32 \<Rightarrow> bool" where
  "src_ok f s n \<longleftrightarrow> (\<forall>i < n. phys26 (s + i) = phys26 s + i \<and> \<not> phys26 s + i - f < 2048)"

definition fix_same :: "u32 \<Rightarrow> memory \<Rightarrow> memory \<Rightarrow> bool" where
  "fix_same f m m' \<longleftrightarrow> (\<forall>x. \<not> x - f < 2048 \<longrightarrow> m' x = m x)"

lemma src_ok_drop:
  assumes "src_ok f s n" "k < n"
  shows "src_ok f (s + k) (n - k)" "phys26 (s + k) = phys26 s + k"
proof -
  show p: "phys26 (s + k) = phys26 s + k" using assms by (simp add: src_ok_def)
  have "k + i < n" if "i < n - k" for i
    using that assms(2) by (simp add: word_less_nat_alt unat_sub unat_word_ariths)
  then show "src_ok f (s + k) (n - k)" using assms p by (auto simp: src_ok_def add.assoc)
qed

lemma src_ok_take: "src_ok f s n \<Longrightarrow> k \<le> n \<Longrightarrow> src_ok f s k"
  by (auto simp: src_ok_def)

definition put_spec :: "u32 \<Rightarrow> u32 \<Rightarrow> u32 \<Rightarrow> memory \<times> memory \<Rightarrow> memory" where
  "put_spec s d n mm = snd (do_transfer (ARQ_TYPE_MRAM_TO_ARAM, phys26 s, d, n) mm)"

lemma put_spec_0 [simp]: "put_spec s d 0 mm = snd mm"
  by (cases mm) (simp add: put_spec_def)

lemma put_spec_cong:
  assumes "fix_same f m m'" "src_ok f s n"
  shows "put_spec s d n (m', a) = put_spec s d n (m, a)"
  using assms by (auto simp: put_spec_def fix_same_def src_ok_def)

lemma put_spec_split:
  assumes "src_ok f s n" "c \<le> n"
  shows "put_spec (s + c) (d + c) (n - c) (m, put_spec s d c (m, a)) = put_spec s d n (m, a)"
proof (cases "c = n")
  case True
  then show ?thesis by (simp add: put_spec_def)
next
  case False
  then have c: "c < n" using assms(2) by simp
  have "do_transfer (ARQ_TYPE_MRAM_TO_ARAM, phys26 s, d, c) (m, a) = (m, put_spec s d c (m, a))"
    by (simp add: put_spec_def)
  then show ?thesis using do_transfer_split [OF c, of ARQ_TYPE_MRAM_TO_ARAM "phys26 s" d "(m, a)"] src_ok_drop(2) [OF assms(1) c]
    by (simp add: put_spec_def)
qed

lemma memcpy_mems:
  assumes D: "dsp_ok D regs mems left" and n: "unat (phys26 dst) + unat n \<le> 2 ^ 26" and s: "\<forall>i < n. phys26 (src + i) = phys26 src + i"
  shows "mems (memcpy D dst src n h) =
    (\<lambda>x. if x - phys26 dst < n then fst (mems h) (phys26 src + (x - phys26 dst)) else fst (mems h) x, snd (mems h))"
proof -
  have r: "cpu_read D h a = fst (mems h) (phys26 a)" for a using D by (simp add: dsp_ok_def cpu_ok_def)
  have w: "unat (phys26 a) + length bs \<le> 2 ^ 26 \<Longrightarrow> mems (cpu_write D h a bs) =
      (\<lambda>x. if unat (x - phys26 a) < length bs then bs ! unat (x - phys26 a) else fst (mems h) x, snd (mems h))" for a bs
    using D by (simp add: dsp_ok_def cpu_ok_def)
  have "mems (memcpy D dst src n h) = (\<lambda>x. if unat (x - phys26 dst) < unat n
      then map (\<lambda>i. cpu_read D h (src + of_nat i)) [0..<unat n] ! unat (x - phys26 dst) else fst (mems h) x, snd (mems h))"
    unfolding memcpy_def by (subst w) (use n in simp_all)
  moreover have "(if unat (x - phys26 dst) < unat n
      then map (\<lambda>i. cpu_read D h (src + of_nat i)) [0..<unat n] ! unat (x - phys26 dst) else fst (mems h) x) =
      (if x - phys26 dst < n then fst (mems h) (phys26 src + (x - phys26 dst)) else fst (mems h) x)" for x
  proof (cases "x - phys26 dst < n")
    case True
    then have "unat (x - phys26 dst) < unat n" by (simp add: word_less_nat_alt)
    moreover have "phys26 (src + (x - phys26 dst)) = phys26 src + (x - phys26 dst)" using s True by blast
    ultimately show ?thesis using True by (simp add: r)
  next
    case False
    then show ?thesis by (simp add: word_less_nat_alt)
  qed
  ultimately show ?thesis by simp
qed


lemma dma_aligned_small: "aligned32 d \<Longrightarrow> d < 2 ^ 26 \<Longrightarrow> dma_aligned d = d"
  by (simp add: dma_aligned_phys phys26_id)

text \<open>The buffer: aligned, 2 KB, inside main memory.\<close>

definition fix_ok :: "u32 \<Rightarrow> bool" where
  "fix_ok fx \<longleftrightarrow> aligned32 fx \<and> unat (phys26 fx) + 2048 \<le> 2 ^ 26"

lemma put_fix_copies:
  assumes D: "dsp_ok D regs mems left" and f: "fix_ok fx" and s: "src_ok (phys26 fx) src n"
    and n: "n \<le> 2048" "aligned32 n" and d: "aligned32 dst" "dst < 2 ^ 26"
  shows "\<exists>h'. put_fix D fx src dst n h = Some h' \<and> fix_same (phys26 fx) (fst (mems h)) (fst (mems h')) \<and>
    snd (mems h') = put_spec src dst n (mems h)"
proof -
  let ?f = "phys26 fx" and ?h = "memcpy D fx src n h"
  have u: "unat n \<le> 2048" using n(1) by (simp add: word_le_nat_alt)
  have n26: "n < 2 ^ 26" using u by (simp add: word_less_nat_alt)
  have m: "mems ?h = (\<lambda>x. if x - ?f < n then fst (mems h) (phys26 src + (x - ?f)) else fst (mems h) x, snd (mems h))"
    by (rule memcpy_mems [OF D]) (use f u s in \<open>auto simp: fix_ok_def src_ok_def\<close>)
  have fl: "mems (dc_flush D ?h fx n) = mems ?h" using D by (simp add: dsp_ok_def cpu_ok_def)
  obtain h' where h': "put_fix D fx src dst n h = Some h'"
    "mems h' = do_transfer (ARQ_TYPE_MRAM_TO_ARAM, ?f, dst, n) (mems ?h)"
    using write_dma [OF D n26, of fx dst "dc_flush D ?h fx n"] f n d
    by (auto simp: put_fix_def fl dma_aligned_phys phys26_id phys26_id [OF n26] fix_ok_def)
  have "fix_same ?f (fst (mems h)) (fst (mems h'))" using h'(2) m n(1) by (auto simp: fix_same_def)
  moreover have "snd (mems h') = put_spec src dst n (mems h)"
    using h'(2) m by (cases "mems h") (auto simp: put_spec_def)
  ultimately show ?thesis using h'(1) by blast
qed

lemma patch_fix_copies:
  assumes D: "dsp_ok D regs mems left" and f: "fix_ok fx" and s: "src_ok (phys26 fx) src n"
    and n: "unat off < 32" "unat off + unat n \<le> 32" and d: "aligned32 dst" "dst < 2 ^ 26"
  shows "\<exists>h'. patch_fix D fx src dst off n h = Some h' \<and> fix_same (phys26 fx) (fst (mems h)) (fst (mems h')) \<and>
    snd (mems h') = put_spec src (dst + off) n (mems h)"
proof -
  let ?f = "phys26 fx"
  have a: "dma_aligned fx = ?f" "dma_aligned dst = dst" "dma_aligned 32 = 32" "(32 :: u32) < 2 ^ 26"
    using f d by (simp_all add: dma_aligned_phys phys26_id fix_ok_def aligned32_def)
  have k: "mems (dc_invalidate D h a n) = mems h" "mems (dc_flush D h a n) = mems h" for h a n
    using D by (simp_all add: dsp_ok_def cpu_ok_def)
  obtain g where g: "ARAMFetch D fx dst 32 h = Some g" "mems g = do_transfer (ARQ_TYPE_ARAM_TO_MRAM, ?f, dst, 32) (mems h)"
    using read_dma [OF D a(4), of fx dst "dc_invalidate D h fx 32"] by (auto simp: ARAMFetch_def k a(1-3))
  have gm: "mems g = (\<lambda>x. if x - ?f < 32 then snd (mems h) (dst + (x - ?f)) else fst (mems h) x, snd (mems h))"
    using g(2) by (cases "mems h") (auto simp: fun_eq_iff ARQ_TYPE_ARAM_TO_MRAM_def ARQ_TYPE_MRAM_TO_ARAM_def)
  have "32 dvd unat ?f" using f by (simp add: fix_ok_def aligned32_unat phys26_def unat_and_mask dvd_mod)
  then have "unat ?f + 32 \<le> 2 ^ 26" using phys26_less [of fx] by (auto elim!: dvdE)
  then have po: "phys26 (fx + off) = ?f + off" using phys26_add [of fx off] n(1) by simp
  let ?g = "memcpy D (fx + off) src n g"
  have uo: "unat (?f + off) = unat ?f + unat off" using \<open>unat ?f + 32 \<le> 2 ^ 26\<close> n(1) by (simp add: unat_word_ariths)
  have gg: "mems ?g = (\<lambda>x. if x - (?f + off) < n then fst (mems g) (phys26 src + (x - (?f + off))) else fst (mems g) x, snd (mems h))"
    using memcpy_mems [OF D, of "fx + off" n src g, unfolded po] s n(2) \<open>unat ?f + 32 \<le> 2 ^ 26\<close> uo gm by (simp add: src_ok_def)
  obtain h' where h': "patch_fix D fx src dst off n h = Some h'"
    "mems h' = do_transfer (ARQ_TYPE_MRAM_TO_ARAM, ?f, dst, 32) (mems ?g)"
    using write_dma [OF D a(4), of fx dst "dc_flush D ?g fx 32"] by (auto simp: patch_fix_def g(1) k a(1-3))
  have below: "y - off < n \<Longrightarrow> y < 32" for y
    using n by (simp add: word_less_nat_alt unat_sub_if' split: if_splits)
  have out: "fst (mems g) (phys26 src + i) = fst (mems h) (phys26 src + i)" if "i < n" for i
  proof -
    have "\<not> phys26 src + i - ?f < 2048" using s that by (simp add: src_ok_def)
    then have "\<not> phys26 src + i - ?f < 32" by (simp add: word_less_nat_alt)
    then show ?thesis using gm by simp
  qed
  have "fix_same ?f (fst (mems h)) (fst (mems h'))" unfolding fix_same_def
  proof (intro allI impI)
    fix x
    assume x: "\<not> x - ?f < 2048"
    then have "\<not> x - ?f < 32" by (simp add: word_less_nat_alt)
    moreover from this have "\<not> x - (?f + off) < n" using below [of "x - ?f"] by (auto simp: diff_diff_eq)
    ultimately show "fst (mems h') x = fst (mems h) x" using h'(2) gg gm by simp
  qed
  moreover have "snd (mems h') = put_spec src (dst + off) n (mems h)"
  proof
    fix x
    obtain m ar where ma: "mems h = (m, ar)" by fastforce
    have e: "x - (dst + off) = (x - dst) - off" "?f + (x - dst) - (?f + off) = (x - dst) - off" by simp_all
    have "snd (mems h') x = (if x - dst < 32 then fst (mems ?g) (?f + (x - dst)) else ar x)"
      using h'(2) gg ma by (simp add: ARQ_TYPE_MRAM_TO_ARAM_def)
    also have "\<dots> = (if (x - dst) - off < n then m (phys26 src + ((x - dst) - off)) else ar x)"
      using out [of "(x - dst) - off"] below [of "x - dst"] gm ma by (auto simp: gg e(2))
    finally show "snd (mems h') x = put_spec src (dst + off) n (mems h) x"
      by (simp add: put_spec_def ma e(1))
  qed
  ultimately show ?thesis using h'(1) by blast
qed


lemma aligned32_add: "aligned32 a \<Longrightarrow> aligned32 b \<Longrightarrow> aligned32 (a + b)"
proof -
  assume "aligned32 a" "aligned32 b"
  then have "32 dvd (unat a + unat b) mod 2 ^ 32" by (simp add: aligned32_unat dvd_mod)
  then show ?thesis by (simp add: aligned32_unat unat_word_ariths)
qed

lemma fix_same_trans: "fix_same f m m' \<Longrightarrow> fix_same f m' m'' \<Longrightarrow> fix_same f m m''"
  by (simp add: fix_same_def)

text \<open>
  A step that copies the next \<open>k\<close> bytes behind the \<open>c\<close> bytes copied so far; \<open>copied\<close> is
  the state of the copy.
\<close>

definition copied :: "u32 \<Rightarrow> u32 \<Rightarrow> u32 \<Rightarrow> u32 \<Rightarrow> memory \<times> memory \<Rightarrow> memory \<times> memory \<Rightarrow> bool" where
  "copied fx src dst c mm mm' \<longleftrightarrow> fix_same (phys26 fx) (fst mm) (fst mm') \<and> snd mm' = put_spec src dst c mm"

lemma copied_step:
  assumes c: "copied fx src dst c mm mm'" and s: "src_ok (phys26 fx) src n" and n: "unat c + unat k \<le> unat n"
    and k: "fix_same (phys26 fx) (fst mm') (fst mm'')" "snd mm'' = put_spec (src + c) (dst + c) k mm'"
  shows "copied fx src dst (c + k) mm mm''"
proof -
  have le: "c \<le> c + k" "c + k \<le> n" using n unat_u32_less [of n] by (auto simp: word_le_nat_alt unat_word_ariths)
  have sk: "src_ok (phys26 fx) src (c + k)" using src_ok_take [OF s le(2)] .
  have "snd mm'' = put_spec (src + c) (dst + c) k (fst mm, snd mm')"
  proof (cases "k = 0")
    case True
    then show ?thesis using k(2) by simp
  next
    case False
    then have "c < c + k" using n unat_u32_less [of n] by (simp add: word_less_nat_alt unat_word_ariths unat_gt_0)
    from src_ok_drop(1) [OF sk this] have "src_ok (phys26 fx) (src + c) k" by simp
    moreover have "fix_same (phys26 fx) (fst mm) (fst mm')" using c by (simp add: copied_def)
    ultimately show ?thesis using k(2) put_spec_cong [of "phys26 fx" "fst mm" "fst mm'" "src + c" k "dst + c" "snd mm'"] by simp
  qed
  also have "\<dots> = put_spec src dst (c + k) mm"
    using put_spec_split [OF sk le(1), of dst "fst mm" "snd mm"] c by (simp add: copied_def)
  finally show ?thesis using c k(1) fix_same_trans by (auto simp: copied_def)
qed

lemma put_blocks_copies:
  assumes D: "dsp_ok D regs mems left" and f: "fix_ok fx" and s: "src_ok (phys26 fx) src n"
    and d: "aligned32 dst" "unat dst + unat n \<le> 2 ^ 26"
  shows "copied fx src dst offset mm (mems h) \<Longrightarrow> aligned32 offset \<Longrightarrow> unat offset + 2048 * b \<le> unat n \<Longrightarrow>
    \<exists>h'. put_blocks D fx src dst b offset h = Some (offset + of_nat (2048 * b), h') \<and>
      copied fx src dst (offset + of_nat (2048 * b)) mm (mems h')"
proof (induction b arbitrary: offset h)
  case (Suc b)
  have ob: "unat offset + 2048 \<le> unat n" using Suc.prems(3) by simp
  have uo: "unat (offset + 2048) = unat offset + 2048" using ob unat_u32_less [of n] by (simp add: unat_word_ariths)
  have lt: "offset < offset + 2048" "offset + 2048 \<le> n" using ob uo by (simp_all add: word_less_nat_alt word_le_nat_alt)
  have sb: "src_ok (phys26 fx) (src + offset) 2048" using src_ok_drop(1) [OF src_ok_take [OF s lt(2)] lt(1)] by simp
  have ud: "unat (dst + offset) = unat dst + unat offset" using d(2) ob by (simp add: unat_word_ariths)
  then have "dst + offset < 2 ^ 26" using d(2) ob by (simp add: word_less_nat_alt)
  then obtain g where g: "put_fix D fx (src + offset) (dst + offset) 2048 h = Some g"
    "fix_same (phys26 fx) (fst (mems h)) (fst (mems g))" "snd (mems g) = put_spec (src + offset) (dst + offset) 2048 (mems h)"
    using put_fix_copies [OF D f sb, of "dst + offset" h] aligned32_add [OF d(1) Suc.prems(2)] by (auto simp: aligned32_def)
  have c: "copied fx src dst (offset + 2048) mm (mems g)"
    using copied_step [OF Suc.prems(1) s, of 2048 "mems g"] g(2,3) ob by simp
  have "aligned32 (offset + 2048)" using aligned32_add [OF Suc.prems(2), of 2048] by (simp add: aligned32_def)
  from Suc.IH [OF c this] obtain h' where "put_blocks D fx src dst b (offset + 2048) g = Some (offset + 2048 + of_nat (2048 * b), h')"
    "copied fx src dst (offset + 2048 + of_nat (2048 * b)) mm (mems h')" using Suc.prems(3) uo by auto
  then show ?case using g(1) by (simp add: algebra_simps)
qed simp


definition eff_len :: "u32 \<Rightarrow> u32" where
  "eff_len len = (if 0 \<le> sint len then len else len AND 0x7FF)"

lemma mask11: "(0x7FF :: u32) = mask 11"
  by (simp add: mask_eq_exp_minus_1)

lemma eff_len_parts:
  "unat (eff_len len) = 2048 * nat (sint (signed_drop_bit 11 len)) + unat (len AND 0x7FF)"
proof -
  have r: "unat (len AND 0x7FF) = unat len mod 2048" unfolding mask11 by (simp add: unat_and_mask)
  have b: "sint (signed_drop_bit 11 len) = sint len div 2048" by (simp add: sint_signed_drop_bit_eq drop_bit_eq_div)
  show ?thesis
  proof (cases "0 \<le> sint len")
    case True
    have "uint len = take_bit LENGTH(32) (sint len)" by (rule uint_sint)
    also have "\<dots> = sint len" by (rule take_bit_int_eq_self) (use True sint_lt [of len] in simp_all)
    finally have "sint len = int (unat len)" by (simp only: uint_nat)
    then have "nat (sint len div 2048) = unat len div 2048" by (simp add: nat_div_distrib)
    then show ?thesis using True by (simp add: eff_len_def r b)
  next
    case False
    then have "sint len div 2048 < 0" by (simp add: pos_imp_zdiv_neg_iff)
    then show ?thesis using False by (simp add: eff_len_def b)
  qed
qed

lemma put_aligned_copies:
  assumes D: "dsp_ok D regs mems left" and f: "fix_ok fx" and s: "src_ok (phys26 fx) src (eff_len len)"
    and d: "aligned32 dst" "unat dst + unat (eff_len len) \<le> 2 ^ 26"
  shows "\<exists>h'. put_aligned D fx src dst len h = Some h' \<and> copied fx src dst (eff_len len) (mems h) (mems h')"
proof -
  let ?b = "nat (sint (signed_drop_bit 11 len))" and ?r = "len AND 0x7FF"
  define at0 :: u32 where "at0 = of_nat (2048 * ?b)"
  note e = eff_len_parts [of len]
  have c0: "copied fx src dst 0 (mems h) (mems h)" by (simp add: copied_def fix_same_def)
  have uo: "unat at0 = 2048 * ?b" using e unat_u32_less [of "eff_len len"] at0_def by (intro of_nat_inverse) simp_all
  have eo: "eff_len len = at0 + ?r" using e uo unat_u32_less [of "eff_len len"] by (simp add: word_unat_eq_iff unat_word_ariths)
  have ao: "aligned32 at0" by (simp only: aligned32_unat uo) simp
  obtain g where g: "put_blocks D fx src dst ?b 0 h = Some (at0, g)" "copied fx src dst at0 (mems h) (mems g)"
    using put_blocks_copies [OF D f s d c0, of ?b] e at0_def by (auto simp: aligned32_def)
  show ?thesis
  proof (cases "?r = 0")
    case True
    then show ?thesis using g eo by (simp add: put_aligned_def)
  next
    case False
    let ?a = "?r AND NOT 0x1F" and ?t = "?r AND 0x1F"
    have ua: "unat ?a = unat ?r - unat ?r mod 32" unfolding mask5 by (simp add: unat_and_not_mask)
    have ut: "unat ?t = unat ?r mod 32" unfolding mask5 by (simp add: unat_and_mask)
    have at: "unat ?a + unat ?t = unat ?r" using ua ut by (simp add: mod_less_eq_dividend)
    have ar: "?a + ?t = ?r" using at unat_u32_less [of ?r] by (simp add: word_unat_eq_iff unat_word_ariths)
    have aa: "aligned32 ?a" unfolding aligned32_unat ua by (simp add: minus_mod_eq_mult_div)
    have r11: "unat ?r < 2048" unfolding mask11 by (simp add: unat_and_mask)
    have sub: "src_ok (phys26 fx) (src + c) k" if "unat c + unat k \<le> unat (eff_len len)" for c k
    proof (cases "k = 0")
      case False
      have le: "c < c + k" "c + k \<le> eff_len len" using that False unat_u32_less [of "eff_len len"]
        by (auto simp: word_less_nat_alt word_le_nat_alt unat_word_ariths unat_gt_0)
      show ?thesis using src_ok_drop(1) [OF src_ok_take [OF s le(2)] le(1)] by simp
    qed (simp add: src_ok_def)
    have ud: "dst + c < 2 ^ 26" if "unat c < unat (eff_len len)" for c
      using that d(2) by (simp add: word_less_nat_alt unat_word_ariths)
    have od: "unat at0 < unat (eff_len len)" using e uo False by (simp add: unat_gt_0)
    obtain g2 where g2: "put_fix D fx (src + at0) (dst + at0) ?a g = Some g2"
      "fix_same (phys26 fx) (fst (mems g)) (fst (mems g2))" "snd (mems g2) = put_spec (src + at0) (dst + at0) ?a (mems g)"
      using put_fix_copies [OF D f sub [of at0 ?a] _ aa aligned32_add [OF d(1) ao] ud [OF od], of g] e uo at r11
      by (auto simp: word_le_nat_alt)
    have c2: "copied fx src dst (at0 + ?a) (mems h) (mems g2)"
      using copied_step [OF g(2) s _ g2(2,3)] e uo at by simp
    show ?thesis
    proof (cases "?t = 0")
      case True
      then show ?thesis using g(1) g2(1) c2 eo ar False by (simp add: put_aligned_def)
    next
      case False
      then have tp: "0 < unat ?t" by (simp only: unat_gt_0 not_False_eq_True)
      have uoa: "unat (at0 + ?a) = unat at0 + unat ?a" using e uo at unat_u32_less [of "eff_len len"]
        by (simp add: unat_word_ariths)
      have lt: "unat (at0 + ?a) + unat ?t \<le> unat (eff_len len)" "unat (at0 + ?a) < unat (eff_len len)"
        using e uo at uoa tp by linarith+
      obtain g3 where g3: "patch_fix D fx (src + (at0 + ?a)) (dst + (at0 + ?a)) 0 ?t g2 = Some g3"
        "fix_same (phys26 fx) (fst (mems g2)) (fst (mems g3))"
        "snd (mems g3) = put_spec (src + (at0 + ?a)) (dst + (at0 + ?a) + 0) ?t (mems g2)"
        using patch_fix_copies [OF D f sub [OF lt(1)] _ _ aligned32_add [OF d(1) aligned32_add [OF ao aa]] ud [OF lt(2)], of 0 g2] ut
        by auto
      have "copied fx src dst (at0 + ?a + ?t) (mems h) (mems g3)"
        using copied_step [OF c2 s lt(1) g3(2)] g3(3) by simp
      moreover have "at0 + ?a + ?t = eff_len len" using eo ar by (simp add: add.assoc)
      ultimately show ?thesis using g(1) g2(1) g3(1) \<open>?r \<noteq> 0\<close> False by (simp add: put_aligned_def)
    qed
  qed
qed


text \<open>
  What \<open>ARAMPut\<close> copies: the length, except that a length too short to reach the next 32-byte
  boundary behind an unaligned start becomes 2048 bytes longer.
\<close>

definition put_len :: "u32 \<Rightarrow> u32 \<Rightarrow> u32" where
  "put_len dst len =
     (if dst AND 0x1F \<noteq> 0 \<and> len < 32 - (dst AND 0x1F) then len + 2048 else len)"

lemma sint_sign: "0 \<le> sint w \<longleftrightarrow> unat w < 2 ^ 31" for w :: u32
proof
  assume s: "0 \<le> sint w"
  have "uint w = take_bit LENGTH(32) (sint w)" by (rule uint_sint)
  also have "\<dots> = sint w" by (rule take_bit_int_eq_self) (use s sint_lt [of w] in simp_all)
  finally have "int (unat w) = sint w" by (simp only: uint_nat)
  moreover have "sint w < 2 ^ 31" using sint_lt [of w] by simp
  ultimately have "int (unat w) < int (2 ^ 31)" by simp
  then show "unat w < 2 ^ 31" by (simp only: of_nat_less_iff)
next
  assume "unat w < 2 ^ 31"
  then have "int (unat w) < int (2 ^ 31)" by (simp only: of_nat_less_iff)
  then have "uint w < 2 ^ 31" by (simp only: uint_nat of_nat_power of_nat_numeral)
  then have "signed_take_bit 31 (uint w) = uint w" by (intro signed_take_bit_int_eq_self) (simp_all add: order_trans [OF _ uint_ge_0])
  then have "sint w = uint w" by (simp only: sint_uint) simp
  then show "0 \<le> sint w" by (simp only: uint_ge_0)
qed

lemma put_copies:
  assumes D: "dsp_ok D regs mems left" and f: "fix_ok fx" and s: "src_ok (phys26 fx) src (put_len dst len)"
    and d: "unat dst + unat (put_len dst len) \<le> 2 ^ 26" and l: "0 \<le> sint len"
  shows "\<exists>h'. ARAMPut D fx src dst len h = Some h' \<and> copied fx src dst (put_len dst len) (mems h) (mems h')"
proof (cases "dst AND 0x1F = 0")
  case True
  then have e: "put_len dst len = len" "eff_len len = len" using l by (simp_all add: put_len_def eff_len_def)
  then show ?thesis using put_aligned_copies [OF D f, of src len dst h] s d True by (simp add: ARAMPut_def aligned32_def)
next
  case False
  let ?m = "dst AND 0x1F" and ?a = "dst AND NOT 0x1F"
  define t where "t = 32 - ?m"
  have um: "unat ?m = unat dst mod 32" unfolding mask5 by (simp add: unat_and_mask)
  have ua: "unat ?a = unat dst - unat dst mod 32" unfolding mask5 by (simp add: unat_and_not_mask)
  have "unat ?m \<noteq> 0" using False by (simp only: unat_eq_0 not_False_eq_True)
  then have m0: "0 < unat ?m" "unat ?m < 32" unfolding um by simp_all
  have ut: "unat t = 32 - unat ?m" using m0 by (simp add: t_def unat_sub word_le_nat_alt)
  have sum: "?a + ?m = dst" using ua um unat_u32_less [of dst]
    by (simp only: word_unat_eq_iff unat_word_ariths) simp
  have al: "aligned32 ?a" unfolding aligned32_unat ua by (simp add: minus_mod_eq_mult_div)
  have u31: "unat len < 2 ^ 31" using l by (simp only: sint_sign)
  have pl: "unat (put_len dst len) = (if unat len < unat t then unat len + 2048 else unat len)"
    using False u31 by (simp add: put_len_def word_less_nat_alt unat_word_ariths flip: t_def)
  then have tle: "unat t \<le> unat (put_len dst len)" using ut by (auto split: if_splits)
  have el: "unat (eff_len (len - t)) = unat (put_len dst len) - unat t"
  proof (cases "unat len < unat t")
    case True
    define k where "k = unat t - unat len"
    have k: "0 < k" "k \<le> 32" using True ut by (simp_all add: k_def)
    have big: "unat (len - t) = 2048 * 2097151 + (2048 - k)" using True k
      by (simp add: unat_sub_if' word_le_nat_alt k_def)
    then have "\<not> 0 \<le> sint (len - t)" using k by (simp add: sint_sign)
    moreover have "unat ((len - t) AND 0x7FF) = 2048 - k" using k
      using mod_mult_self4 [of 2048 2097151 "2048 - k"] unfolding mask11 by (simp only: unat_and_mask big) simp
    ultimately show ?thesis using True pl by (simp add: eff_len_def k_def)
  next
    case False
    then have "unat (len - t) = unat len - unat t" by (simp add: unat_sub word_le_nat_alt)
    moreover from this have "0 \<le> sint (len - t)" using u31 by (simp only: sint_sign)
    ultimately show ?thesis using False pl by (simp add: eff_len_def)
  qed
  have dl: "unat dst < 2 ^ 26" using d tle ut m0 by linarith
  have a26: "?a < 2 ^ 26" using dl ua by (simp add: word_less_nat_alt)
  have st: "src_ok (phys26 fx) src t" by (rule src_ok_take [OF s]) (use tle in \<open>simp add: word_le_nat_alt\<close>)
  obtain g where g: "patch_fix D fx src ?a ?m t h = Some g" "fix_same (phys26 fx) (fst (mems h)) (fst (mems g))"
    "snd (mems g) = put_spec src dst t (mems h)"
    using patch_fix_copies [OF D f st m0(2) _ al a26, of h] ut m0 sum by auto
  have c: "copied fx src dst t (mems h) (mems g)" using g(2,3) by (simp add: copied_def)
  let ?e = "eff_len (len - t)"
  have te: "t + ?e = put_len dst len" using el tle unat_u32_less [of "put_len dst len"]
    by (simp add: word_unat_eq_iff unat_word_ariths)
  have sr: "src_ok (phys26 fx) (src + t) ?e"
  proof (cases "?e = 0")
    case False
    then have "unat ?e \<noteq> 0" by (simp only: unat_eq_0 not_False_eq_True)
    then have "t < put_len dst len" using el by (simp add: word_less_nat_alt)
    from src_ok_drop(1) [OF s this] show ?thesis by (simp only: te [symmetric] add_diff_cancel_left')
  qed (simp add: src_ok_def)
  have at: "?a + 32 = dst + t" using sum by (simp add: t_def algebra_simps)
  have ual: "unat (?a + 32) = unat dst + unat t" using ua ut um dl m0 by (simp add: unat_word_ariths)
  have "unat (?a + 32) + unat ?e \<le> 2 ^ 26" using ual el tle d by linarith
  from put_aligned_copies [OF D f sr aligned32_add [OF al] this] obtain h'
    where h': "put_aligned D fx (src + t) (?a + 32) (len - t) g = Some h'" "copied fx (src + t) (?a + 32) ?e (mems g) (mems h')"
    by (auto simp: aligned32_def)
  have "copied fx src dst (t + ?e) (mems h) (mems h')"
    by (rule copied_step [OF c s]) (use h'(2) [unfolded copied_def at] el tle in simp_all)
  then show ?thesis using g(1) h'(1) False te by (simp add: ARAMPut_def Let_def flip: t_def)
qed


text \<open>The number of 2 KB blocks \<open>clear_from\<close> clears from \<open>i\<close> on.\<close>

definition clear_blocks :: "u32 \<Rightarrow> u32 \<Rightarrow> nat" where
  "clear_blocks len i = (unat (0x1000000 - len) - unat i + 2047) div 2048"

lemma clear_from_zeroes:
  assumes D: "dsp_ok D regs mems left" and f: "fix_ok fx" and s: "src_ok (phys26 fx) buffer 2048" and len: "len \<le> 0x1000000"
  shows "\<forall>j < 2048. fst (mems h) (phys26 buffer + j) = 0 \<Longrightarrow> aligned32 i \<Longrightarrow>
    \<exists>h'. clear_from D fx buffer len i h = Some h' \<and> fix_same (phys26 fx) (fst (mems h)) (fst (mems h')) \<and>
      snd (mems h') = (\<lambda>x. if x - i < of_nat (2048 * clear_blocks len i) then 0 else snd (mems h) x)"
proof (induction "clear_blocks len i" arbitrary: i h)
  case 0
  then have "\<not> i < 0x1000000 - len" by (simp add: clear_blocks_def word_less_nat_alt)
  then show ?case using 0(1) by (subst clear_from.simps) (simp add: fix_same_def flip: 0(1))
next
  case (Suc n)
  let ?e = "0x1000000 - len"
  have ue: "unat ?e \<le> 2 ^ 24" using len by (simp add: unat_sub word_le_nat_alt)
  have ie: "unat i < unat ?e" using Suc.hyps(2) by (auto simp: clear_blocks_def intro: ccontr)
  then have c: "i < ?e" by (simp add: word_less_nat_alt)
  have i2: "unat (i + 2048) = unat i + 2048" using ie ue by (simp add: unat_word_ariths)
  have n: "n = clear_blocks len (i + 2048)" using Suc.hyps(2) ie unfolding clear_blocks_def i2 by simp
  have pl: "put_len i 2048 = 2048" using Suc.prems(2) by (simp add: put_len_def aligned32_def)
  obtain g where g: "ARAMPut D fx buffer i 2048 h = Some g" "copied fx buffer i 2048 (mems h) (mems g)"
    using put_copies [OF D f, of buffer i 2048 h] s ie ue by (auto simp: pl sint_sign)
  have gz: "\<forall>j < 2048. fst (mems g) (phys26 buffer + j) = 0"
    using g(2) Suc.prems(1) s by (simp add: copied_def fix_same_def src_ok_def)
  have "aligned32 (i + 2048)" using aligned32_add [OF Suc.prems(2), of 2048] by (simp add: aligned32_def)
  from Suc.hyps(1) [OF n gz this] obtain h' where h': "clear_from D fx buffer len (i + 2048) g = Some h'"
    "fix_same (phys26 fx) (fst (mems g)) (fst (mems h'))"
    "snd (mems h') = (\<lambda>x. if x - (i + 2048) < of_nat (2048 * n) then 0 else snd (mems g) x)" using n by auto
  have sg: "snd (mems g) x = (if x - i < 2048 then 0 else snd (mems h) x)" for x
    using g(2) Suc.prems(1) by (cases "mems h") (auto simp: copied_def put_spec_def)
  have un: "2048 * Suc n < 2 ^ 32" using Suc.hyps(2) ue by (simp add: clear_blocks_def)
  have "(x - (i + 2048) < of_nat (2048 * n) \<or> x - i < 2048) = (x - i < of_nat (2048 * Suc n))" for x
  proof (cases "n = 0")
    case False
    define l :: u32 where "l = of_nat (2048 * Suc n)"
    have ul: "unat l = 2048 * Suc n" using un l_def by (intro of_nat_inverse) simp_all
    have "2048 < l" using ul False by (simp add: word_less_nat_alt)
    moreover have "l - 2048 = of_nat (2048 * n)" by (simp add: l_def algebra_simps)
    ultimately show ?thesis using split_less(1) [of 2048 l "x - i"] by (simp add: l_def diff_diff_eq)
  qed simp
  then have "snd (mems h') = (\<lambda>x. if x - i < of_nat (2048 * Suc n) then 0 else snd (mems h) x)"
    unfolding h'(3) sg by (auto simp: fun_eq_iff)
  moreover have "fix_same (phys26 fx) (fst (mems h)) (fst (mems h'))"
    using g(2) h'(2) fix_same_trans by (auto simp: copied_def)
  ultimately show ?case using g(1) h'(1) c Suc.hyps(2) by (subst clear_from.simps) simp
qed

section \<open>A machine for the witnesses\<close>

record sim_dsp =
  sd_regs :: "nat \<Rightarrow> u16"
  sd_mems :: "memory \<times> memory"
  sd_busy :: nat

definition sim_dsp_ops :: "sim_dsp dspops" where
  "sim_dsp_ops =
     \<lparr>dsp_load = (\<lambda>h r. if r = DSP_CONTROL_STATUS
        then (if 0 < sd_busy h then DSPCR_DSPDMA else 0, h\<lparr>sd_busy := sd_busy h - 1\<rparr>) else (sd_regs h r, h)),
      dsp_store = (\<lambda>h r v. let g = h\<lparr>sd_regs := (sd_regs h)(r := v)\<rparr>
        in if r = DSP_ARAM_DMA_SIZE_LO then g\<lparr>sd_mems := do_transfer (dma_of (sd_regs g)) (sd_mems g), sd_busy := 3\<rparr> else g),
      cpu_read = (\<lambda>h a. fst (sd_mems h) (phys26 a)),
      cpu_write = (\<lambda>h a bs. h\<lparr>sd_mems := (\<lambda>x. if unat (x - phys26 a) < length bs then bs ! unat (x - phys26 a)
        else fst (sd_mems h) x, snd (sd_mems h))\<rparr>),
      dc_flush = (\<lambda>h a n. h), dc_invalidate = (\<lambda>h a n. h)\<rparr>"

lemma sim_dsp_ok: "dsp_ok sim_dsp_ops sd_regs sd_mems sd_busy"
  by (auto simp: dsp_ok_def load_ok_def store_ok_def cpu_ok_def sim_dsp_ops_def Let_def DSPCR_DSPDMA_def split: if_splits)

definition sim_dsp0 :: sim_dsp where
  "sim_dsp0 = \<lparr>sd_regs = (\<lambda>_. 0xFFFF), sd_mems = (\<lambda>a. ucast a, \<lambda>_. 0), sd_busy = 0\<rparr>"

lemma sim_src_ok:
  assumes "unat n \<le> 0x10000"
  shows "src_ok 0x3000 0x80005003 n"
proof (unfold src_ok_def, intro allI impI conjI)
  fix i :: u32
  assume "i < n"
  then have i: "unat i < 0x10000" using assms by (simp add: word_less_nat_alt)
  have p: "phys26 (0x80005003 :: u32) = 0x5003" by (simp add: phys26_def mask_eq_exp_minus_1)
  show "phys26 (0x80005003 + i) = phys26 0x80005003 + i" using phys26_add [of "0x80005003" i] i by (simp add: p)
  show "\<not> phys26 0x80005003 + i - 0x3000 < (2048 :: u32)" using i by (simp add: p word_less_nat_alt unat_word_ariths)
qed

section \<open>Properties\<close>



text \<open>
  C22. \<open>ARAMPut\<close> copies: for any length, start and end alignment and any contents of the bounce
  buffer, the waits end, the bytes of the source are in ARAM at the destination, and every other
  byte of ARAM and every byte of main memory outside the bounce buffer is as before; a copy with
  an unaligned start has to reach the next multiple of 32.
\<close>

theorem aram_put_copies:
  assumes "dsp_ok D regs mems left" "fix_ok fx" "src_ok (phys26 fx) src len" "unat dst + unat len \<le> 2 ^ 26"
    and "dst AND 0x1F = 0 \<or> 32 - (dst AND 0x1F) \<le> len"
  shows "\<exists>h'. ARAMPut D fx src dst len h = Some h' \<and>
    (\<forall>x. snd (mems h') x = (if x - dst < len then fst (mems h) (phys26 src + (x - dst)) else snd (mems h) x)) \<and>
    (\<forall>x. \<not> x - phys26 fx < 2048 \<longrightarrow> fst (mems h') x = fst (mems h) x)"
proof -
  have "0 \<le> sint len" using assms(4) by (simp add: sint_sign)
  moreover have l: "put_len dst len = len" using assms(5) by (auto simp: put_len_def)
  ultimately obtain h' where h': "ARAMPut D fx src dst len h = Some h'" "copied fx src dst len (mems h) (mems h')"
    using put_copies [OF assms(1,2), of src dst len h] assms(3,4) by auto
  then show ?thesis by (cases "mems h") (auto simp: copied_def put_spec_def fix_same_def)
qed

theorem aram_put_copies_witness:
  "\<exists>h'. ARAMPut sim_dsp_ops 0x80003000 0x80005003 0x1007 5000 sim_dsp0 = Some h' \<and>
     snd (sd_mems h') 0x1007 = 3 \<and> snd (sd_mems h') 0x1006 = 0"
proof -
  have p: "phys26 (0x80003000 :: u32) = 0x3000" "phys26 (0x80005003 :: u32) = 0x5003" by (simp_all add: phys26_def mask_eq_exp_minus_1)
  have "src_ok 0x3000 0x80005003 5000" by (rule sim_src_ok) simp
  from aram_put_copies [OF sim_dsp_ok, of "0x80003000" "0x80005003" 5000 "0x1007" sim_dsp0] this show ?thesis
    by (auto simp: p fix_ok_def aligned32_def sim_dsp0_def)
qed

text \<open>
  C23. A copy with an unaligned start that is too short to reach the next multiple of 32 runs over:
  2048 bytes behind its end are overwritten, with what follows the source.
\<close>

theorem short_put_overruns:
  assumes "dsp_ok D regs mems left" "fix_ok fx" "src_ok (phys26 fx) src (len + 2048)" "unat dst + unat (len + 2048) \<le> 2 ^ 26"
    and "dst AND 0x1F \<noteq> 0" "len < 32 - (dst AND 0x1F)" "k < 2048"
  shows "\<exists>h'. ARAMPut D fx src dst len h = Some h' \<and>
    snd (mems h') (dst + len + k) = fst (mems h) (phys26 src + (len + k))"
proof -
  have "dst AND 0x1F < 0x20" unfolding mask5 using word_and_less_mask [of dst 5] by (simp add: word_less_nat_alt)
  then have "unat (32 - (dst AND 0x1F)) \<le> 32" by (simp add: word_less_nat_alt unat_sub word_le_nat_alt)
  then have u: "unat len < 32" using assms(6) by (simp add: word_less_nat_alt)
  then have "0 \<le> sint len" by (simp add: sint_sign)
  moreover have "put_len dst len = len + 2048" using assms(5,6) by (simp add: put_len_def)
  ultimately obtain h' where h': "ARAMPut D fx src dst len h = Some h'" "copied fx src dst (len + 2048) (mems h) (mems h')"
    using put_copies [OF assms(1,2), of src dst len h] assms(3,4) by auto
  have "len + k < len + 2048" using u assms(7) by (simp add: word_less_nat_alt unat_word_ariths)
  then show ?thesis using h' by (cases "mems h") (auto simp: copied_def put_spec_def add.assoc)
qed


theorem short_put_overruns_witness:
  "\<exists>h'. ARAMPut sim_dsp_ops 0x80003000 0x80005003 0x1004 4 sim_dsp0 = Some h' \<and> snd (sd_mems h') 0x1008 = 7"
proof -
  have p: "phys26 (0x80003000 :: u32) = 0x3000" "phys26 (0x80005003 :: u32) = 0x5003" by (simp_all add: phys26_def mask_eq_exp_minus_1)
  show ?thesis using short_put_overruns [OF sim_dsp_ok, of "0x80003000" "0x80005003" 4 "0x1004" 0 sim_dsp0] sim_src_ok [of 2052]
    by (auto simp: p fix_ok_def aligned32_def sim_dsp0_def)
qed

end
