(* ===== verification/DolBoot.thy ===== *)
theory DolBoot
  imports AramDma
begin

unbundle bit_operations_syntax

text \<open>
  Booting a DOL image through ARAM (cubeboot/source/boot/sidestep.c) and the extent of an image
  (\<open>DOLMinMax\<close> there, \<open>DOLMax\<close> of patches/source/dol.c). The header is read from main memory
  field by field, as the code does through its pointer. The final jump and the assembly stub that
  copies ARAM back over main memory are the result of the run: \<open>Run\<close> carries the arguments the stub
  gets.
\<close>

section \<open>Model\<close>

definition DOLHDRLENGTH :: u32 where "DOLHDRLENGTH = 256"
definition MAXTEXTSECTION :: nat where "MAXTEXTSECTION = 7"
definition MAXDATASECTION :: nat where "MAXDATASECTION = 11"
definition ARAMSTART :: u32 where "ARAMSTART = 0"
definition ARAMSIZE :: u32 where "ARAMSIZE = 10 * 1024 * 1024"
definition ARGV_MAGIC :: u32 where "ARGV_MAGIC = 0x5F617267"

record dol_section =
  ds_offset :: u32
  ds_address :: u32
  ds_length :: u32

record dolheader =
  text_sections :: "dol_section list"
  data_sections :: "dol_section list"
  bss_address :: u32
  bss_length :: u32
  entry_point :: u32

definition cpu_read32 :: "'h dspops \<Rightarrow> 'h \<Rightarrow> u32 \<Rightarrow> u32" where
  "cpu_read32 D h a = be32 (map (\<lambda>i. cpu_read D h (a + of_nat i)) [0..<4]) 0"

text \<open>The fields of the structure at \<open>dol\<close>.\<close>

definition dol_header :: "(u32 \<Rightarrow> u32) \<Rightarrow> u32 \<Rightarrow> dolheader" where
  "dol_header rd dol =
     \<lparr>text_sections = map (\<lambda>i. \<lparr>ds_offset = rd (dol + 4 * of_nat i), ds_address = rd (dol + 72 + 4 * of_nat i),
        ds_length = rd (dol + 144 + 4 * of_nat i)\<rparr>) [0..<MAXTEXTSECTION],
      data_sections = map (\<lambda>i. \<lparr>ds_offset = rd (dol + 28 + 4 * of_nat i), ds_address = rd (dol + 100 + 4 * of_nat i),
        ds_length = rd (dol + 172 + 4 * of_nat i)\<rparr>) [0..<MAXDATASECTION],
      bss_address = rd (dol + 216), bss_length = rd (dol + 220), entry_point = rd (dol + 224)\<rparr>"

definition ds_used :: "dol_section \<Rightarrow> bool" where
  "ds_used s \<longleftrightarrow> ds_address s \<noteq> 0 \<and> ds_length s \<noteq> 0"

definition minmax_step :: "u32 \<times> u32 \<Rightarrow> dol_section \<Rightarrow> u32 \<times> u32" where
  "minmax_step mm s =
     (if ds_used s
      then (if ds_address s < fst mm then ds_address s else fst mm,
            if ds_address s + ds_length s > snd mm then ds_address s + ds_length s else snd mm)
      else mm)"

definition DOLMinMax :: "dolheader \<Rightarrow> u32 \<times> u32" where
  "DOLMinMax d =
     (let mm = foldl minmax_step (0x87100000, 0) (text_sections d);
          mm = foldl minmax_step mm (data_sections d);
          maxaddress = (if bss_address d \<noteq> 0 \<and> bss_address d + bss_length d > snd mm
            then bss_address d + bss_length d else snd mm)
      in (fst mm, maxaddress + 0x20000))"

definition max_step :: "u32 \<Rightarrow> dol_section \<Rightarrow> u32" where
  "max_step m s = (if ds_used s \<and> ds_address s + ds_length s > m then ds_address s + ds_length s else m)"

definition DOLMax :: "dolheader \<Rightarrow> u32" where
  "DOLMax d =
     (let m = foldl max_step 0 (text_sections d);
          m = foldl max_step m (data_sections d)
      in if bss_address d \<noteq> 0 \<and> bss_address d + bss_length d > m then bss_address d + bss_length d else m)"

text \<open>One of the two loops over the sections.\<close>

primrec put_sections :: "'h dspops \<Rightarrow> u32 \<Rightarrow> u32 \<Rightarrow> u32 \<Rightarrow> dol_section list \<Rightarrow> 'h \<Rightarrow> 'h option" where
  "put_sections D fx dol mn [] h = Some h"
| "put_sections D fx dol mn (s # ss) h =
     (if ds_used s
      then Option.bind (ARAMPut D fx (dol + ds_offset s) ((ds_address s - mn) + ARAMSTART) (ds_length s) h)
             (put_sections D fx dol mn ss)
      else put_sections D fx dol mn ss h)"

text \<open>
  The command line: the arguments with their terminators and one more zero byte at \<open>cmd\<close> (the buffer
  \<open>malloc\<close> returned), and \<open>struct __argv\<close> at \<open>args\<close> with its first four fields set.
\<close>

definition argv_length :: "bytes list \<Rightarrow> u32" where
  "argv_length argv = 1 + sum_list (map (\<lambda>s. of_nat (length s + 1)) argv)"

definition put_args :: "'h dspops \<Rightarrow> u32 \<Rightarrow> u32 \<Rightarrow> u32 \<Rightarrow> u32 \<Rightarrow> bytes list \<Rightarrow> u32 \<Rightarrow> 'h \<Rightarrow> 'h option" where
  "put_args D fx args cmd dst argv entry h =
     (let h = cpu_write D h args (be_bytes 4 ARGV_MAGIC);
          h = cpu_write D h (args + 12) (be_bytes 4 (of_nat (length argv) :: u32));
          h = cpu_write D h (args + 8) (be_bytes 4 (argv_length argv));
          h = cpu_write D h (args + 4) (be_bytes 4 cmd);
          h = cpu_write D h cmd (concat (map (\<lambda>s. s @ [0]) argv) @ [0]);
          h = dc_flush D h cmd (argv_length argv)
      in ARAMPut D fx args (entry - dst + 8 + ARAMSTART) 24 h)"

text \<open>\<open>ARAMRunStub\<close>: where the stub goes and what it is called with.\<close>

record stub_call =
  st_stub :: u32
  st_entry :: u32
  st_dst :: u32
  st_src :: u32
  st_len :: u32
  st_inv_lines :: u32

definition ARAMRun :: "u32 \<Rightarrow> u32 \<Rightarrow> u32 \<Rightarrow> u32 \<Rightarrow> stub_call" where
  "ARAMRun entry dst src len =
     (let p = (if dst + len < 0x81300000 then 0x81300000 else 0x80003100);
          len = (if len AND 0x1F \<noteq> 0 then (len AND NOT 0x1F) + 0x20 else len)
      in \<lparr>st_stub = p, st_entry = entry, st_dst = dst, st_src = src, st_len = len OR 0x80000000,
          st_inv_lines = drop_bit 5 len\<rparr>)"

datatype 'h dol_run = NotDol 'h | Run stub_call 'h

definition DOLtoARAM :: "'h dspops \<Rightarrow> u32 \<Rightarrow> u32 \<Rightarrow> u32 \<Rightarrow> u32 \<Rightarrow> u32 \<Rightarrow> bytes list \<Rightarrow> 'h \<Rightarrow> 'h dol_run option" where
  "DOLtoARAM D fx buffer args cmd dol argv h = do {
     h \<leftarrow> ARAMClear D fx buffer ARAMSTART ARAMSIZE h;
     let d = dol_header (cpu_read32 D h) dol;
     if ds_offset (hd (text_sections d)) \<noteq> DOLHDRLENGTH then Some (NotDol h)
     else do {
       let (mn, mx) = DOLMinMax d;
       h \<leftarrow> put_sections D fx dol mn (text_sections d) h;
       h \<leftarrow> put_sections D fx dol mn (data_sections d) h;
       h \<leftarrow> (if argv \<noteq> [] then put_args D fx args cmd mn argv (entry_point d) h else Some h);
       Some (Run (ARAMRun (entry_point d) mn ARAMSTART (mx - mn)) h)
     }
   }"

section \<open>The extent\<close>

lemma minmax_steps:
  "foldl minmax_step mm ss =
     (foldl (\<lambda>m s. if ds_used s \<and> ds_address s < m then ds_address s else m) (fst mm) ss, foldl max_step (snd mm) ss)"
  by (induction ss arbitrary: mm) (auto simp: minmax_step_def max_step_def)

lemma min_steps_le:
  "foldl (\<lambda>m s. if ds_used s \<and> ds_address s < m then ds_address s else m) m ss \<le> m"
  by (induction ss arbitrary: m) (auto intro: order.trans less_imp_le)

lemma min_steps_all:
  "s \<in> set ss \<Longrightarrow> ds_used s \<Longrightarrow> foldl (\<lambda>m s. if ds_used s \<and> ds_address s < m then ds_address s else m) m ss \<le> ds_address s"
proof (induction ss arbitrary: m)
  case (Cons a ss)
  show ?case
  proof (cases "s = a")
    case True
    then show ?thesis using Cons.prems(2) min_steps_le [of "if ds_used a \<and> ds_address a < m then ds_address a else m" ss]
      by (auto intro: order.trans split: if_splits)
  next
    case False
    then show ?thesis using Cons by simp
  qed
qed simp

lemma max_steps_ge: "m \<le> foldl max_step m ss"
  by (induction ss arbitrary: m) (auto simp: max_step_def intro: order.trans less_imp_le)

lemma max_steps_all: "s \<in> set ss \<Longrightarrow> ds_used s \<Longrightarrow> ds_address s + ds_length s \<le> foldl max_step m ss"
proof (induction ss arbitrary: m)
  case (Cons a ss)
  show ?case
  proof (cases "s = a")
    case True
    then have "ds_address s + ds_length s \<le> max_step m a" using Cons.prems(2) by (simp add: max_step_def not_less)
    then show ?thesis using max_steps_ge [of "max_step m a" ss] by simp
  next
    case False
    then show ?thesis using Cons by simp
  qed
qed simp

lemma DOLMinMax_max: "snd (DOLMinMax d) = DOLMax d + 0x20000"
  by (simp add: DOLMinMax_def DOLMax_def minmax_steps Let_def)

lemma DOLMinMax_bounds:
  assumes "s \<in> set (text_sections d) \<union> set (data_sections d)" "ds_used s"
  shows "fst (DOLMinMax d) \<le> ds_address s" "ds_address s + ds_length s \<le> DOLMax d"
proof -
  let ?m = "\<lambda>m s. if ds_used s \<and> ds_address s < m then ds_address s else m"
  have f: "fst (DOLMinMax d) = foldl ?m (foldl ?m 0x87100000 (text_sections d)) (data_sections d)"
    by (simp add: DOLMinMax_def minmax_steps Let_def)
  show "fst (DOLMinMax d) \<le> ds_address s" unfolding f
    using assms min_steps_all [of s "data_sections d"] min_steps_all [of s "text_sections d"]
      min_steps_le [of "foldl ?m 0x87100000 (text_sections d)" "data_sections d"] by (auto intro: order.trans)
  have "foldl max_step 0 (text_sections d) \<le> foldl max_step (foldl max_step 0 (text_sections d)) (data_sections d)"
    by (rule max_steps_ge)
  then have "ds_address s + ds_length s \<le> foldl max_step (foldl max_step 0 (text_sections d)) (data_sections d)"
    using assms max_steps_all [of s "data_sections d"] max_steps_all [of s "text_sections d" 0] by (auto intro: order.trans)
  then show "ds_address s + ds_length s \<le> DOLMax d" by (auto simp: DOLMax_def Let_def)
qed


section \<open>Placing the sections\<close>

text \<open>
  The image occupies \<open>n\<close> bytes from \<open>dol\<close> on and no byte of the two 2 KB buffers; each section lies
  in it, and its copy reaches a multiple of 32 and stays inside ARAM addresses.
\<close>

definition sec_ok :: "u32 \<Rightarrow> u32 \<Rightarrow> dol_section \<Rightarrow> bool" where
  "sec_ok n mn s \<longleftrightarrow> unat (ds_offset s) + unat (ds_length s) \<le> unat n \<and>
     unat (ds_address s - mn) + unat (ds_length s) \<le> 2 ^ 26 \<and>
     ((ds_address s - mn) AND 0x1F = 0 \<or> 32 - ((ds_address s - mn) AND 0x1F) \<le> ds_length s)"

definition in_sec :: "u32 \<Rightarrow> dol_section \<Rightarrow> u32 \<Rightarrow> bool" where
  "in_sec mn s x \<longleftrightarrow> ds_used s \<and> x - (ds_address s - mn) < ds_length s"

definition secs_apart :: "u32 \<Rightarrow> dol_section list \<Rightarrow> bool" where
  "secs_apart mn = sorted_wrt (\<lambda>s t. \<forall>x. \<not> (in_sec mn s x \<and> in_sec mn t x))"

lemma src_ok_sub:
  assumes "src_ok f a n" "unat k + unat l \<le> unat n"
  shows "src_ok f (a + k) l" "l \<noteq> 0 \<Longrightarrow> phys26 (a + k) = phys26 a + k"
proof -
  have kl: "k < k + l" "k + l \<le> n" if "l \<noteq> 0"
  proof -
    have "unat l \<noteq> 0" using that by (simp only: unat_eq_0 not_False_eq_True)
    then show "k < k + l" "k + l \<le> n" using assms(2) unat_u32_less [of n]
      by (simp_all add: word_less_nat_alt word_le_nat_alt unat_word_ariths)
  qed
  show "src_ok f (a + k) l"
  proof (cases "l = 0")
    case False
    from src_ok_drop(1) [OF src_ok_take [OF assms(1) kl(2) [OF False]] kl(1) [OF False]] show ?thesis by simp
  qed (simp add: src_ok_def)
  show "phys26 (a + k) = phys26 a + k" if "l \<noteq> 0"
    using src_ok_drop(2) [OF src_ok_take [OF assms(1) kl(2) [OF that]] kl(1) [OF that]] .
qed

definition sections_placed :: "u32 \<Rightarrow> u32 \<Rightarrow> dol_section list \<Rightarrow> memory \<Rightarrow> memory \<Rightarrow> memory \<Rightarrow> bool" where
  "sections_placed dol mn ss m ar ar' \<longleftrightarrow>
     (\<forall>s \<in> set ss. \<forall>x. in_sec mn s x \<longrightarrow> ar' x = m (phys26 dol + ds_offset s + (x - (ds_address s - mn)))) \<and>
     (\<forall>x. (\<forall>s \<in> set ss. \<not> in_sec mn s x) \<longrightarrow> ar' x = ar x)"

lemma put_sections_copies:
  assumes D: "dsp_ok D regs mems left" and f: "fix_ok fx" and d: "src_ok (phys26 fx) dol n"
  shows "\<forall>s \<in> set ss. ds_used s \<longrightarrow> sec_ok n mn s \<Longrightarrow> secs_apart mn ss \<Longrightarrow>
    \<exists>h'. put_sections D fx dol mn ss h = Some h' \<and> fix_same (phys26 fx) (fst (mems h)) (fst (mems h')) \<and>
      sections_placed dol mn ss (fst (mems h)) (snd (mems h)) (snd (mems h'))"
proof (induction ss arbitrary: h)
  case Nil
  then show ?case by (simp add: fix_same_def sections_placed_def)
next
  case (Cons s ss)
  have ap: "secs_apart mn ss" "\<And>t x. t \<in> set ss \<Longrightarrow> in_sec mn s x \<Longrightarrow> \<not> in_sec mn t x"
    using Cons.prems(2) by (auto simp: secs_apart_def)
  have ok: "\<forall>s \<in> set ss. ds_used s \<longrightarrow> sec_ok n mn s" using Cons.prems(1) by simp
  show ?case
  proof (cases "ds_used s")
    case False
    then have "\<not> in_sec mn s x" for x by (simp add: in_sec_def)
    then show ?thesis using Cons.IH [OF ok ap(1), of h] False by (auto simp: sections_placed_def)
  next
    case True
    then have so: "sec_ok n mn s" "ds_length s \<noteq> 0" using Cons.prems(1) by (auto simp: ds_used_def)
    let ?d = "ds_address s - mn" and ?o = "ds_offset s" and ?l = "ds_length s"
    have src: "src_ok (phys26 fx) (dol + ?o) ?l" "phys26 (dol + ?o) = phys26 dol + ?o"
      using src_ok_sub [OF d, of ?o ?l] so by (simp_all add: sec_ok_def)
    have pl: "put_len ?d ?l = ?l" using so(1) by (auto simp: sec_ok_def put_len_def)
    have nn: "0 \<le> sint ?l" using so(1) by (simp add: sec_ok_def sint_sign)
    obtain g where g: "ARAMPut D fx (dol + ?o) ?d ?l h = Some g" "copied fx (dol + ?o) ?d ?l (mems h) (mems g)"
      using put_copies [OF D f, of "dol + ?o" ?d ?l h] src(1) so(1) nn by (auto simp: pl sec_ok_def)
    have gs: "fix_same (phys26 fx) (fst (mems h)) (fst (mems g))" using g(2) by (simp add: copied_def)
    have gx: "snd (mems g) x = (if x - ?d < ?l then fst (mems h) (phys26 dol + ?o + (x - ?d)) else snd (mems h) x)" for x
      using g(2) src(2) by (cases "mems h") (simp add: copied_def put_spec_def)
    obtain h' where h': "put_sections D fx dol mn ss g = Some h'" "fix_same (phys26 fx) (fst (mems g)) (fst (mems h'))"
      "sections_placed dol mn ss (fst (mems g)) (snd (mems g)) (snd (mems h'))"
      using Cons.IH [OF ok ap(1), of g] by blast
    have same: "fst (mems g) (phys26 dol + ds_offset t + (x - (ds_address t - mn))) =
        fst (mems h) (phys26 dol + ds_offset t + (x - (ds_address t - mn)))" if "t \<in> set ss" "in_sec mn t x" for t x
    proof -
      have t: "ds_used t" "x - (ds_address t - mn) < ds_length t" "sec_ok n mn t" using that ok by (auto simp: in_sec_def)
      then have "src_ok (phys26 fx) (dol + ds_offset t) (ds_length t)" "phys26 (dol + ds_offset t) = phys26 dol + ds_offset t"
        using src_ok_sub [OF d, of "ds_offset t" "ds_length t"] by (auto simp: sec_ok_def ds_used_def)
      then show ?thesis using t(2) gs by (simp add: src_ok_def fix_same_def)
    qed
    have "sections_placed dol mn (s # ss) (fst (mems h)) (snd (mems h)) (snd (mems h'))"
      using h'(3) same gx ap(2) True by (auto simp: sections_placed_def in_sec_def)
    then show ?thesis using True g(1) h'(1) fix_same_trans [OF gs h'(2)] by (auto simp: ARAMSTART_def)
  qed
qed


lemma put_sections_append:
  "put_sections D fx dol mn (ss @ ts) h = Option.bind (put_sections D fx dol mn ss h) (put_sections D fx dol mn ts)"
proof (induction ss arbitrary: h)
  case (Cons s ss)
  then show ?case by (cases "ARAMPut D fx (dol + ds_offset s) (ds_address s - mn + ARAMSTART) (ds_length s) h") simp_all
qed simp

text \<open>The header reads the same after changes outside the image.\<close>

lemma header_same:
  assumes D: "dsp_ok D regs mems left" and d: "src_ok f dol n" "256 \<le> unat n"
    and m: "\<And>i. i < n \<Longrightarrow> fst (mems h') (phys26 dol + i) = fst (mems h) (phys26 dol + i)"
  shows "dol_header (cpu_read32 D h') dol = dol_header (cpu_read32 D h) dol"
proof -
  have r: "cpu_read D h a = fst (mems h) (phys26 a)" for h a using D by (simp add: dsp_ok_def cpu_ok_def)
  have b: "cpu_read D h' (dol + w) = cpu_read D h (dol + w)" if "unat w < 256" for w
  proof -
    have "w < n" using that d(2) by (simp add: word_less_nat_alt)
    then show ?thesis using d(1) m by (simp add: r src_ok_def)
  qed
  have "cpu_read32 D h' (dol + w) = cpu_read32 D h (dol + w)" if "unat w \<le> 252" for w
  proof -
    have "cpu_read D h' (dol + w + of_nat i) = cpu_read D h (dol + w + of_nat i)" if "i < 4" for i
    proof -
      have "unat (w + of_nat i) < 256" using \<open>unat w \<le> 252\<close> that
        by (simp add: unat_word_ariths unat_of_nat take_bit_nat_eq_self)
      then show ?thesis using b [of "w + of_nat i"] by (simp add: add.assoc)
    qed
    then have "map (\<lambda>i. cpu_read D h' (dol + w + of_nat i)) [0..<4] = map (\<lambda>i. cpu_read D h (dol + w + of_nat i)) [0..<4]"
      by (intro map_cong) simp_all
    then show ?thesis by (simp only: cpu_read32_def)
  qed
  note w = this
  have w2: "cpu_read32 D h' (w + dol) = cpu_read32 D h (w + dol)" if "unat w \<le> 252" for w
    using w [OF that] by (simp add: add.commute)
  have "cpu_read32 D h' dol = cpu_read32 D h dol" using w [of 0] by simp
  then show ?thesis
    by (simp add: dol_header_def MAXTEXTSECTION_def MAXDATASECTION_def upt_rec w w2)
qed

text \<open>Where both buffers are out of the way of the image.\<close>

definition image_ok :: "u32 \<Rightarrow> u32 \<Rightarrow> u32 \<Rightarrow> u32 \<Rightarrow> bool" where
  "image_ok fx buffer dol n \<longleftrightarrow> fix_ok fx \<and> unat (phys26 buffer) + 2048 \<le> 2 ^ 26 \<and> src_ok (phys26 fx) buffer 2048 \<and>
     256 \<le> unat n \<and> src_ok (phys26 fx) dol n \<and> src_ok (phys26 buffer) dol n"

lemma clear_all:
  assumes D: "dsp_ok D regs mems left" and i: "image_ok fx buffer dol n"
  shows "\<exists>h'. ARAMClear D fx buffer ARAMSTART ARAMSIZE h = Some h' \<and>
    (\<forall>x. (\<not> x - phys26 fx < 2048) \<longrightarrow> (\<not> x - phys26 buffer < 2048) \<longrightarrow> fst (mems h') x = fst (mems h) x) \<and>
    (\<forall>x. snd (mems h') x = (if x < 0x600000 then 0 else snd (mems h) x))"
proof -
  let ?g = "dc_flush D (cpu_write D h buffer (replicate 2048 0)) buffer 2048"
  have g: "mems ?g = (\<lambda>x. if unat (x - phys26 buffer) < 2048 then replicate 2048 0 ! unat (x - phys26 buffer) else fst (mems h) x, snd (mems h))"
    using D i by (simp add: dsp_ok_def cpu_ok_def image_ok_def)
  have "\<forall>j < 2048. fst (mems ?g) (phys26 buffer + j) = 0" unfolding g by (simp add: word_less_nat_alt)
  moreover have "clear_blocks ARAMSIZE ARAMSTART = 3072" by (simp add: clear_blocks_def ARAMSIZE_def ARAMSTART_def)
  ultimately obtain h' where h': "clear_from D fx buffer ARAMSIZE ARAMSTART ?g = Some h'"
    "fix_same (phys26 fx) (fst (mems ?g)) (fst (mems h'))"
    "snd (mems h') = (\<lambda>x. if x < 0x600000 then 0 else snd (mems ?g) x)"
    using clear_from_zeroes [OF D, of fx buffer ARAMSIZE ?g ARAMSTART] i
    by (auto simp: image_ok_def ARAMSIZE_def ARAMSTART_def aligned32_def)
  then show ?thesis using g by (auto simp: ARAMClear_def fix_same_def word_less_nat_alt)
qed

text \<open>
  C24. A DOL image is moved into ARAM section by section: for an image whose used sections do not
  overlap, \<open>DOLtoARAM\<close> returns; the byte at offset \<open>k\<close> of a section is then at ARAM address
  (section address - lowest address + \<open>k\<close>), the stub is asked to copy from the lowest address up to
  128 KB behind the highest end, and below 6 MB every byte of ARAM in no section is zero. (Above
  6 MB ARAM keeps what it held: \<open>ARAMClear\<close> is given the 10 MB it is to clear as the part to leave.)
\<close>

theorem dol_to_aram_places_sections:
  fixes dol n args cmd :: u32 and h :: 'h
  assumes "dsp_ok D regs mems left" "image_ok fx buffer dol n"
  defines "d \<equiv> dol_header (cpu_read32 D h) dol"
  defines "mn \<equiv> fst (DOLMinMax d)"
  assumes "ds_offset (hd (text_sections d)) = DOLHDRLENGTH"
    and "\<forall>s \<in> set (text_sections d @ data_sections d). ds_used s \<longrightarrow> sec_ok n mn s"
    and "secs_apart mn (text_sections d @ data_sections d)"
  shows "\<exists>h'. DOLtoARAM D fx buffer args cmd dol [] h = Some (Run (ARAMRun (entry_point d) mn 0 (DOLMax d + 0x20000 - mn)) h') \<and>
    (\<forall>s \<in> set (text_sections d @ data_sections d). \<forall>x. in_sec mn s x \<longrightarrow>
       snd (mems h') x = fst (mems h) (phys26 dol + ds_offset s + (x - (ds_address s - mn)))) \<and>
    (\<forall>x. (\<forall>s \<in> set (text_sections d @ data_sections d). \<not> in_sec mn s x) \<longrightarrow>
       snd (mems h') x = (if x < 0x600000 then 0 else snd (mems h) x))"
proof -
  let ?ss = "text_sections d @ data_sections d"
  obtain g where g: "ARAMClear D fx buffer ARAMSTART ARAMSIZE h = Some g"
    "\<And>x. \<not> x - phys26 fx < 2048 \<Longrightarrow> \<not> x - phys26 buffer < 2048 \<Longrightarrow> fst (mems g) x = fst (mems h) x"
    "\<And>x. snd (mems g) x = (if x < 0x600000 then 0 else snd (mems h) x)"
    using clear_all [OF assms(1,2), of h] by blast
  have fx: "fix_ok fx" "src_ok (phys26 fx) dol n" "src_ok (phys26 buffer) dol n" "256 \<le> unat n"
    using assms(2) by (simp_all add: image_ok_def)
  have img: "fst (mems g) (phys26 dol + i) = fst (mems h) (phys26 dol + i)" if "i < n" for i
    using g(2) fx(2,3) that by (simp add: src_ok_def)
  have hd: "dol_header (cpu_read32 D g) dol = d" unfolding d_def by (rule header_same [OF assms(1) fx(2,4) img])
  obtain h' where h': "put_sections D fx dol mn ?ss g = Some h'"
    "sections_placed dol mn ?ss (fst (mems g)) (snd (mems g)) (snd (mems h'))"
    using put_sections_copies [OF assms(1) fx(1,2) assms(6,7), of g] by blast
  obtain g1 where g1: "put_sections D fx dol mn (text_sections d) g = Some g1" "put_sections D fx dol mn (data_sections d) g1 = Some h'"
    using h'(1) by (auto simp: put_sections_append bind_eq_Some_conv)
  have "DOLMinMax d = (mn, DOLMax d + 0x20000)" using DOLMinMax_max [of d] by (simp add: mn_def prod_eq_iff)
  then have r: "DOLtoARAM D fx buffer args cmd dol [] h = Some (Run (ARAMRun (entry_point d) mn 0 (DOLMax d + 0x20000 - mn)) h')"
    using g1 g(1) hd assms(5) by (simp add: DOLtoARAM_def ARAMSTART_def)
  have src: "fst (mems g) (phys26 dol + ds_offset s + (x - (ds_address s - mn))) =
      fst (mems h) (phys26 dol + ds_offset s + (x - (ds_address s - mn)))" if "s \<in> set ?ss" "in_sec mn s x" for s x
  proof -
    have s: "sec_ok n mn s" "x - (ds_address s - mn) < ds_length s" using that assms(6) by (auto simp: in_sec_def)
    then have "ds_offset s + (x - (ds_address s - mn)) < n" using unat_u32_less [of n]
      by (simp add: sec_ok_def word_less_nat_alt unat_word_ariths)
    then show ?thesis using img by (simp add: add.assoc)
  qed
  have "\<forall>s \<in> set ?ss. \<forall>x. in_sec mn s x \<longrightarrow>
      snd (mems h') x = fst (mems h) (phys26 dol + ds_offset s + (x - (ds_address s - mn)))"
    using h'(2) src by (simp add: sections_placed_def)
  moreover have "\<forall>x. (\<forall>s \<in> set ?ss. \<not> in_sec mn s x) \<longrightarrow> snd (mems h') x = (if x < 0x600000 then 0 else snd (mems h) x)"
    using h'(2) g(3) by (simp only: sections_placed_def) blast
  ultimately show ?thesis using r by blast
qed

text \<open>A small image: one text section of 64 bytes at 0x80003100, one data section of 32 bytes behind it.\<close>

definition demo_image :: bytes where
  "demo_image = [0, 0, 1, 0] @ replicate 24 0 @ [0, 0, 1, 0x40] @ replicate 40 0 @ [0x80, 0, 0x31, 0] @ replicate 24 0 @
     [0x80, 0, 0x31, 0x40] @ replicate 40 0 @ [0, 0, 0, 0x40] @ replicate 24 0 @ [0, 0, 0, 0x20] @ replicate 48 0 @
     [0x80, 0, 0x31, 0] @ replicate 28 0 @ map of_nat [0..<96]"

definition demo_ram :: sim_dsp where
  "demo_ram = sim_dsp0\<lparr>sd_mems := (\<lambda>a. if unat (a - 0x5000) < length demo_image then demo_image ! unat (a - 0x5000) else 7, \<lambda>_. 9)\<rparr>"

lemma demo_header:
  "dol_header (cpu_read32 sim_dsp_ops demo_ram) 0x80005000 =
     \<lparr>text_sections = \<lparr>ds_offset = 0x100, ds_address = 0x80003100, ds_length = 0x40\<rparr> # replicate 6 \<lparr>ds_offset = 0, ds_address = 0, ds_length = 0\<rparr>,
      data_sections = \<lparr>ds_offset = 0x140, ds_address = 0x80003140, ds_length = 0x20\<rparr> # replicate 10 \<lparr>ds_offset = 0, ds_address = 0, ds_length = 0\<rparr>,
      bss_address = 0, bss_length = 0, entry_point = 0x80003100\<rparr>"
  by code_simp


lemma demo_image_ok: "image_ok 0x80003000 0x80002000 0x80005000 0x160"
proof -
  have p: "phys26 (0x80003000 :: u32) = 0x3000" "phys26 (0x80002000 :: u32) = 0x2000" "phys26 (0x80005000 :: u32) = 0x5000"
    by (simp_all add: phys26_def mask_eq_exp_minus_1)
  have "phys26 (0x80005000 + i) = 0x5000 + i" "phys26 (0x80002000 + i) = 0x2000 + i" if "i < 0x800" for i
    using phys26_add [of "0x80005000" i] phys26_add [of "0x80002000" i] that by (simp_all add: p word_less_nat_alt)
  then show ?thesis
    by (simp add: image_ok_def fix_ok_def src_ok_def p aligned32_def word_less_nat_alt unat_word_ariths unat_sub_if')
qed

theorem dol_to_aram_places_sections_witness:
  "\<exists>c h'. DOLtoARAM sim_dsp_ops 0x80003000 0x80002000 0 0 0x80005000 [] demo_ram = Some (Run c h') \<and>
     st_dst c = 0x80003100 \<and> snd (sd_mems h') 5 = 5 \<and> snd (sd_mems h') 0x41 = 0x41 \<and> snd (sd_mems h') 0x100 = 0"
proof -
  let ?d = "dol_header (cpu_read32 sim_dsp_ops demo_ram) 0x80005000"
  have m: "fst (DOLMinMax ?d) = 0x80003100" unfolding demo_header by code_simp
  have ok: "\<forall>s \<in> set (text_sections ?d @ data_sections ?d). ds_used s \<longrightarrow> sec_ok 0x160 0x80003100 s"
    by (simp add: demo_header sec_ok_def ds_used_def)
  have i: "in_sec 0x80003100 \<lparr>ds_offset = 0, ds_address = 0, ds_length = 0\<rparr> x = False" for x by (simp add: in_sec_def ds_used_def)
  have ap: "secs_apart 0x80003100 (text_sections ?d @ data_sections ?d)"
    by (auto simp: demo_header secs_apart_def numeral_eq_Suc i) (auto simp: in_sec_def ds_used_def word_less_nat_alt unat_sub_if' split: if_splits)
  have t: "ds_offset (hd (text_sections ?d)) = DOLHDRLENGTH" by (simp add: demo_header DOLHDRLENGTH_def)
  obtain h' where h': "DOLtoARAM sim_dsp_ops 0x80003000 0x80002000 0 0 0x80005000 [] demo_ram =
      Some (Run (ARAMRun (entry_point ?d) 0x80003100 0 (DOLMax ?d + 0x20000 - 0x80003100)) h')"
    "\<forall>s \<in> set (text_sections ?d @ data_sections ?d). \<forall>x. in_sec 0x80003100 s x \<longrightarrow>
       snd (sd_mems h') x = fst (sd_mems demo_ram) (phys26 0x80005000 + ds_offset s + (x - (ds_address s - 0x80003100)))"
    "\<forall>x. (\<forall>s \<in> set (text_sections ?d @ data_sections ?d). \<not> in_sec 0x80003100 s x) \<longrightarrow>
       snd (sd_mems h') x = (if x < 0x600000 then 0 else snd (sd_mems demo_ram) x)"
    using dol_to_aram_places_sections [OF sim_dsp_ok demo_image_ok t, unfolded m, OF ok ap, of 0 0] by blast
  let ?t = "\<lparr>ds_offset = 0x100, ds_address = 0x80003100, ds_length = 0x40\<rparr>"
  let ?u = "\<lparr>ds_offset = 0x140, ds_address = 0x80003140, ds_length = 0x20\<rparr>"
  have p: "phys26 (0x80005000 :: u32) = 0x5000" by (simp add: phys26_def mask_eq_exp_minus_1)
  have b: "fst (sd_mems demo_ram) 0x5105 = 5" "fst (sd_mems demo_ram) 0x5141 = 0x41" by code_simp+
  have no: "\<forall>s \<in> set (text_sections ?d @ data_sections ?d). \<not> in_sec 0x80003100 s 0x100"
    by (simp add: demo_header in_sec_def ds_used_def)
  have "snd (sd_mems h') 5 = 5" using h'(2) [rule_format, of ?t 5] b(1) by (simp add: demo_header in_sec_def ds_used_def p)
  moreover have "snd (sd_mems h') 0x41 = 0x41" using h'(2) [rule_format, of ?u "0x41"] b(2)
    by (simp add: demo_header in_sec_def ds_used_def p)
  moreover have "snd (sd_mems h') 0x100 = 0" using spec [OF h'(3), of "0x100", THEN mp, OF no] by simp
  moreover have "st_dst (ARAMRun e 0x80003100 s l) = 0x80003100" for e s l by (simp add: ARAMRun_def Let_def)
  ultimately show ?thesis using h'(1) by blast
qed

end
