(* ===== verification/IplLoad.thy ===== *)
theory IplLoad
  imports Checksums FileLoad AramDma
begin

unbundle bit_operations_syntax

text \<open>
  Loading and identifying the console's IPL (cubeboot/source/ipl.c), the bootrom descrambler
  (descrambler.c) and the patches made before it runs (the cubeboot.dol half of emu/tweaks.c).
  Main memory is a function from addresses to bytes; what ARAM holds and what \<open>__SYS_ReadROM\<close>
  delivers are parameters. A \<open>prog_halt\<close> does not come back: it is the result \<open>Halt\<close>, and the
  call of the exit stub the result \<open>ExitToStub\<close>.
\<close>

section \<open>Descrambler\<close>

record descr =
  d_acc :: u8
  d_nacc :: u8
  d_t :: u16
  d_u :: u16
  d_v :: u16
  d_x :: u8

definition descr_start :: descr where
  "descr_start = \<lparr>d_acc = 0, d_nacc = 0, d_t = 0x2953, d_u = 0xd9c2, d_v = 0x3ff1, d_x = 1\<rparr>"

definition lsb :: "u16 \<Rightarrow> nat \<Rightarrow> u8" where "lsb w i = ucast (drop_bit i w AND 1)"

text \<open>The body of the loop up to the test of \<open>nacc\<close>.\<close>

definition descr_step :: "descr \<Rightarrow> descr" where
  "descr_step s =
     (let t0 = lsb (d_t s) 0; t1 = lsb (d_t s) 1; u0 = lsb (d_u s) 0; u1 = lsb (d_u s) 1; v0 = lsb (d_v s) 0;
          x = d_x s XOR (t1 XOR v0);
          x = x XOR (u0 OR u1);
          x = x XOR ((t0 XOR u1 XOR v0) AND (t0 XOR u0));
          v = (if t0 = u0 then (let v = drop_bit 1 (d_v s) in if v0 \<noteq> 0 then v XOR 0xb3d0 else v) else d_v s);
          u = (if t0 = 0 then (let u = drop_bit 1 (d_u s) in if u0 \<noteq> 0 then u XOR 0xfb10 else u) else d_u s);
          t = (let t = drop_bit 1 (d_t s) in if t0 \<noteq> 0 then t XOR 0xa740 else t)
      in \<lparr>d_acc = 2 * d_acc s + x, d_nacc = d_nacc s + 1, d_t = t, d_u = u, d_v = v, d_x = x\<rparr>)"

function descramble_from :: "nat \<Rightarrow> descr \<Rightarrow> bytes \<Rightarrow> nat \<Rightarrow> bytes" where
  "descramble_from it s data n0 =
     (if it < n0
      then (let s = descr_step s
            in if d_nacc s = 8 then descramble_from (it + 1) (s\<lparr>d_nacc := 0\<rparr>) (data[it := data ! it XOR d_acc s]) n0
               else descramble_from it s data n0)
      else data)"
  by pat_completeness auto

termination
proof (relation "measures [\<lambda>(it, s, data, n0). n0 - it, \<lambda>(it, s, data, n0). unat (7 - d_nacc s)]")
  fix it n0 :: nat and s x :: descr and data :: bytes
  assume "it < n0" "x = descr_step s" "d_nacc x \<noteq> 8"
  then have n: "d_nacc x = d_nacc s + 1" "7 - d_nacc s \<noteq> 0" by (auto simp: descr_step_def Let_def)
  define k where "k = 7 - d_nacc s"
  have "7 - d_nacc x = k - 1" using n(1) by (simp add: k_def)
  moreover have "unat (k - 1) < unat k" using n(2) by (simp add: k_def [symmetric] unat_minus_one unat_gt_0)
  ultimately have "unat (7 - d_nacc x) < unat (7 - d_nacc s)" by (simp only: k_def)
  then show "((it, x, data, n0), it, s, data, n0)
      \<in> measures [\<lambda>(it, s, data, n0). n0 - it, \<lambda>(it, s, data, n0). unat (7 - d_nacc s)]" by simp
qed auto

declare descramble_from.simps [simp del]

definition Descrambler :: "bytes \<Rightarrow> nat \<Rightarrow> bytes" where
  "Descrambler data n0 = descramble_from 0 descr_start data n0"

text \<open>The key stream: the bytes the generator yields, whatever the data.\<close>

primrec keystream :: "descr \<Rightarrow> nat \<Rightarrow> bytes" where
  "keystream s 0 = []"
| "keystream s (Suc n) = (let s = (descr_step ^^ 8) s in d_acc s # keystream (s\<lparr>d_nacc := 0\<rparr>) n)"

lemma nacc_steps: "d_nacc ((descr_step ^^ k) s) = d_nacc s + of_nat k"
  by (induction k) (simp_all add: descr_step_def Let_def)

lemma descramble_bits:
  "it < n0 \<Longrightarrow> d_nacc s = 0 \<Longrightarrow> k < 8 \<Longrightarrow> descramble_from it s data n0 = descramble_from it ((descr_step ^^ k) s) data n0"
proof (induction k)
  case (Suc k)
  let ?s = "(descr_step ^^ k) s"
  have "d_nacc (descr_step ?s) = of_nat (Suc k)" using nacc_steps [of "Suc k" s] Suc.prems(2) by simp
  moreover have "(of_nat (Suc k) :: u8) \<noteq> 8"
    using Suc.prems(3) by (auto simp: word_unat_eq_iff unat_of_nat take_bit_nat_eq_self simp del: of_nat_Suc)
  ultimately have "descramble_from it ?s data n0 = descramble_from it (descr_step ?s) data n0"
    using Suc.prems(1) by (subst descramble_from.simps) (simp add: Let_def)
  then show ?case using Suc by simp
qed simp

lemma descramble_byte:
  assumes "it < n0" "d_nacc s = 0"
  shows "descramble_from it s data n0 =
    (let s = (descr_step ^^ 8) s in descramble_from (it + 1) (s\<lparr>d_nacc := 0\<rparr>) (data[it := data ! it XOR d_acc s]) n0)"
proof -
  let ?s = "(descr_step ^^ 7) s"
  have e: "(descr_step ^^ 8) s = descr_step ?s" by (simp add: eval_nat_numeral)
  have "d_nacc (descr_step ?s) = 8" using nacc_steps [of 8 s] assms(2) by (simp add: e)
  moreover have "descramble_from it s data n0 = descramble_from it ?s data n0"
    using descramble_bits [OF assms, of 7] by simp
  ultimately show ?thesis using assms(1) by (subst (asm) (2) descramble_from.simps) (simp add: Let_def e)
qed

lemma descramble_keystream:
  "d_nacc s = 0 \<Longrightarrow> n0 \<le> length data \<Longrightarrow> it \<le> n0 \<Longrightarrow>
     descramble_from it s data n0 =
       take it data @ map2 (XOR) (take (n0 - it) (drop it data)) (keystream s (n0 - it)) @ drop n0 data"
proof (induction "n0 - it" arbitrary: it s data)
  case 0
  then have "it = n0" by simp
  then show ?case by (subst descramble_from.simps) simp
next
  case (Suc n)
  then have l: "it < n0" "n0 - it = Suc n" "n = n0 - (it + 1)" by auto
  let ?s = "(descr_step ^^ 8) s"
  let ?d = "data[it := data ! it XOR d_acc ?s]"
  have "descramble_from it s data n0 = descramble_from (it + 1) (?s\<lparr>d_nacc := 0\<rparr>) ?d n0"
    using descramble_byte [OF l(1) Suc.prems(1)] by (simp add: Let_def)
  also have "\<dots> = take (it + 1) ?d @ map2 (XOR) (take n (drop (it + 1) ?d)) (keystream (?s\<lparr>d_nacc := 0\<rparr>) n) @ drop n0 ?d"
    using Suc.hyps(1) [OF l(3), of "?s\<lparr>d_nacc := 0\<rparr>" ?d] Suc.prems l by simp
  also have "take (it + 1) ?d = take it data @ [data ! it XOR d_acc ?s]"
    using l Suc.prems by (simp add: take_Suc_conv_app_nth)
  finally show ?case using l Suc.prems by (simp add: Let_def Cons_nth_drop_Suc [symmetric])
qed

section \<open>The table of known IPLs\<close>

datatype ipl_type = IPL_NTSC | IPL_PAL

datatype ipl_version = IPL_NTSC_10 | IPL_NTSC_11 | IPL_NTSC_12_001 | IPL_NTSC_12_101 | IPL_PAL_10 | IPL_PAL_11 | IPL_PAL_12

record bios_item =
  b_version :: ipl_version
  b_type :: ipl_type
  b_name :: bytes
  reloc_prefix :: bytes
  patch_suffix :: bytes
  clean_crc :: u32
  dirty_crc :: u32
  b_sda :: u32

definition bios :: "ipl_version \<Rightarrow> ipl_type \<Rightarrow> string \<Rightarrow> string \<Rightarrow> string \<Rightarrow> u32 \<Rightarrow> u32 \<Rightarrow> u32 \<Rightarrow> bios_item" where
  "bios v t nm rel pat clean dirty sda = \<lparr>b_version = v, b_type = t, b_name = str_bytes nm, reloc_prefix = str_bytes rel,
     patch_suffix = str_bytes pat, clean_crc = clean, dirty_crc = dirty, b_sda = sda\<rparr>"

definition bios_table :: "bios_item list" where
  "bios_table =
    [bios IPL_NTSC_10 IPL_NTSC ''gc-ntsc-10'' ''ntsc10'' ''VER_NTSC_10'' 0xbb05745c 0x2487919c 0x81465320,
     bios IPL_NTSC_11 IPL_NTSC ''gc-ntsc-11'' ''ntsc11'' ''VER_NTSC_11'' 0x6cd1acb5 0x53faeffc 0x81489120,
     bios IPL_NTSC_12_001 IPL_NTSC ''gc-ntsc-12_001'' ''ntsc12_001'' ''VER_NTSC_12_001'' 0xedf79188 0xdc527533 0x8148b1c0,
     bios IPL_NTSC_12_101 IPL_NTSC ''gc-ntsc-12_101'' ''ntsc12_101'' ''VER_NTSC_12_101'' 0x65434097 0x84075b6d 0x8148b640,
     bios IPL_PAL_10 IPL_PAL ''gc-pal-10'' ''pal10'' ''VER_PAL_10'' 0x9391a4d2 0xeadf6ce5 0x814b4fc0,
     bios IPL_PAL_11 IPL_PAL ''gc-pal-11'' ''pal11'' ''VER_PAL_11'' 0x3e9af028 0x76b301de 0x81483de0,
     bios IPL_PAL_12 IPL_PAL ''gc-pal-12'' ''pal12'' ''VER_PAL_12'' 0xa53af44f 0x89f5a81a 0x814b7280]"

fun find_bios :: "u32 \<Rightarrow> u32 \<Rightarrow> bios_item list \<Rightarrow> nat option" where
  "find_bios crc sda [] = None"
| "find_bios crc sda (b # bs) =
     (if dirty_crc b = crc \<and> b_sda b = sda then Some 0 else map_option Suc (find_bios crc sda bs))"

section \<open>Memory\<close>

definition IPL_SIZE :: u32 where "IPL_SIZE = 0x200000"
definition IPL_ROM_FONT_SJIS :: nat where "IPL_ROM_FONT_SJIS = 0x1AFF00"
definition DECRYPT_START :: nat where "DECRYPT_START = 0x100"
definition BS2_CODE_OFFSET :: u32 where "BS2_CODE_OFFSET = 0x800 + 0x20"
definition BS2_BASE_ADDR :: u32 where "BS2_BASE_ADDR = 0x81300000"
definition bs2_size :: u32 where "bs2_size = IPL_SIZE - BS2_CODE_OFFSET"
definition STACK_SETUP_ADDR :: u32 where "STACK_SETUP_ADDR = 0x81300098"
definition SDA_LOAD_ADDR_A :: u32 where "SDA_LOAD_ADDR_A = STACK_SETUP_ADDR + 4 * (2 * 2)"
definition SDA_LOAD_ADDR_B :: u32 where "SDA_LOAD_ADDR_B = SDA_LOAD_ADDR_A + 4 * (1 * (32 - 3))"
definition METADATA_ADDR :: u32 where "METADATA_ADDR = 0x81500000 - 16"

definition mem_read :: "memory \<Rightarrow> u32 \<Rightarrow> nat \<Rightarrow> bytes" where
  "mem_read m a n = map (\<lambda>i. m (a + of_nat i)) [0..<n]"

definition mem_write :: "memory \<Rightarrow> u32 \<Rightarrow> bytes \<Rightarrow> memory" where
  "mem_write m a bs = (\<lambda>x. if unat (x - a) < length bs then bs ! unat (x - a) else m x)"

definition mem32 :: "memory \<Rightarrow> u32 \<Rightarrow> u32" where
  "mem32 m a = be32 (mem_read m a 4) 0"

record ipl_metadata =
  md_magic :: u16
  md_revision :: u8
  md_padding :: u8
  md_blob_checksum :: u32
  md_code_size :: u32
  md_code_checksum :: u32

definition ipl_metadata_at :: "memory \<Rightarrow> ipl_metadata" where
  "ipl_metadata_at m = (let b = mem_read m METADATA_ADDR 16 in
     \<lparr>md_magic = be16 b 0, md_revision = b ! 2, md_padding = b ! 3, md_blob_checksum = be32 b 4, md_code_size = be32 b 8,
      md_code_checksum = be32 b 12\<rparr>)"

definition get_sda_address :: "memory \<Rightarrow> u32" where
  "get_sda_address m =
     (let sda_load = (if mem32 m STACK_SETUP_ADDR = 0x38000000 then SDA_LOAD_ADDR_B else SDA_LOAD_ADDR_A);
          sda_high = push_bit 16 (mem32 m sda_load AND 0xFFFF);
          sda_low = mem32 m (sda_load + 4) AND 0xFFFF
      in sda_high OR sda_low)"

section \<open>Loading\<close>

record ('h, 'f) ipl_state =
  ip_uff :: "('h, 'f) uff"
  bios_buffer :: bytes
  ip_mem :: memory
  bios_index :: int
  ip_valid :: bool

datatype 's ipl_result = Loaded 's | Halt 's | ExitToStub 's

definition bios_path :: bytes where "bios_path = str_bytes ''/ipl.bin''"

text \<open>Descramble \<open>bios_buffer\<close> and copy the code to its place.\<close>

definition unpack_bios :: "('h, 'f) ipl_state \<Rightarrow> ('h, 'f) ipl_state" where
  "unpack_bios s =
     (let buf = bios_buffer s;
          buf = take DECRYPT_START buf @ Descrambler (drop DECRYPT_START buf) (IPL_ROM_FONT_SJIS - DECRYPT_START)
      in s\<lparr>bios_buffer := buf,
           ip_mem := mem_write (ip_mem s) BS2_BASE_ADDR (take (unat bs2_size) (drop (unat BS2_CODE_OFFSET) buf))\<rparr>)"

definition load_ipl_rom :: "(nat \<Rightarrow> nat \<Rightarrow> bytes) \<Rightarrow> bool \<Rightarrow> ('h, 'f) ipl_state \<Rightarrow> ('h, 'f) ipl_state" where
  "load_ipl_rom read_rom dolphin s =
     (if dolphin then s\<lparr>ip_mem := mem_write (ip_mem s) BS2_BASE_ADDR (read_rom (unat bs2_size) (unat BS2_CODE_OFFSET))\<rparr>
      else unpack_bios (s\<lparr>bios_buffer := read_rom (unat IPL_SIZE) 0\<rparr>))"

definition identify :: "u32 \<Rightarrow> ('h, 'f) ipl_state \<Rightarrow> ('h, 'f) ipl_state" where
  "identify crc s =
     (case find_bios crc (get_sda_address (ip_mem s)) bios_table of
        Some i \<Rightarrow> s\<lparr>bios_index := int i, ip_valid := True\<rparr>
      | None \<Rightarrow> s\<lparr>ip_valid := False\<rparr>)"

text \<open>\<open>fetch\<close> is \<open>load_file_buffer (path, bios_buffer)\<close>, \<open>fsize\<close> is \<open>get_file_size (path)\<close>.\<close>

definition load_ipl_file :: "'h hwops \<Rightarrow> 'f fatfs \<Rightarrow> bytes \<Rightarrow> u32 \<Rightarrow> u32 \<Rightarrow> ('h, 'f) ipl_state \<Rightarrow> ('h, 'f) ipl_state ipl_result option" where
  "load_ipl_file H F abuf abuf_addr bufp s = do {
     (sz, u) \<leftarrow> get_file_size H F (ip_uff s) bios_path;
     let s = s\<lparr>ip_uff := u\<rparr>;
     if sz = SD_FAIL then Some (Halt s)
     else if sz \<noteq> uint IPL_SIZE then Some (Halt s)
     else do {
       (r, buf, u) \<leftarrow> load_file_buffer H F abuf abuf_addr (ip_uff s) bios_path bufp (bios_buffer s);
       let s = s\<lparr>ip_uff := u, bios_buffer := buf\<rparr>;
       if r \<noteq> 0 then Some (Halt s)
       else do {
         let s = unpack_bios s;
         let s = identify (csp_crc32_memory (mem_read (ip_mem s) BS2_BASE_ADDR (unat bs2_size)) bs2_size) s;
         Some (if ip_valid s then Loaded s else Halt s)
       }
     }
   }"

text \<open>\<open>ensure_ipl_loaded\<close>: the boot code from the file or the ROM when ARAM had no metadata.\<close>

definition code_end :: "memory \<Rightarrow> u32" where
  "code_end m = (if mem32 m 0x81300310 = 0x81300000 then mem32 m 0x81300324 else mem32 m 0x8130039c)"

definition ensure_ipl_loaded :: "'h hwops \<Rightarrow> 'f fatfs \<Rightarrow> (nat \<Rightarrow> nat \<Rightarrow> bytes) \<Rightarrow> bytes \<Rightarrow> u32 \<Rightarrow> u32 \<Rightarrow>
    ('h, 'f) ipl_state \<Rightarrow> ('h, 'f) ipl_state option" where
  "ensure_ipl_loaded H F read_rom abuf abuf_addr bufp s =
     (if md_magic (ipl_metadata_at (ip_mem s)) = 0xC0DE then Some s
      else do {
        let s = s\<lparr>ip_mem := mem_write (ip_mem s) METADATA_ADDR (replicate 16 0)\<rparr>;
        (sz, u) \<leftarrow> get_file_size H F (ip_uff s) bios_path;
        let s = s\<lparr>ip_uff := u\<rparr>;
        (ok, s) \<leftarrow> (if sz \<noteq> uint IPL_SIZE then Some (False, s)
          else do {
            (r, buf, u) \<leftarrow> load_file_buffer H F abuf abuf_addr (ip_uff s) bios_path bufp (bios_buffer s);
            Some (r = 0, s\<lparr>ip_uff := u, bios_buffer := buf\<rparr>)
          });
        let s = (if ok then s else s\<lparr>bios_buffer := read_rom (unat IPL_SIZE) 0\<rparr>);
        let s = unpack_bios s;
        let m = mem_write (ip_mem s) METADATA_ADDR (be_bytes 2 (0xC0DE :: u16));
        Some (s\<lparr>ip_mem := mem_write m (METADATA_ADDR + 8) (be_bytes 4 (code_end m - 0x81300000))\<rparr>)
      })"

definition patch_word :: "memory \<Rightarrow> u32 \<Rightarrow> u32 \<Rightarrow> memory" where
  "patch_word m a w = mem_write m a (be_bytes 4 w)"

definition probe_patch :: "bytes \<Rightarrow> nat \<Rightarrow> (u32 \<times> u32) option" where
  "probe_patch dname i =
     (if dname = str_bytes ''sda'' then Some ([0x8131b1c4, 0x8131b8f0, 0x8131bc88, 0x8131bca0, 0x8131c29c, 0x8131b81c, 0x8131c3dc] ! i, 0x38600000)
      else if dname = str_bytes ''sdb'' then Some ([0x8131b274, 0x8131b9a0, 0x8131bd38, 0x8131bd50, 0x8131c34c, 0x8131b8cc, 0x8131c48c] ! i, 0x38600000)
      else if dname = str_bytes ''sdc'' then Some ([0x81335f54, 0x8135b9b4, 0x8136572c, 0x81365890, 0x8135ef94, 0x8135b8d4, 0x81368c08] ! i, 0x4e800020)
      else None)"

definition apply_additional_patches :: "('h, 'f) ipl_state \<Rightarrow> ('h, 'f) ipl_state" where
  "apply_additional_patches s =
     (if bios_index s < 0 then s
      else case emu_get_device (u_emu (ip_uff s)) of
        None \<Rightarrow> s
      | Some d \<Rightarrow> (case probe_patch d (nat (bios_index s)) of
          None \<Rightarrow> s
        | Some (addr, w) \<Rightarrow> s\<lparr>ip_mem := patch_word (ip_mem s) addr w\<rparr>))"

text \<open>\<open>post_ipl_loaded\<close>: the video mode it switches to, if it does.\<close>

datatype rmode = TVPal528IntDf | TVMpal480IntDf

definition current_bios :: "('h, 'f) ipl_state \<Rightarrow> bios_item" where
  "current_bios s = bios_table ! nat (bios_index s)"

definition post_ipl_loaded :: "bool \<Rightarrow> ('h, 'f) ipl_state \<Rightarrow> rmode option" where
  "post_ipl_loaded tv_ntsc s =
     (if b_type (current_bios s) = IPL_PAL \<and> tv_ntsc
      then Some (if b_version (current_bios s) = IPL_PAL_11 then TVPal528IntDf else TVMpal480IntDf) else None)"

definition load_ipl :: "'h hwops \<Rightarrow> 'f fatfs \<Rightarrow> (nat \<Rightarrow> nat \<Rightarrow> bytes) \<Rightarrow> bytes \<Rightarrow> u32 \<Rightarrow> u32 \<Rightarrow> memory \<Rightarrow> bool \<Rightarrow> bool \<Rightarrow>
    ('h, 'f) ipl_state \<Rightarrow> (('h, 'f) ipl_state ipl_result \<times> rmode option) option" where
  "load_ipl H F read_rom abuf abuf_addr bufp aram dolphin tv_ntsc s = do {
     let s = s\<lparr>ip_mem := mem_write (ip_mem s) BS2_BASE_ADDR (mem_read aram 0xe00000 0x200000)\<rparr>;
     s \<leftarrow> ensure_ipl_loaded H F read_rom abuf abuf_addr bufp s;
     let metadata = ipl_metadata_at (ip_mem s);
     let s = s\<lparr>ip_mem := mem_write (ip_mem s) METADATA_ADDR (replicate 16 0)\<rparr>;
     if md_magic metadata \<noteq> 0xC0DE then Some (if dolphin then Halt s else ExitToStub s, None)
     else do {
       let code = mem_read (ip_mem s) BS2_BASE_ADDR (unat (md_code_size metadata));
       let s = identify (tinf_crc32 code (md_code_size metadata)) s;
       r \<leftarrow> (if ip_valid s then Some (Loaded s) else load_ipl_file H F abuf abuf_addr bufp s);
       (case r of
          Loaded s \<Rightarrow> Some (Loaded (apply_additional_patches s), post_ipl_loaded tv_ntsc s)
        | _ \<Rightarrow> Some (r, None))
     }
   }"

section \<open>Which images are accepted\<close>

lemma find_bios_Some:
  "find_bios crc sda bs = Some i \<Longrightarrow> i < length bs \<and> dirty_crc (bs ! i) = crc \<and> b_sda (bs ! i) = sda"
  by (induction bs arbitrary: i) (auto split: if_splits)

lemma length_descramble: "n0 \<le> length data \<Longrightarrow> length (Descrambler data n0) = length data"
proof -
  assume n: "n0 \<le> length data"
  have l: "length (keystream s n) = n" for s n by (induction n arbitrary: s) (simp_all add: Let_def)
  show ?thesis using descramble_keystream [of descr_start n0 data 0] n l by (simp add: Descrambler_def descr_start_def)
qed

lemma mem_write_read:
  "mem_write m a (mem_read m' b n) x = (if unat (x - a) < n then m' (b + (x - a)) else m x)"
  by (simp add: mem_write_def mem_read_def)

text \<open>What is known of a state in which the image has been identified with the entry \<open>i\<close> of the table.\<close>

definition known_image :: "memory \<Rightarrow> int \<Rightarrow> bool" where
  "known_image m i \<longleftrightarrow> 0 \<le> i \<and> i < int (length bios_table) \<and> b_sda (bios_table ! nat i) = get_sda_address m \<and>
     ((\<exists>k. dirty_crc (bios_table ! nat i) = tinf_crc32 (mem_read m BS2_BASE_ADDR (unat k)) k) \<or>
      dirty_crc (bios_table ! nat i) = csp_crc32_memory (mem_read m BS2_BASE_ADDR (unat bs2_size)) bs2_size)"

lemma identify_simps [simp]: "ip_mem (identify crc s) = ip_mem s" "ip_uff (identify crc s) = ip_uff s"
  "bios_buffer (identify crc s) = bios_buffer s"
  by (simp_all add: identify_def split: option.splits)

lemma identify_known:
  "ip_valid (identify crc s) \<Longrightarrow> 0 \<le> bios_index (identify crc s) \<and> bios_index (identify crc s) < int (length bios_table) \<and>
     b_sda (bios_table ! nat (bios_index (identify crc s))) = get_sda_address (ip_mem s) \<and>
     dirty_crc (bios_table ! nat (bios_index (identify crc s))) = crc"
  using find_bios_Some [of crc "get_sda_address (ip_mem s)" bios_table] by (auto simp: identify_def split: option.splits)

lemma file_image_known:
  "ip_valid (identify (csp_crc32_memory (mem_read (ip_mem t) BS2_BASE_ADDR (unat bs2_size)) bs2_size) t) \<Longrightarrow>
     known_image (ip_mem t) (bios_index (identify (csp_crc32_memory (mem_read (ip_mem t) BS2_BASE_ADDR (unat bs2_size)) bs2_size) t))"
  by (drule identify_known) (simp add: known_image_def)

lemma aram_image_known:
  "ip_valid (identify (tinf_crc32 (mem_read (ip_mem t) BS2_BASE_ADDR (unat k)) k) t) \<Longrightarrow>
     known_image (ip_mem t) (bios_index (identify (tinf_crc32 (mem_read (ip_mem t) BS2_BASE_ADDR (unat k)) k) t))"
  by (drule identify_known) (auto simp: known_image_def)

lemma unpack_simps [simp]: "ip_uff (unpack_bios s) = ip_uff s" "length (bios_buffer s) = 0x200000 \<Longrightarrow> length (bios_buffer (unpack_bios s)) = 0x200000"
  by (simp_all add: unpack_bios_def Let_def length_descramble DECRYPT_START_def IPL_ROM_FONT_SJIS_def)

definition rom_ok :: "(nat \<Rightarrow> nat \<Rightarrow> bytes) \<Rightarrow> bool" where
  "rom_ok read_rom \<longleftrightarrow> (\<forall>n a. length (read_rom n a) = n)"

lemma unat_IPL_SIZE [simp]: "unat IPL_SIZE = 0x200000" "uint IPL_SIZE = 0x200000"
  by (simp_all add: IPL_SIZE_def)

lemma load_ipl_file_known:
  assumes F: "fat_serves F opened fptr (fat_path d bios_path) content fsz" "fsz < 2 ^ 31" and a: "length abuf = 16384"
    and s: "on_fat d (u_emu (ip_uff s))" "length (bios_buffer s) = 0x200000"
  shows "\<exists>r. load_ipl_file H F abuf aa bufp s = Some r \<and>
    (\<forall>s'. r = Loaded s' \<longrightarrow> known_image (ip_mem s') (bios_index s') \<and> on_fat d (u_emu (ip_uff s')))"
proof -
  obtain z u where z: "get_file_size H F (ip_uff s) bios_path = Some (z, u)" "on_fat d (u_emu u)" "z = SD_FAIL \<or> z = int fsz"
    using get_file_size_fat [OF F(1) s(1) F(2), of H] by blast
  show ?thesis
  proof (cases "z = SD_FAIL \<or> z \<noteq> uint IPL_SIZE")
    case True
    then show ?thesis using z by (auto simp: load_ipl_file_def Let_def)
  next
    case False
    then have "fsz \<le> length (bios_buffer s)" using z(3) s(2) by auto
    then obtain r buf u2 where "load_file_buffer H F abuf aa u bios_path bufp (bios_buffer s) = Some (r, buf, u2)" "on_fat d (u_emu u2)"
      using load_file_buffer_fat [OF F(1) z(2), of "bios_buffer s" abuf H aa bufp] a by blast
    then show ?thesis using z(1) False by (auto simp: load_ipl_file_def Let_def intro: file_image_known)
  qed
qed

lemma ensure_returns:
  assumes F: "fat_serves F opened fptr (fat_path d bios_path) content fsz" "fsz < 2 ^ 31" and a: "length abuf = 16384"
    and s: "on_fat d (u_emu (ip_uff s))" "length (bios_buffer s) = 0x200000" and r: "rom_ok read_rom"
  shows "\<exists>s'. ensure_ipl_loaded H F read_rom abuf aa bufp s = Some s' \<and> on_fat d (u_emu (ip_uff s')) \<and> length (bios_buffer s') = 0x200000"
proof (cases "md_magic (ipl_metadata_at (ip_mem s)) = 0xC0DE")
  case True
  then show ?thesis using s by (simp add: ensure_ipl_loaded_def)
next
  case False
  obtain z u where z: "get_file_size H F (ip_uff s) bios_path = Some (z, u)" "on_fat d (u_emu u)" "z = SD_FAIL \<or> z = int fsz"
    using get_file_size_fat [OF F(1) s(1) F(2), of H] by blast
  have rl: "length (read_rom n k) = n" for n k using r by (simp add: rom_ok_def)
  show ?thesis
  proof (cases "z = uint IPL_SIZE")
    case True
    then have f: "fsz = length (bios_buffer s)" using z(3) s(2) by (auto simp: SD_FAIL_def)
    obtain q buf u2 where q: "load_file_buffer H F abuf aa u bios_path bufp (bios_buffer s) = Some (q, buf, u2)" "q = SD_OK \<or> q = SD_FAIL"
      "q = SD_OK \<longrightarrow> length buf = length (bios_buffer s)" "on_fat d (u_emu u2)"
      using load_file_buffer_fat [OF F(1) z(2), of "bios_buffer s" abuf H aa bufp] a f by fastforce
    show ?thesis using z(1) q s False True rl by (auto simp: ensure_ipl_loaded_def Let_def SD_OK_def SD_FAIL_def)
  next
    case False': False
    then show ?thesis using z(1,2) s False rl by (auto simp: ensure_ipl_loaded_def Let_def)
  qed
qed

section \<open>Properties\<close>

text \<open>The patch against the probing of the card's slot, for device \<open>d\<close> and table entry \<open>i\<close>.\<close>

definition probe_patched :: "nat \<Rightarrow> int \<Rightarrow> memory \<Rightarrow> memory" where
  "probe_patched d i m = (case probe_patch (device_prio ! d) (nat i) of None \<Rightarrow> m | Some (addr, w) \<Rightarrow> patch_word m addr w)"

text \<open>
  C25. Only known IPLs are started: with a FatFs device, whatever ARAM, the ROM and the file hold,
  \<open>load_ipl\<close> returns, and unless it halts or leaves through the exit stub the code in memory has the
  SDA address and one of the two checksums of the table entry it selects; afterwards nothing but
  the probe instruction for the slot of the device has been changed in it.
\<close>

theorem load_ipl_known:
  assumes F: "fat_serves F opened fptr (fat_path d bios_path) content fsz" "fsz < 2 ^ 31" and a: "length abuf = 16384"
    and s: "on_fat d (u_emu (ip_uff s))" "length (bios_buffer s) = 0x200000" and r: "rom_ok read_rom"
  shows "\<exists>r rm. load_ipl H F read_rom abuf aa bufp aram dolphin tv_ntsc s = Some (r, rm) \<and>
    (\<forall>s'. r = Loaded s' \<longrightarrow> (\<exists>m. known_image m (bios_index s') \<and> ip_mem s' = probe_patched d (bios_index s') m))"
proof -
  define s1 where "s1 = s\<lparr>ip_mem := mem_write (ip_mem s) BS2_BASE_ADDR (mem_read aram 0xe00000 0x200000)\<rparr>"
  have "on_fat d (u_emu (ip_uff s1))" "length (bios_buffer s1) = 0x200000" using s by (simp_all add: s1_def)
  then obtain s2 where s2: "ensure_ipl_loaded H F read_rom abuf aa bufp s1 = Some s2" "on_fat d (u_emu (ip_uff s2))"
    "length (bios_buffer s2) = 0x200000" using ensure_returns [OF F a _ _ r, of s1 H aa bufp] by blast
  let ?md = "ipl_metadata_at (ip_mem s2)"
  define s3 where "s3 = s2\<lparr>ip_mem := mem_write (ip_mem s2) METADATA_ADDR (replicate 16 0)\<rparr>"
  let ?k = "md_code_size ?md"
  define s4 where "s4 = identify (tinf_crc32 (mem_read (ip_mem s3) BS2_BASE_ADDR (unat ?k)) ?k) s3"
  have u4: "on_fat d (u_emu (ip_uff s4))" "length (bios_buffer s4) = 0x200000" using s2(2,3) by (simp_all add: s3_def s4_def)
  obtain q where q: "load_ipl_file H F abuf aa bufp s4 = Some q"
    "\<forall>s'. q = Loaded s' \<longrightarrow> known_image (ip_mem s') (bios_index s') \<and> on_fat d (u_emu (ip_uff s'))"
    using load_ipl_file_known [OF F a u4] by blast
  have p: "bios_index (apply_additional_patches t) = bios_index t"
    "ip_mem (apply_additional_patches t) = probe_patched d (bios_index t) (ip_mem t)"
    if "known_image (ip_mem t) (bios_index t)" "on_fat d (u_emu (ip_uff t))" for t
    using that by (auto simp: apply_additional_patches_def probe_patched_def known_image_def on_fat_def emu_get_device_def
        split: option.splits)
  show ?thesis
  proof (cases "md_magic ?md = 0xC0DE")
    case False
    then show ?thesis using s2(1) by (simp add: load_ipl_def Let_def s1_def)
  next
    case True
    obtain v where v: "(if ip_valid s4 then Some (Loaded s4) else load_ipl_file H F abuf aa bufp s4) = Some v" using q(1) by (cases "ip_valid s4") auto
    have k: "v = Loaded t \<Longrightarrow> known_image (ip_mem t) (bios_index t) \<and> on_fat d (u_emu (ip_uff t))" for t
      using v q u4(1) aram_image_known [of s3 ?k, folded s4_def] by (cases "ip_valid s4") (auto simp: s4_def)
    have "load_ipl H F read_rom abuf aa bufp aram dolphin tv_ntsc s = (case v of
        Loaded t \<Rightarrow> Some (Loaded (apply_additional_patches t), post_ipl_loaded tv_ntsc t) | _ \<Rightarrow> Some (v, None))"
      using s2(1) True v by (cases "ip_valid s4") (simp_all add: load_ipl_def Let_def flip: s1_def s3_def s4_def)
    moreover have "known_image (ip_mem t) (bios_index (apply_additional_patches t)) \<and>
        ip_mem (apply_additional_patches t) = probe_patched d (bios_index (apply_additional_patches t)) (ip_mem t)"
      if "v = Loaded t" for t using k [OF that] p [of t] by simp
    ultimately show ?thesis by (cases v) auto
  qed
qed

text \<open>
  C29. The descrambler is its own inverse: it exclusive-ors the first \<open>n0\<close> bytes with a key
  stream that depends on nothing but the position and leaves the rest, so running it twice gives
  back every buffer; it ends for every buffer.
\<close>

theorem descrambler_involutive:
  assumes "n0 \<le> length data"
  shows "Descrambler data n0 = map2 (XOR) (take n0 data) (keystream descr_start n0) @ drop n0 data \<and>
    Descrambler (Descrambler data n0) n0 = data"
proof -
  have k: "Descrambler d n0 = map2 (XOR) (take n0 d) (keystream descr_start n0) @ drop n0 d" if "n0 \<le> length d" for d
    using descramble_keystream [of descr_start n0 d 0] that by (simp add: Descrambler_def descr_start_def)
  have l: "length (keystream s n) = n" for s n by (induction n arbitrary: s) (simp_all add: Let_def)
  have x: "map2 (XOR) (map2 (XOR) xs ks) ks = xs" if "length xs = length ks" for xs ks :: bytes
    using that by (induction xs ks rule: list_induct2) (simp_all add: xor.assoc)
  have "n0 \<le> length (Descrambler data n0)" using k [OF assms] assms l by simp
  from k [OF this] show ?thesis using k [OF assms] x [of "take n0 data" "keystream descr_start n0"] assms l by simp
qed

theorem descrambler_involutive_witness: "Descrambler (Descrambler [1, 2, 3, 4] 3) 3 = [1, 2, 3, 4]"
  by (rule descrambler_involutive [THEN conjunct2]) simp


text \<open>ARAM with a four-byte code area that has the checksum and the SDA address of the first entry.\<close>

definition demo_aram :: memory where
  "demo_aram = mem_write (mem_write (mem_write (\<lambda>_. 0) 0xe00000 [0x7b, 0xe9, 0x1c, 0x9c])
     0xe000A8 [0x3c, 0, 0x81, 0x46, 0x60, 0, 0x53, 0x20]) 0xFFFFF0 [0xC0, 0xDE, 0, 0, 0, 0, 0, 0, 0, 0, 0, 4, 0, 0, 0, 0]"

definition demo_ipl :: "(unit, nat) ipl_state" where
  "demo_ipl = \<lparr>ip_uff = byte_uff, bios_buffer = replicate 0x200000 0, ip_mem = (\<lambda>_. 0), bios_index = - 1, ip_valid = False\<rparr>"


lemma demo_ipl_loaded:
  "\<exists>s' rm. load_ipl (one_date_hw []) byte_fs (\<lambda>n _. replicate n 0) (replicate 16384 0) 0 0 demo_aram False False demo_ipl =
     Some (Loaded s', rm) \<and> bios_index s' = 0"
proof -
  define m where "m = mem_write (\<lambda>_. 0) BS2_BASE_ADDR (mem_read demo_aram 0xe00000 0x200000)"
  have m: "m x = (if unat (x - 0x81300000) < 0x200000 then demo_aram (0xe00000 + (x - 0x81300000)) else 0)" for x
    by (simp only: m_def mem_write_read BS2_BASE_ADDR_def)
  have md: "ipl_metadata_at m = \<lparr>md_magic = 0xC0DE, md_revision = 0, md_padding = 0, md_blob_checksum = 0, md_code_size = 4, md_code_checksum = 0\<rparr>"
    by (simp add: ipl_metadata_at_def mem_read_def m METADATA_ADDR_def demo_aram_def mem_write_def upt_rec be16_def be32_def)
  define m0 where "m0 = mem_write m METADATA_ADDR (replicate 16 0)"
  have m0: "m0 x = (if unat (x - 0x814FFFF0) < 16 then 0 else m x)" for x
    by (simp add: m0_def mem_write_def METADATA_ADDR_def)
  have code: "mem_read m0 BS2_BASE_ADDR 4 = [0x7b, 0xe9, 0x1c, 0x9c]"
    by (simp add: mem_read_def m0 m demo_aram_def mem_write_def upt_rec BS2_BASE_ADDR_def)
  have sda: "get_sda_address m0 = 0x81465320"
    by (simp add: get_sda_address_def mem32_def mem_read_def m0 m demo_aram_def mem_write_def upt_rec be32_def
        STACK_SETUP_ADDR_def SDA_LOAD_ADDR_A_def SDA_LOAD_ADDR_B_def)
  have crc: "tinf_crc32 [0x7b, 0xe9, 0x1c, 0x9c] 4 = 0x2487919c" by code_simp
  have f: "find_bios 0x2487919c 0x81465320 bios_table = Some 0" by (simp add: bios_table_def bios_def)
  have "identify (tinf_crc32 (mem_read m0 BS2_BASE_ADDR (unat (4 :: u32))) 4) (demo_ipl\<lparr>ip_mem := m0\<rparr>) =
      demo_ipl\<lparr>ip_mem := m0, bios_index := 0, ip_valid := True\<rparr>"
    by (simp add: identify_def code crc sda f)
  then have "load_ipl (one_date_hw []) byte_fs (\<lambda>n _. replicate n 0) (replicate 16384 0) 0 0 demo_aram False False demo_ipl =
      Some (Loaded (apply_additional_patches (demo_ipl\<lparr>ip_mem := m0, bios_index := 0, ip_valid := True\<rparr>)),
        post_ipl_loaded False (demo_ipl\<lparr>ip_mem := m0, bios_index := 0, ip_valid := True\<rparr>))"
    using md by (simp add: load_ipl_def ensure_ipl_loaded_def Let_def demo_ipl_def m_def [symmetric] m0_def [symmetric])
  then show ?thesis by (auto simp: apply_additional_patches_def split: option.splits)
qed

theorem load_ipl_known_witness:
  "\<exists>s' rm m. load_ipl (one_date_hw []) byte_fs (\<lambda>n _. replicate n 0) (replicate 16384 0) 0 0 demo_aram False False demo_ipl =
     Some (Loaded s', rm) \<and> bios_index s' = 0 \<and> known_image m 0 \<and> ip_mem s' = probe_patched 3 0 m"
proof -
  obtain s' rm where s: "load_ipl (one_date_hw []) byte_fs (\<lambda>n _. replicate n 0) (replicate 16384 0) 0 0 demo_aram False False demo_ipl =
     Some (Loaded s', rm)" "bios_index s' = 0" using demo_ipl_loaded by blast
  have "on_fat 3 (u_emu (ip_uff demo_ipl))" "length (bios_buffer demo_ipl) = 0x200000" "rom_ok (\<lambda>n _. replicate n 0)"
    using byte_uff_on_fat by (simp_all add: demo_ipl_def rom_ok_def)
  from load_ipl_known [OF byte_fs_serves(1) _ _ this, of "replicate 16384 0" "one_date_hw []" 0 0 demo_aram False False] s
  show ?thesis by auto
qed

end
