(* ===== verification/Pmalloc.thy ===== *)
theory Pmalloc
  imports Prelude "HOL-Library.Monad_Syntax"
begin

unbundle bit_operations_syntax

text \<open>
  The heap of the menu (patches/source/pmalloc/pmalloc.c): two doubly linked lists of blocks,
  sorted by address, whose headers lie in front of the memory they describe. Memory is a function
  from word addresses to words, so that a header that has not been initialised holds what was
  there before; address 0 is the null pointer. The loops run over lists in that memory and may not
  end on a damaged one: they are partial functions.
\<close>

section \<open>Headers and lists\<close>

type_synonym words = "u32 \<Rightarrow> u32"

definition item_size :: u32 where "item_size = 16"

definition i_prev :: "words \<Rightarrow> u32 \<Rightarrow> u32" where "i_prev m p = m p"
definition i_next :: "words \<Rightarrow> u32 \<Rightarrow> u32" where "i_next m p = m (p + 4)"
definition i_size :: "words \<Rightarrow> u32 \<Rightarrow> u32" where "i_size m p = m (p + 8)"
definition i_magic :: "words \<Rightarrow> u32 \<Rightarrow> u32" where "i_magic m p = m (p + 12)"

definition set_iprev :: "u32 \<Rightarrow> u32 \<Rightarrow> words \<Rightarrow> words" where "set_iprev p v m = m(p := v)"
definition set_inext :: "u32 \<Rightarrow> u32 \<Rightarrow> words \<Rightarrow> words" where "set_inext p v m = m(p + 4 := v)"
definition set_isize :: "u32 \<Rightarrow> u32 \<Rightarrow> words \<Rightarrow> words" where "set_isize p v m = m(p + 8 := v)"
definition set_imagic :: "u32 \<Rightarrow> u32 \<Rightarrow> words \<Rightarrow> words" where "set_imagic p v m = m(p + 12 := v)"

lemmas item_defs = i_prev_def i_next_def i_size_def i_magic_def set_iprev_def set_inext_def set_isize_def set_imagic_def

partial_function (option) insert_seek :: "u32 \<Rightarrow> words \<Rightarrow> u32 \<Rightarrow> u32 option" where
  "insert_seek node m current =
     (if i_next m current \<noteq> 0 \<and> node > i_next m current then insert_seek node m (i_next m current) else Some current)"

declare insert_seek.simps [code]

definition pmalloc_item_insert :: "u32 \<Rightarrow> u32 \<Rightarrow> words \<Rightarrow> (u32 \<times> words) option" where
  "pmalloc_item_insert root node m =
     (if root = 0 then Some (node, set_inext node 0 (set_iprev node 0 m))
      else if node < root then Some (node, set_inext node root (set_iprev root node m))
      else do {
        current \<leftarrow> insert_seek node m root;
        let oldnext = i_next m current;
        Some (root,
          if oldnext = 0 then set_inext current node (set_iprev node current m)
          else set_iprev oldnext node (set_inext node oldnext (set_iprev node current (set_inext current node m))))
      })"

definition pmalloc_item_remove :: "u32 \<Rightarrow> u32 \<Rightarrow> words \<Rightarrow> u32 \<times> words" where
  "pmalloc_item_remove root node m =
     (let m = (if i_prev m node \<noteq> 0 then set_inext (i_prev m node) (i_next m node) m else m);
          m = (if i_next m node \<noteq> 0 then set_iprev (i_next m node) (i_prev m node) m else m);
          root = (if node = root then (if i_prev m node \<noteq> 0 then i_prev m node else i_next m node) else root)
      in (root, set_iprev node 0 (set_inext node 0 m)))"

section \<open>Operations\<close>

record pmalloc =
  pm_mem :: words
  available :: u32
  assigned :: u32
  freemem :: u32
  totalmem :: u32
  totalnodes :: u32

definition pmalloc_init :: "pmalloc \<Rightarrow> pmalloc" where
  "pmalloc_init s = s\<lparr>available := 0, assigned := 0, freemem := 0, totalmem := 0, totalnodes := 0\<rparr>"

definition align_up4 :: "u32 \<Rightarrow> u32" where
  "align_up4 n = (n + 4 - 1) AND NOT (4 - 1)"

definition insert_available :: "u32 \<Rightarrow> pmalloc \<Rightarrow> pmalloc option" where
  "insert_available p s = map_option (\<lambda>(r, m). s\<lparr>available := r, pm_mem := m\<rparr>) (pmalloc_item_insert (available s) p (pm_mem s))"

definition insert_assigned :: "u32 \<Rightarrow> pmalloc \<Rightarrow> pmalloc option" where
  "insert_assigned p s = map_option (\<lambda>(r, m). s\<lparr>assigned := r, pm_mem := m\<rparr>) (pmalloc_item_insert (assigned s) p (pm_mem s))"

definition remove_available :: "u32 \<Rightarrow> pmalloc \<Rightarrow> pmalloc" where
  "remove_available p s = (let (r, m) = pmalloc_item_remove (available s) p (pm_mem s) in s\<lparr>available := r, pm_mem := m\<rparr>)"

definition remove_assigned :: "u32 \<Rightarrow> pmalloc \<Rightarrow> pmalloc" where
  "remove_assigned p s = (let (r, m) = pmalloc_item_remove (assigned s) p (pm_mem s) in s\<lparr>assigned := r, pm_mem := m\<rparr>)"

definition pmalloc_addblock :: "u32 \<Rightarrow> u32 \<Rightarrow> pmalloc \<Rightarrow> pmalloc option" where
  "pmalloc_addblock ptr n s = do {
     let ptralignd = align_up4 ptr;
     let n = n - (ptralignd - ptr);
     let s = s\<lparr>pm_mem := set_isize ptralignd (n - item_size) (pm_mem s)\<rparr>;
     let s = s\<lparr>freemem := freemem s + (n - item_size)\<rparr>;
     let s = s\<lparr>totalmem := totalmem s + freemem s\<rparr>;
     s \<leftarrow> insert_available ptralignd s;
     Some (s\<lparr>totalnodes := totalnodes s + 1\<rparr>)
   }"

partial_function (option) merge_back :: "words \<Rightarrow> u32 \<Rightarrow> u32 option" where
  "merge_back m node =
     (if i_prev m node \<noteq> 0 \<and> node = i_prev m node + item_size + i_size m (i_prev m node) then merge_back m (i_prev m node)
      else Some node)"

declare merge_back.simps [code]

partial_function (option) merge_forward :: "u32 \<Rightarrow> pmalloc \<Rightarrow> pmalloc option" where
  "merge_forward node s =
     (let nx = i_next (pm_mem s) node
      in if nx = node + item_size + i_size (pm_mem s) node
         then (let nodesize = i_size (pm_mem s) nx + item_size;
                   s = s\<lparr>freemem := freemem s + item_size\<rparr>;
                   s = remove_available nx s;
                   s = s\<lparr>totalnodes := totalnodes s - 1\<rparr>
               in merge_forward node (s\<lparr>pm_mem := set_isize node (i_size (pm_mem s) node + nodesize) (pm_mem s)\<rparr>))
         else Some s)"

declare merge_forward.simps [code]

definition pmalloc_merge :: "u32 \<Rightarrow> pmalloc \<Rightarrow> pmalloc option" where
  "pmalloc_merge node s = do { node \<leftarrow> merge_back (pm_mem s) node; merge_forward node s }"

partial_function (option) first_fit :: "words \<Rightarrow> u32 \<Rightarrow> u32 \<Rightarrow> u32 option" where
  "first_fit m n current =
     (if current \<noteq> 0 \<and> i_size m current < n then first_fit m n (i_next m current) else Some current)"

declare first_fit.simps [code]

text \<open>The remainder of a block that is larger than asked for.\<close>

definition split_block :: "u32 \<Rightarrow> u32 \<Rightarrow> pmalloc \<Rightarrow> pmalloc option" where
  "split_block current n s = do {
     let newfree = current + item_size + n;
     let m = set_isize newfree (i_size (pm_mem s) current - item_size - n) (pm_mem s);
     let m = set_inext newfree (i_next m current) m;
     let m = set_inext current 0 m;
     let m = set_isize current n m;
     s \<leftarrow> insert_available newfree (s\<lparr>pm_mem := m\<rparr>);
     let s = s\<lparr>freemem := freemem s - item_size, totalnodes := totalnodes s + 1\<rparr>;
     pmalloc_merge newfree s
   }"

definition pmalloc_malloc :: "u32 \<Rightarrow> pmalloc \<Rightarrow> (u32 \<times> pmalloc) option" where
  "pmalloc_malloc n s = do {
     let n = align_up4 n;
     current \<leftarrow> first_fit (pm_mem s) n (available s);
     if current = 0 then Some (0, s)
     else do {
       let s = s\<lparr>pm_mem := set_imagic current 0xFEEDFACE (pm_mem s)\<rparr>;
       let s = remove_available current s;
       s \<leftarrow> insert_assigned current s;
       s \<leftarrow> (if i_size (pm_mem s) current \<noteq> n then split_block current n s else Some s);
       Some (current + item_size, s\<lparr>freemem := freemem s - i_size (pm_mem s) current\<rparr>)
     }
   }"

text \<open>A byte of a word, counted from the most significant one.\<close>

definition store8 :: "u32 \<Rightarrow> u8 \<Rightarrow> words \<Rightarrow> words" where
  "store8 a b m =
     (let w = a AND NOT 3; sh = 8 * (3 - unat (a AND 3))
      in m(w := (m w AND NOT (push_bit sh 0xFF)) OR push_bit sh (ucast b)))"

definition load8 :: "words \<Rightarrow> u32 \<Rightarrow> u8" where
  "load8 m a = ucast (drop_bit (8 * (3 - unat (a AND 3))) (m (a AND NOT 3)))"

definition pmalloc_calloc :: "u32 \<Rightarrow> u32 \<Rightarrow> pmalloc \<Rightarrow> (u32 \<times> pmalloc) option" where
  "pmalloc_calloc num n s = do {
     (p, s) \<leftarrow> pmalloc_malloc (num * n) s;
     if p = 0 then Some (0, s)
     else Some (p, s\<lparr>pm_mem := foldl (\<lambda>m i. store8 (p + of_nat i) 0 m) (pm_mem s) [0..<unat (num * n)]\<rparr>)
   }"

definition pmalloc_free :: "u32 \<Rightarrow> pmalloc \<Rightarrow> pmalloc option" where
  "pmalloc_free ptr s =
     (if ptr = 0 then Some s
      else do {
        let node = ptr - item_size;
        let s = remove_assigned node s;
        let s = s\<lparr>freemem := freemem s + i_size (pm_mem s) node\<rparr>;
        s \<leftarrow> insert_available node s;
        pmalloc_merge node s
      })"

definition shrink_block :: "u32 \<Rightarrow> u32 \<Rightarrow> pmalloc \<Rightarrow> pmalloc option" where
  "shrink_block node n s = do {
     let sz = i_size (pm_mem s) node;
     let newfree = node + item_size + n;
     s \<leftarrow> insert_available newfree (s\<lparr>pm_mem := set_isize newfree ((sz - n) - item_size) (pm_mem s)\<rparr>);
     let s = s\<lparr>freemem := freemem s + ((sz - n) - item_size), totalnodes := totalnodes s + 1,
       pm_mem := set_isize node n (pm_mem s)\<rparr>;
     pmalloc_merge newfree s
   }"

definition expand_block :: "u32 \<Rightarrow> u32 \<Rightarrow> pmalloc \<Rightarrow> pmalloc option" where
  "expand_block node n s = do {
     let sz = i_size (pm_mem s) node;
     let fb = node + item_size + sz;
     let fbsize = i_size (pm_mem s) fb;
     let s = remove_available fb s;
     let fb = node + item_size + n;
     s \<leftarrow> insert_available fb (s\<lparr>pm_mem := set_isize fb (fbsize - (n - sz)) (pm_mem s)\<rparr>);
     let s = s\<lparr>freemem := freemem s - (n - sz), pm_mem := set_isize node n (pm_mem s)\<rparr>;
     pmalloc_merge fb s
   }"

definition pmalloc_realloc :: "u32 \<Rightarrow> u32 \<Rightarrow> pmalloc \<Rightarrow> (u32 \<times> pmalloc) option" where
  "pmalloc_realloc ptr n s = do {
     let n = align_up4 n;
     if ptr = 0 then pmalloc_malloc n s
     else do {
       let node = ptr - item_size;
       let sz = i_size (pm_mem s) node;
       if sz = n then Some (ptr, s)
       else if n < sz
       then (if sz - n < item_size * 2 then Some (ptr, s) else map_option (Pair ptr) (shrink_block node n s))
       else if n - sz > freemem s then Some (0, s)
       else if i_next (pm_mem s) node = 0 \<or> i_next (pm_mem s) node > node + item_size + n
       then map_option (Pair ptr) (expand_block node n s)
       else do {
         (p, s) \<leftarrow> pmalloc_malloc n s;
         if p = 0 then Some (0, s)
         else do {
           let k = unat (i_size (pm_mem s) node);
           let s = s\<lparr>pm_mem := foldl (\<lambda>m i. store8 (p + of_nat i) (load8 m (ptr + of_nat i)) m) (pm_mem s) [0..<k]\<rparr>;
           map_option (Pair p) (pmalloc_free ptr s)
         }
       }
     }
   }"

definition pmalloc_sizeof :: "pmalloc \<Rightarrow> u32 \<Rightarrow> u32" where
  "pmalloc_sizeof s ptr = i_size (pm_mem s) (ptr - item_size)"

definition pmalloc_usedmem :: "pmalloc \<Rightarrow> u32" where "pmalloc_usedmem s = totalmem s - freemem s"
definition pmalloc_overheadmem :: "pmalloc \<Rightarrow> u32" where "pmalloc_overheadmem s = totalnodes s * item_size"

text \<open>Blocks with an alignment; the padding in front is filled, up to the magic word of the header.\<close>

definition align_up :: "u32 \<Rightarrow> u32 \<Rightarrow> u32" where
  "align_up align mem = (mem + align - 1) AND NOT (align - 1)"

definition fill_padding :: "u32 \<Rightarrow> u32 \<Rightarrow> words \<Rightarrow> words" where
  "fill_padding mem offset m = foldl (\<lambda>m i. m(mem + 4 * of_nat i := 0xDEADBEEF)) m [0..<unat (drop_bit 2 offset)]"

definition pmalloc_memalign :: "u32 \<Rightarrow> u32 \<Rightarrow> pmalloc \<Rightarrow> (u32 \<times> pmalloc) option" where
  "pmalloc_memalign n align s = do {
     (mem, s) \<leftarrow> pmalloc_malloc (n + align) s;
     if mem = 0 then Some (0, s)
     else Some (align_up align mem, s\<lparr>pm_mem := fill_padding mem (align_up align mem - mem) (pm_mem s)\<rparr>)
   }"

partial_function (option) find_magic :: "words \<Rightarrow> u32 \<Rightarrow> u32 option" where
  "find_magic m p = (if m (p - 4) \<noteq> 0xFEEDFACE then find_magic m (p - 4) else Some p)"

declare find_magic.simps [code]

definition pmalloc_freealign :: "u32 \<Rightarrow> pmalloc \<Rightarrow> pmalloc option" where
  "pmalloc_freealign ptr s = do { mem \<leftarrow> find_magic (pm_mem s) ptr; pmalloc_free mem s }"

end
