(* ===== verification/PmallocProps.thy ===== *)
theory PmallocProps
  imports Pmalloc
begin

text \<open>
  What the heap of the menu guarantees. A list in memory is described by the list of its block
  addresses; inserting a block into a sorted list and removing one refine insertion into and
  removal from that list, and leave every word that is not a link of a block of the list alone.
  From this follow the results of an allocation that fits exactly and of a release, and the
  release of an aligned block. The last property is a run in which the allocator hands out memory
  that is in use.
\<close>

section \<open>Lists in memory\<close>

text \<open>The blocks of a list, between the block before the first one and the block after the last one.\<close>

fun first_or :: "u32 list \<Rightarrow> u32 \<Rightarrow> u32" where
  "first_or [] q = q"
| "first_or (x # _) q = x"

fun last_or :: "u32 list \<Rightarrow> u32 \<Rightarrow> u32" where
  "last_or [] p = p"
| "last_or (x # xs) p = last_or xs x"

fun dlist :: "words \<Rightarrow> u32 \<Rightarrow> u32 list \<Rightarrow> u32 \<Rightarrow> bool" where
  "dlist m p [] q = True"
| "dlist m p (x # xs) q = (x \<noteq> 0 \<and> i_prev m x = p \<and> i_next m x = first_or xs q \<and> dlist m x xs q)"

text \<open>The links of different blocks are different cells.\<close>

definition links_apart :: "u32 set \<Rightarrow> bool" where
  "links_apart S = (\<forall>x\<in>S. \<forall>y\<in>S. x \<noteq> y + 4)"

definition links :: "u32 set \<Rightarrow> u32 set" where
  "links S = S \<union> (\<lambda>x. x + 4) ` S"

lemma first_or_append [simp]: "first_or (xs @ ys) q = first_or xs (first_or ys q)"
  by (cases xs) auto

lemma last_or_append [simp]: "last_or (xs @ ys) p = last_or ys (last_or xs p)"
  by (induction xs arbitrary: p) auto

lemma dlist_append [simp]:
  "dlist m p (xs @ ys) q = (dlist m p xs (first_or ys q) \<and> dlist m (last_or xs p) ys q)"
  by (induction xs arbitrary: p) auto

lemma dlist_cong:
  assumes "\<And>x. x \<in> set xs \<Longrightarrow> i_prev m' x = i_prev m x \<and> i_next m' x = i_next m x"
  shows "dlist m' p xs q = dlist m p xs q"
  using assms by (induction xs arbitrary: p) auto

lemma dlist_nonzero: "dlist m p xs q \<Longrightarrow> 0 \<notin> set xs"
  by (induction xs arbitrary: p) auto

lemma insert_seek_dlist:
  assumes "dlist m p (r # xs) 0" "sorted (r # xs)" "r < node" "node \<notin> set xs"
  shows "\<exists>ys c zs. r # xs = ys @ c # zs \<and> insert_seek node m r = Some c
           \<and> (\<forall>y\<in>set (ys @ [c]). y < node) \<and> (\<forall>z\<in>set zs. node < z)"
  using assms
proof (induction xs arbitrary: p r)
  case Nil
  then show ?case by (intro exI [of _ "[]"] exI [of _ r]) (simp add: insert_seek.simps [of node m r])
next
  case (Cons x xs)
  have x: "x \<noteq> 0" "i_next m r = x" using Cons.prems by auto
  show ?case
  proof (cases "x < node")
    case True
    have step: "insert_seek node m r = insert_seek node m x"
      by (subst insert_seek.simps) (use x True in simp)
    have "dlist m r (x # xs) 0" "sorted (x # xs)" "node \<notin> set xs" using Cons.prems by auto
    from Cons.IH [OF this(1,2) True this(3)] obtain ys c zs
      where h: "x # xs = ys @ c # zs" "insert_seek node m x = Some c"
        "\<forall>y\<in>set (ys @ [c]). y < node" "\<forall>z\<in>set zs. node < z" by blast
    then have "r # x # xs = (r # ys) @ c # zs" "\<forall>y\<in>set ((r # ys) @ [c]). y < node"
      using Cons.prems(3) h by simp_all
    moreover have "insert_seek node m r = Some c" using step h(2) by simp
    ultimately show ?thesis using h(4) by metis
  next
    case False
    then have nx: "node < x" using Cons.prems by auto
    moreover from this have "\<forall>z\<in>set xs. node < z" using Cons.prems by auto
    moreover have "insert_seek node m r = Some r"
      by (subst insert_seek.simps) (use x False in simp)
    ultimately show ?thesis using Cons.prems
      by (intro exI [of _ "[]"] exI [of _ r] exI [of _ "x # xs"]) auto
  qed
qed

lemma insort_between:
  "(\<forall>y\<in>set ys. y < x) \<Longrightarrow> (\<forall>z\<in>set zs. x < z) \<Longrightarrow> insort x (ys @ zs) = ys @ x # (zs :: u32 list)"
proof (induction ys)
  case Nil
  then show ?case by (cases zs) (auto intro: less_imp_le)
next
  case (Cons y ys)
  then show ?case by (auto simp: not_le)
qed

lemma links_apartD: "links_apart S \<Longrightarrow> x \<in> S \<Longrightarrow> y \<in> S \<Longrightarrow> x \<noteq> y + 4 \<and> y + 4 \<noteq> x"
  unfolding links_apart_def by metis

lemma word_plus4_neq [simp]: "(x :: u32) \<noteq> x + 4" "x + 4 \<noteq> x"
  by simp_all

text \<open>Writing the links of one block leaves the links of the others.\<close>

lemma link_upd:
  "i_prev (set_iprev p v m) y = (if y = p then v else i_prev m y)"
  "i_next (set_inext p v m) y = (if y = p then v else i_next m y)"
  "y \<noteq> p + 4 \<Longrightarrow> i_prev (set_inext p v m) y = i_prev m y"
  "y + 4 \<noteq> p \<Longrightarrow> i_next (set_iprev p v m) y = i_next m y"
  by (simp_all add: item_defs)

lemma item_insert_links:
  assumes l: "dlist m 0 xs 0" and s: "sorted_wrt (<) xs" and n: "node \<notin> set xs" "node \<noteq> 0"
    and a: "links_apart (insert node (set xs))" and z: "i_prev m node = 0" "i_next m node = 0"
  shows "\<exists>m'. pmalloc_item_insert (first_or xs 0) node m = Some (first_or (insort node xs) 0, m')
           \<and> dlist m' 0 (insort node xs) 0
           \<and> (\<forall>x. x \<notin> links (insert node (set xs)) \<longrightarrow> m' x = m x)"
proof (cases xs)
  case Nil
  then show ?thesis using n by (auto simp: pmalloc_item_insert_def item_defs links_def)
next
  case (Cons r rs)
  have ne: "x \<noteq> y + 4" "y + 4 \<noteq> x" if "x \<in> insert node (set xs)" "y \<in> insert node (set xs)" for x y
    using links_apartD [OF a that] by auto
  have r0: "r \<noteq> 0" using l Cons by simp
  have dist: "distinct xs" and srt: "sorted xs" using s strict_sorted_iff by auto
  show ?thesis
  proof (cases "node < r")
    case True
    then have i: "insort node xs = node # xs" using Cons by (simp add: less_imp_le)
    define m' where "m' = set_inext node r (set_iprev r node m)"
    have "i_prev m' y = i_prev m y \<and> i_next m' y = i_next m y" if "y \<in> set rs" for y
      using that dist n ne [of y node] ne [of y r] ne [of r y] ne [of node y] Cons
      by (auto simp: m'_def item_defs)
    then have "dlist m' r rs 0 = dlist m r rs 0" by (rule dlist_cong)
    moreover have "i_prev m' node = 0" "i_next m' node = r" "i_prev m' r = node" "i_next m' r = i_next m r"
      using n z Cons ne [of r node] ne [of node r] by (auto simp: m'_def item_defs)
    ultimately have "dlist m' 0 (node # xs) 0" using l n Cons by simp
    moreover have "pmalloc_item_insert (first_or xs 0) node m = Some (node, m')"
      using True r0 Cons by (simp add: pmalloc_item_insert_def m'_def)
    moreover have "\<forall>x. x \<notin> links (insert node (set xs)) \<longrightarrow> m' x = m x"
      using Cons by (auto simp: m'_def item_defs links_def)
    ultimately show ?thesis unfolding i by auto
  next
    case False
    then have rn: "r < node" using n Cons by auto
    from insert_seek_dlist [of m 0 r rs node] l srt n rn Cons obtain ys c zs
      where h: "xs = ys @ c # zs" "insert_seek node m r = Some c"
        "\<forall>y\<in>set (ys @ [c]). y < node" "\<forall>z\<in>set zs. node < z" by auto
    have i: "insort node xs = ys @ c # node # zs"
      using insort_between [of "ys @ [c]" node zs] h by simp
    have f: "first_or (insort node xs) 0 = r" using i h(1) Cons by (cases ys) auto
    define q where "q = first_or zs 0"
    define m' where "m' = (if q = 0 then set_inext c node (set_iprev node c m)
       else set_iprev q node (set_inext node q (set_iprev node c (set_inext c node m))))"
    have q: "i_next m c = q" "q = 0 \<and> zs = [] \<or> q \<noteq> 0 \<and> (\<exists>ws. zs = q # ws)"
      using l h(1) by (cases zs; auto simp: q_def)+
    have run: "pmalloc_item_insert (first_or xs 0) node m = Some (r, m')"
      using False r0 Cons h(2) q(1) by (simp add: pmalloc_item_insert_def m'_def Let_def)
    have fr: "\<forall>x. x \<notin> links (insert node (set xs)) \<longrightarrow> m' x = m x"
      using q(2) h(1) by (auto simp: m'_def item_defs links_def)
    have keep: "i_prev m' y = i_prev m y \<and> i_next m' y = i_next m y" if "y \<in> set ys \<or> y \<in> set (tl zs)" for y
    proof -
      have y: "y \<in> set xs" "y \<noteq> node" "y \<noteq> c" using that dist n h(1) by (cases zs; auto)+
      have c: "c \<in> set xs" using h(1) by simp
      show ?thesis
      proof (cases zs)
        case Nil
        then show ?thesis using y c ne q(2) by (simp add: m'_def link_upd)
      next
        case (Cons q' ws)
        then have "q' = q" "q \<noteq> 0" "q \<in> set xs" "y \<noteq> q" using q(2) that dist h(1) by auto
        then show ?thesis using y c ne by (simp add: m'_def link_upd)
      qed
    qed
    have "dlist m' 0 ys c = dlist m 0 ys c" using keep by (intro dlist_cong) auto
    moreover have "dlist m' q (tl zs) 0 = dlist m q (tl zs) 0" using keep by (intro dlist_cong) auto
    moreover have "i_prev m' c = i_prev m c \<and> i_next m' c = node \<and> i_prev m' node = c \<and> i_next m' node = q
      \<and> (q \<noteq> 0 \<longrightarrow> i_prev m' q = node \<and> i_next m' q = i_next m q)"
    proof -
      have c: "c \<in> set xs" "c \<noteq> node" using h(1) n by auto
      have "q = 0 \<or> q \<noteq> 0 \<and> q \<in> set xs \<and> q \<noteq> node \<and> q \<noteq> c" using q(2) h(1) n dist by auto
      then show ?thesis
      proof
        assume "q = 0"
        then show ?thesis using c ne z by (simp add: m'_def link_upd)
      next
        assume "q \<noteq> 0 \<and> q \<in> set xs \<and> q \<noteq> node \<and> q \<noteq> c"
        then show ?thesis using c ne by (auto simp: m'_def link_upd)
      qed
    qed
    ultimately have "dlist m' 0 (ys @ c # node # zs) 0" using l h(1) q n by (cases zs) auto
    then show ?thesis using run fr f i by auto
  qed
qed

lemma item_remove_links:
  assumes l: "dlist m 0 (ys @ node # zs) 0" and d: "distinct (ys @ node # zs)"
    and a: "links_apart (set (ys @ node # zs))"
  shows "\<exists>m'. pmalloc_item_remove (first_or (ys @ node # zs) 0) node m = (first_or (ys @ zs) 0, m')
    \<and> dlist m' 0 (ys @ zs) 0 \<and> i_prev m' node = 0 \<and> i_next m' node = 0
    \<and> (\<forall>x. x \<notin> links (set (ys @ node # zs)) \<longrightarrow> m' x = m x)"
proof -
  define p q where "p = last_or ys 0" and "q = first_or zs 0"
  let ?S = "set (ys @ node # zs)"
  have ne: "x \<noteq> y + 4" "y + 4 \<noteq> x" if "x \<in> ?S" "y \<in> ?S" for x y
    using links_apartD [OF a that] by auto
  have nd: "node \<in> ?S" "node \<noteq> 0" "i_prev m node = p" "i_next m node = q"
    using l by (auto simp: p_def q_def)
  have p: "p = 0 \<and> ys = [] \<or> p \<noteq> 0 \<and> p \<in> ?S \<and> p \<noteq> node \<and> p \<notin> set zs \<and> (\<exists>us. ys = us @ [p])"
    using l d by (cases ys rule: rev_cases) (auto simp: p_def)
  have q: "q = 0 \<and> zs = [] \<or> q \<noteq> 0 \<and> q \<in> ?S \<and> q \<noteq> node \<and> q \<notin> set ys \<and> (\<exists>ws. zs = q # ws)"
    using l d by (cases zs) (auto simp: q_def)
  have pq: "p \<noteq> 0 \<Longrightarrow> q \<noteq> 0 \<Longrightarrow> p \<noteq> q" using p q by auto
  define m1 where "m1 = (if p \<noteq> 0 then set_inext p q m else m)"
  define m2 where "m2 = (if q \<noteq> 0 then set_iprev q p m1 else m1)"
  define m' where "m' = set_iprev node 0 (set_inext node 0 m2)"
  have n1: "i_prev m1 node = p \<and> i_next m1 node = q" using p nd ne by (auto simp: m1_def link_upd)
  have n2: "i_prev m2 node = p \<and> i_next m2 node = q" using q n1 nd ne by (auto simp: m2_def link_upd)
  have root: "(if node = first_or (ys @ node # zs) 0 then if p \<noteq> 0 then p else q else first_or (ys @ node # zs) 0)
      = first_or (ys @ zs) 0"
    using p d by (cases ys) (auto simp: p_def q_def)
  have run: "pmalloc_item_remove (first_or (ys @ node # zs) 0) node m = (first_or (ys @ zs) 0, m')"
    unfolding pmalloc_item_remove_def Let_def nd(3,4) m1_def [symmetric] n1 [THEN conjunct1] n1 [THEN conjunct2]
      m2_def [symmetric] n2 [THEN conjunct1] n2 [THEN conjunct2] root m'_def by simp
  have fr: "\<forall>x. x \<notin> links ?S \<longrightarrow> m' x = m x"
    using p q nd(1) by (auto simp: m'_def m1_def m2_def item_defs links_def)
  have clr: "i_prev m' node = 0 \<and> i_next m' node = 0"
    using nd ne by (auto simp: m'_def link_upd)
  have other: "i_prev m' y = (if y = q then p else i_prev m y) \<and> i_next m' y = (if y = p then q else i_next m y)"
    if "y \<in> ?S" "y \<noteq> node" for y
  proof -
    have "y \<noteq> 0" using dlist_nonzero [OF l] that by auto
    then show ?thesis using that nd ne p q by (auto simp: m'_def m1_def m2_def link_upd)
  qed
  have ws: "y \<in> ?S \<and> y \<noteq> node \<and> y \<noteq> q \<and> y \<noteq> p" if "y \<in> set (tl zs)" for y
    using that p q d dlist_nonzero [OF l] by (cases zs) auto
  have rear: "dlist m' q (tl zs) 0 = dlist m q (tl zs) 0"
  proof (rule dlist_cong)
    fix y assume "y \<in> set (tl zs)"
    with ws have "y \<in> ?S" "y \<noteq> node" "y \<noteq> q" "y \<noteq> p" by blast+
    then show "i_prev m' y = i_prev m y \<and> i_next m' y = i_next m y" using other by simp
  qed
  have fore: "dlist m' 0 ys q"
  proof (cases ys rule: rev_cases)
    case (snoc us p')
    then have e: "ys = us @ [p]" "p \<noteq> 0" using p by auto
    then have u: "q \<notin> set us" "p \<notin> set us" "p \<noteq> q" "p \<noteq> node" "p \<in> ?S" "0 \<notin> set us"
      using p q d pq dlist_nonzero [OF l] by auto
    have "dlist m' 0 us p = dlist m 0 us p"
    proof (rule dlist_cong)
      fix y assume "y \<in> set us"
      then have "y \<in> ?S" "y \<noteq> node" "y \<noteq> q" "y \<noteq> p" using u(1,2) d e(1) by auto
      then show "i_prev m' y = i_prev m y \<and> i_next m' y = i_next m y" using other by simp
    qed
    then show ?thesis using l other [of p] u by (simp add: e)
  qed simp
  have "dlist m' 0 (ys @ zs) 0"
  proof (cases zs)
    case Nil
    then show ?thesis using fore q by simp
  next
    case (Cons q' ws)
    then have e: "zs = q # ws" "q \<noteq> 0" using q by auto
    then have "p \<noteq> q" "q \<noteq> node" using p q by auto
    then show ?thesis using fore rear l other [of q] by (simp add: e p_def [symmetric])
  qed
  then show ?thesis using run clr fr by blast
qed

section \<open>The lists of the heap\<close>

lemma first_fit_finds:
  "dlist m p xs 0 \<Longrightarrow> first_fit m n (first_or xs 0) = Some (case find (\<lambda>x. n \<le> i_size m x) xs of None \<Rightarrow> 0 | Some x \<Rightarrow> x)"
proof (induction xs arbitrary: p)
  case Nil
  then show ?case by (simp add: first_fit.simps [of m n 0])
next
  case (Cons x xs)
  then show ?case by (auto simp: first_fit.simps [of m n x] not_le)
qed

definition headers_apart :: "u32 set \<Rightarrow> bool" where
  "headers_apart S = (\<forall>x\<in>S. \<forall>y\<in>S. x \<noteq> y + 4 \<and> x \<noteq> y + 8 \<and> x \<noteq> y + 12)"

definition heap_lists :: "pmalloc \<Rightarrow> u32 list \<Rightarrow> u32 list \<Rightarrow> bool" where
  "heap_lists s xs ys =
     (available s = first_or xs 0 \<and> assigned s = first_or ys 0
      \<and> dlist (pm_mem s) 0 xs 0 \<and> dlist (pm_mem s) 0 ys 0
      \<and> sorted_wrt (<) xs \<and> sorted_wrt (<) ys)"

lemma headers_links: "headers_apart S \<Longrightarrow> T \<subseteq> S \<Longrightarrow> links_apart T"
  unfolding headers_apart_def links_apart_def by blast

lemma headersD:
  assumes "headers_apart S" "x \<in> S" "y \<in> S"
  shows "x \<noteq> y + 4" "x \<noteq> y + 8" "x \<noteq> y + 12" "x + 4 \<noteq> y" "x + 8 \<noteq> y" "x + 12 \<noteq> y"
    "x + 4 \<noteq> y + 8" "x + 8 \<noteq> y + 4" "x + 4 \<noteq> y + 12" "x + 12 \<noteq> y + 4"
proof -
  have *: "x \<noteq> y + 4" "x \<noteq> y + 8" "x \<noteq> y + 12" "y \<noteq> x + 4" "y \<noteq> x + 8" "y \<noteq> x + 12"
    using assms unfolding headers_apart_def by blast+
  have **: "a + 4 = b + 8 \<longleftrightarrow> a = b + 4" "a + 4 = b + 12 \<longleftrightarrow> a = b + 8" for a b :: u32
    using add_right_cancel [of a 4 "b + 4"] add_right_cancel [of a 4 "b + 8"] by (simp_all add: ac_simps)
  show "x \<noteq> y + 4" "x \<noteq> y + 8" "x \<noteq> y + 12" "x + 4 \<noteq> y" "x + 8 \<noteq> y" "x + 12 \<noteq> y"
    "x + 4 \<noteq> y + 8" "x + 8 \<noteq> y + 4" "x + 4 \<noteq> y + 12" "x + 12 \<noteq> y + 4"
    using * ** by metis+
qed

text \<open>What is outside the links of some blocks: the links of the others, and every size and magic word.\<close>

lemma outside_links:
  assumes h: "headers_apart S" "T \<subseteq> S" "x \<in> S" and f: "\<forall>a. a \<notin> links T \<longrightarrow> m' a = m a"
  shows "i_size m' x = i_size m x" "i_magic m' x = i_magic m x"
    "x \<notin> T \<Longrightarrow> i_prev m' x = i_prev m x" "x \<notin> T \<Longrightarrow> i_next m' x = i_next m x"
proof -
  note hd = headersD [OF h(1,3)]
  have T: "y \<in> S" if "y \<in> T" for y using that h(2) by blast
  have "x + 8 \<notin> links T" "x + 12 \<notin> links T" using hd T unfolding links_def by blast+
  moreover have t4: "x + 4 \<notin> T" "\<forall>y\<in>T. x \<noteq> y + 4" using hd(1,4) T by blast+
  then have "x \<notin> T \<Longrightarrow> x \<notin> links T" "x \<notin> T \<Longrightarrow> x + 4 \<notin> links T" by (auto simp: links_def)
  ultimately show "i_size m' x = i_size m x" "i_magic m' x = i_magic m x"
    "x \<notin> T \<Longrightarrow> i_prev m' x = i_prev m x" "x \<notin> T \<Longrightarrow> i_next m' x = i_next m x"
    using f by (simp_all add: item_defs)
qed

lemma dlist_outside:
  assumes "headers_apart S" "T \<subseteq> S" "set xs \<subseteq> S" "set xs \<inter> T = {}" "\<forall>a. a \<notin> links T \<longrightarrow> m' a = m a"
  shows "dlist m' p xs q = dlist m p xs q"
proof (rule dlist_cong)
  fix x assume "x \<in> set xs"
  then have "x \<in> S" "x \<notin> T" using assms(3,4) by auto
  then show "i_prev m' x = i_prev m x \<and> i_next m' x = i_next m x"
    using outside_links(3,4) [OF assms(1,2) _ assms(5)] by blast
qed

lemma sorted_wrt_insort: "sorted_wrt (<) xs \<Longrightarrow> x \<notin> set xs \<Longrightarrow> sorted_wrt (<) (insort x (xs :: u32 list))"
  by (simp add: strict_sorted_iff sorted_insort distinct_insort)

lemma sorted_wrt_remove1: "sorted_wrt (<) xs \<Longrightarrow> sorted_wrt (<) (remove1 x (xs :: u32 list))"
  by (simp add: strict_sorted_iff sorted_remove1)

text \<open>Moving a block between the lists.\<close>

lemma remove_available_lists:
  assumes h: "heap_lists s xs ys" "headers_apart (set xs \<union> set ys)" "set xs \<inter> set ys = {}" and x: "x \<in> set xs"
  shows "\<exists>m'. remove_available x s = s\<lparr>available := first_or (remove1 x xs) 0, pm_mem := m'\<rparr>
      \<and> heap_lists (remove_available x s) (remove1 x xs) ys
      \<and> i_prev m' x = 0 \<and> i_next m' x = 0 \<and> (\<forall>a. a \<notin> links (set xs) \<longrightarrow> m' a = pm_mem s a)"
proof -
  obtain us vs where e: "xs = us @ x # vs" using x by (meson split_list)
  have d: "distinct xs" using h(1) by (auto simp: heap_lists_def strict_sorted_iff)
  then have rm: "remove1 x xs = us @ vs" by (simp add: e remove1_append)
  obtain m' where m': "pmalloc_item_remove (available s) x (pm_mem s) = (first_or (us @ vs) 0, m')"
      "dlist m' 0 (us @ vs) 0" "i_prev m' x = 0" "i_next m' x = 0"
      "\<forall>a. a \<notin> links (set xs) \<longrightarrow> m' a = pm_mem s a"
    using item_remove_links [of "pm_mem s" us x vs] h(1) d headers_links [OF h(2), of "set xs"]
    unfolding e [symmetric] heap_lists_def by auto
  have r: "remove_available x s = s\<lparr>available := first_or (remove1 x xs) 0, pm_mem := m'\<rparr>"
    by (simp add: remove_available_def m'(1) rm)
  have "dlist m' 0 ys 0" using dlist_outside [OF h(2) _ _ _ m'(5), of ys] h(1,3) by (auto simp: heap_lists_def)
  then have "heap_lists (remove_available x s) (remove1 x xs) ys"
    using h(1) m'(2) sorted_wrt_remove1 [of xs x] by (simp add: heap_lists_def r rm)
  then show ?thesis using r m' by blast
qed

lemma insert_assigned_lists:
  assumes h: "heap_lists s xs ys" "headers_apart (insert x (set xs \<union> set ys))" "set xs \<inter> set ys = {}"
    and x: "x \<notin> set xs" "x \<notin> set ys" "x \<noteq> 0" "i_prev (pm_mem s) x = 0" "i_next (pm_mem s) x = 0"
  shows "\<exists>s'. insert_assigned x s = Some s' \<and> (\<exists>m'. s' = s\<lparr>assigned := first_or (insort x ys) 0, pm_mem := m'\<rparr>)
      \<and> heap_lists s' xs (insort x ys) \<and> (\<forall>a. a \<notin> links (insert x (set ys)) \<longrightarrow> pm_mem s' a = pm_mem s a)"
proof -
  obtain m' where m': "pmalloc_item_insert (assigned s) x (pm_mem s) = Some (first_or (insort x ys) 0, m')"
      "dlist m' 0 (insort x ys) 0" "\<forall>a. a \<notin> links (insert x (set ys)) \<longrightarrow> m' a = pm_mem s a"
    using item_insert_links [of "pm_mem s" ys x] h(1) headers_links [OF h(2), of "insert x (set ys)"] x
    unfolding heap_lists_def by auto
  have "dlist m' 0 xs 0" using dlist_outside [OF h(2) _ _ _ m'(3), of xs] h(1,3) x by (auto simp: heap_lists_def)
  then have "heap_lists (s\<lparr>assigned := first_or (insort x ys) 0, pm_mem := m'\<rparr>) xs (insort x ys)"
    using h(1) m'(2) sorted_wrt_insort [of ys x] x by (simp add: heap_lists_def)
  then show ?thesis using m' by (auto simp: insert_assigned_def)
qed

definition swap_lists :: "pmalloc \<Rightarrow> pmalloc" where
  "swap_lists s = s\<lparr>available := assigned s, assigned := available s\<rparr>"

lemma swap_lists_simps [simp]:
  "heap_lists (swap_lists s) xs ys = heap_lists s ys xs" "pm_mem (swap_lists s) = pm_mem s"
  "swap_lists (swap_lists s) = s" "freemem (swap_lists s) = freemem s" "totalnodes (swap_lists s) = totalnodes s"
  by (auto simp: swap_lists_def heap_lists_def)

lemma swap_remove: "remove_assigned x s = swap_lists (remove_available x (swap_lists s))"
  by (simp add: remove_assigned_def remove_available_def swap_lists_def split: prod.splits)

lemma swap_insert: "insert_available x s = map_option swap_lists (insert_assigned x (swap_lists s))"
  by (cases "pmalloc_item_insert (available s) x (pm_mem s)")
     (auto simp: insert_assigned_def insert_available_def swap_lists_def split: prod.splits)

lemma dlist_neighbours:
  assumes "dlist m 0 xs 0" "x \<in> set xs"
  shows "i_prev m x \<in> insert 0 (set xs)" "i_next m x \<in> insert 0 (set xs)"
proof -
  from assms(2) obtain us vs where e: "xs = us @ x # vs" by (meson split_list)
  have "last_or us 0 \<in> insert 0 (set us)" by (cases us rule: rev_cases) auto
  moreover have "first_or vs 0 \<in> insert 0 (set vs)" by (cases vs) auto
  ultimately show "i_prev m x \<in> insert 0 (set xs)" "i_next m x \<in> insert 0 (set xs)" using assms(1) e by auto
qed

lemma set_imagic_links:
  assumes "headers_apart S" "x \<in> S" "y \<in> S"
  shows "i_prev (set_imagic x v m) y = i_prev m y" "i_next (set_imagic x v m) y = i_next m y"
    "i_size (set_imagic x v m) y = i_size m y"
  using headersD [OF assms(1,2,3)] headersD [OF assms(1,3,2)] by (auto simp: item_defs)

lemma set_imagic_lists:
  assumes "heap_lists s xs ys" "headers_apart (set xs \<union> set ys)" "x \<in> set xs"
  shows "heap_lists (s\<lparr>pm_mem := set_imagic x v (pm_mem s)\<rparr>) xs ys"
proof -
  have "dlist (set_imagic x v m) 0 xs 0 = dlist m 0 xs 0" "dlist (set_imagic x v m) 0 ys 0 = dlist m 0 ys 0" for m
    by (rule dlist_cong; use set_imagic_links [OF assms(2)] assms(3) in simp)+
  then show ?thesis using assms(1) by (simp add: heap_lists_def)
qed



section \<open>Aligned blocks\<close>

lemma fill_padding_at:
  assumes "K \<le> 2 ^ 30"
  shows "foldl (\<lambda>m i. m(mem + 4 * of_nat i := 0xDEADBEEF)) m [0..<K] a
    = (if \<exists>i<K. a = mem + 4 * of_nat i then 0xDEADBEEF else m a)"
  using assms by (induction K) (auto simp: less_Suc_eq)

lemma word_quads_inj:
  assumes "(mem :: u32) + 4 * of_nat i = mem + 4 * of_nat j" "i < 2 ^ 30" "j < 2 ^ 30"
  shows "i = j"
proof -
  have "(4 :: u32) * of_nat i = 4 * of_nat j" using assms(1) by simp
  then have "of_nat (4 * i) = (of_nat (4 * j) :: u32)" by simp
  moreover have "4 * i < 2 ^ 32" "4 * j < 2 ^ 32" using assms(2,3) by simp_all
  ultimately have "4 * i = 4 * j" using of_nat_inverse [of "4 * i" "of_nat (4 * j) :: u32"] of_nat_inverse [of "4 * j" "of_nat (4 * j) :: u32"] by simp
  then show ?thesis by simp
qed

lemma find_magic_padding:
  assumes m: "m (mem - 4) = 0xFEEDFACE" and K: "K < 2 ^ 30 - 1" and j: "j \<le> K"
    and f: "\<forall>i<K. m (mem + 4 * of_nat i) = 0xDEADBEEF"
  shows "find_magic m (mem + 4 * of_nat j) = Some mem"
  using j
proof (induction j)
  case 0
  then show ?case using m by (simp add: find_magic.simps [of m mem])
next
  case (Suc j)
  have e: "mem + 4 * of_nat (Suc j) - 4 = mem + 4 * of_nat j" by (simp add: algebra_simps)
  have "m (mem + 4 * of_nat j) = 0xDEADBEEF" using f Suc.prems by auto
  then show ?case using Suc by (subst find_magic.simps) (simp add: e del: of_nat_Suc)
qed

lemma align_up_nat:
  assumes k: "k < 32" and fit: "unat mem + 2 ^ k \<le> 2 ^ 32"
  shows "unat (align_up (2 ^ k) mem) = (unat mem + 2 ^ k - 1) - (unat mem + 2 ^ k - 1) mod 2 ^ k"
proof -
  let ?x = "mem + 2 ^ k - 1"
  have "(1 :: nat) \<le> unat mem + 2 ^ k" by (simp add: trans_le_add2)
  then have "of_nat (unat mem + 2 ^ k - 1) = ?x" by (subst of_nat_diff) simp_all
  moreover have "unat mem + 2 ^ k - 1 < 2 ^ LENGTH(32)" using fit by (simp add: less_eq_Suc_le)
  ultimately have x: "unat ?x = unat mem + 2 ^ k - 1" by (rule of_nat_inverse)
  have "align_up (2 ^ k) mem = ?x AND NOT (mask k)" by (simp add: align_up_def mask_eq_exp_minus_1)
  then show ?thesis by (simp add: unat_and_not_mask x)
qed

lemma align_up_offset:
  assumes k: "2 \<le> k" "k < 32" and fit: "unat mem + 2 ^ k \<le> 2 ^ 32" and al: "4 dvd unat mem"
  defines "K \<equiv> unat (drop_bit 2 (align_up (2 ^ k) mem - mem))"
  shows "align_up (2 ^ k) mem = mem + 4 * of_nat K" "4 * K < 2 ^ k" "2 ^ k dvd unat (align_up (2 ^ k) mem)"
    "mem \<le> align_up (2 ^ k) mem"
proof -
  let ?p = "align_up (2 ^ k) mem"
  define X :: nat where "X = unat mem + 2 ^ k - 1"
  have p: "unat ?p = X - X mod 2 ^ k" using align_up_nat [OF k(2) fit] by (simp add: X_def)
  have m: "X mod 2 ^ k < 2 ^ k" "(0 :: nat) < 2 ^ k" by simp_all
  show d: "2 ^ k dvd unat ?p" unfolding p by (rule dvd_minus_mod)
  have "unat mem + X mod 2 ^ k \<le> X" using m unfolding X_def by linarith
  then have le: "unat mem \<le> unat ?p" "unat ?p < unat mem + 2 ^ k" using m(2) by (simp_all add: p X_def)
  then show "mem \<le> ?p" by (simp add: word_le_nat_alt)
  have off: "unat (?p - mem) = unat ?p - unat mem" using le(1) by (simp add: unat_sub word_le_nat_alt)
  have "(4 :: nat) dvd 2 ^ k" using le_imp_power_dvd [OF k(1), of "2 :: nat"] by simp
  then have "4 dvd unat (?p - mem)" unfolding off using d al by (meson dvd_diff_nat dvd_trans)
  moreover have K: "K = unat (?p - mem) div 4" by (simp only: K_def unat_drop_bit_div) simp
  ultimately have e: "4 * K = unat (?p - mem)" by simp
  then show "4 * K < 2 ^ k" using off le by simp
  have "of_nat (4 * K) = ?p - mem" unfolding e by simp
  then show "?p = mem + 4 * of_nat K" by (simp add: algebra_simps)
qed


section \<open>Properties\<close>

lemma bind_weak_cong: "x = y \<Longrightarrow> Option.bind x f = Option.bind y f" by simp

lemmas pm_run = pmalloc_addblock_def pmalloc_init_def insert_available_def insert_assigned_def remove_available_def
  remove_assigned_def pmalloc_item_insert_def pmalloc_item_remove_def item_defs item_size_def align_up4_def
  pmalloc_malloc_def split_block_def pmalloc_merge_def pmalloc_free_def Let_def pmalloc_sizeof_def
  insert_seek.simps merge_back.simps merge_forward.simps first_fit.simps

text \<open>C30. An allocation for which the first block that is large enough has the size asked for returns
  the memory behind its header; the block moves from the sorted list of free blocks to the sorted
  list of assigned ones, the free memory shrinks by its size, and no block changes its size.\<close>
theorem malloc_exact_fit:
  assumes h: "heap_lists s xs ys" "headers_apart (set xs \<union> set ys)" "set xs \<inter> set ys = {}"
    and f: "find (\<lambda>b. align_up4 n \<le> i_size (pm_mem s) b) xs = Some x" and e: "i_size (pm_mem s) x = align_up4 n"
  shows "\<exists>s'. pmalloc_malloc n s = Some (x + item_size, s') \<and> heap_lists s' (remove1 x xs) (insort x ys)
    \<and> freemem s' = freemem s - align_up4 n \<and> totalnodes s' = totalnodes s
    \<and> (\<forall>b\<in>set xs \<union> set ys. i_size (pm_mem s') b = i_size (pm_mem s) b)"
proof -
  have x: "x \<in> set xs" "x \<notin> set ys" using f h(3) nth_mem by (fastforce simp: find_Some_iff)+
  have x0: "x \<noteq> 0" "distinct xs" using x h(1) dlist_nonzero by (auto simp: heap_lists_def strict_sorted_iff)
  have ff: "first_fit (pm_mem s) (align_up4 n) (available s) = Some x"
    using first_fit_finds [of "pm_mem s" 0 xs "align_up4 n"] h(1) f by (simp add: heap_lists_def)
  define s1 where "s1 = s\<lparr>pm_mem := set_imagic x 0xFEEDFACE (pm_mem s)\<rparr>"
  have h1: "heap_lists s1 xs ys" unfolding s1_def by (rule set_imagic_lists [OF h(1,2) x(1)])
  from remove_available_lists [OF h1 h(2,3) x(1)] obtain m2 where
    m2: "remove_available x s1 = s1\<lparr>available := first_or (remove1 x xs) 0, pm_mem := m2\<rparr>"
      "heap_lists (remove_available x s1) (remove1 x xs) ys" "i_prev m2 x = 0" "i_next m2 x = 0"
      "\<forall>a. a \<notin> links (set xs) \<longrightarrow> m2 a = pm_mem s1 a" by blast
  let ?s2 = "remove_available x s1"
  have sub: "set (remove1 x xs) = set xs - {x}" using x0 by (simp add: set_remove1_eq)
  have h2: "headers_apart (insert x (set (remove1 x xs) \<union> set ys))" "set (remove1 x xs) \<inter> set ys = {}"
  proof -
    have "insert x (set (remove1 x xs) \<union> set ys) = set xs \<union> set ys" using sub x by auto
    then show "headers_apart (insert x (set (remove1 x xs) \<union> set ys))" using h(2) by simp
  qed (use h(3) sub in auto)
  have "x \<notin> set (remove1 x xs)" using sub by simp
  from insert_assigned_lists [OF m2(2) h2 this x(2) x0(1)] m2(1,3,4) obtain s3 where
    s3: "insert_assigned x ?s2 = Some s3" "\<exists>m'. s3 = ?s2\<lparr>assigned := first_or (insort x ys) 0, pm_mem := m'\<rparr>"
      "heap_lists s3 (remove1 x xs) (insort x ys)"
      "\<forall>a. a \<notin> links (insert x (set ys)) \<longrightarrow> pm_mem s3 a = pm_mem ?s2 a" by auto
  have sz: "i_size (pm_mem s3) b = i_size (pm_mem s) b" if b: "b \<in> set xs \<union> set ys" for b
  proof -
    have "i_size (pm_mem s3) b = i_size m2 b"
      using outside_links(1) [OF h(2) _ b s3(4)] x m2(1) by simp
    also have "\<dots> = i_size (pm_mem s1) b" using outside_links(1) [OF h(2) _ b m2(5)] by simp
    also have "\<dots> = i_size (pm_mem s) b" using set_imagic_links(3) [OF h(2) _ b] x by (simp add: s1_def)
    finally show ?thesis .
  qed
  have "pmalloc_malloc n s = Some (x + item_size, s3\<lparr>freemem := freemem s3 - i_size (pm_mem s3) x\<rparr>)"
    unfolding pmalloc_malloc_def Let_def ff using x0 sz [of x] x e by (simp add: s1_def [symmetric] s3(1))
  moreover have "freemem s3 = freemem s" "totalnodes s3 = totalnodes s"
    using s3(2) m2(1) by (auto simp: s1_def)
  ultimately show ?thesis using s3(3) sz x e by (auto simp: heap_lists_def)
qed

text \<open>A heap with one block of 28 bytes behind its header.\<close>

definition one_block :: "u32 \<Rightarrow> pmalloc" where
  "one_block p = \<lparr>pm_mem = (\<lambda>_. 0)(p + 8 := 28), available = p, assigned = 0, freemem = 28, totalmem = 28, totalnodes = 1\<rparr>"

lemma one_block_lists: "p \<noteq> 0 \<Longrightarrow> heap_lists (one_block p) [p] []"
  by (auto simp: heap_lists_def one_block_def item_defs)

lemma headers_apart_one: "headers_apart {p}"
  by (simp add: headers_apart_def)

lemma malloc_exact_fit_witness:
  "\<exists>s'. pmalloc_malloc 25 (one_block 0x1000) = Some (0x1010, s') \<and> heap_lists s' [] [0x1000] \<and> freemem s' = 0"
proof -
  have "align_up4 25 = 28" by (simp add: align_up4_def)
  then show ?thesis
    using malloc_exact_fit [of "one_block 0x1000" "[0x1000]" "[]" 25 "0x1000"] one_block_lists [of "0x1000"] headers_apart_one [of "0x1000"]
    by (auto simp: one_block_def item_defs item_size_def)
qed

text \<open>C31. Releasing an assigned block that touches no free block and does not end at the end of the
  address space moves it back to its place in the sorted list of free blocks; the free memory grows
  by its size and nothing is merged.\<close>
theorem free_without_neighbours:
  assumes h: "heap_lists s xs ys" "headers_apart (set xs \<union> set ys)" "set xs \<inter> set ys = {}"
    and x: "x \<in> set ys" "x + item_size \<noteq> 0"
    and far: "\<forall>b\<in>insert x (set xs). x \<noteq> b + item_size + i_size (pm_mem s) b \<and> b \<noteq> x + item_size + i_size (pm_mem s) x"
      "x + item_size + i_size (pm_mem s) x \<noteq> 0"
  shows "\<exists>s'. pmalloc_free (x + item_size) s = Some s' \<and> heap_lists s' (insort x xs) (remove1 x ys)
    \<and> freemem s' = freemem s + i_size (pm_mem s) x \<and> totalnodes s' = totalnodes s
    \<and> (\<forall>b\<in>set xs \<union> set ys. i_size (pm_mem s') b = i_size (pm_mem s) b)"
proof -
  have hs: "heap_lists (swap_lists s) ys xs" "headers_apart (set ys \<union> set xs)" "set ys \<inter> set xs = {}"
    using h by (auto simp: Un_commute)
  have x0: "x \<noteq> 0" "distinct ys" "x \<notin> set xs" using x h(1,3) dlist_nonzero by (auto simp: heap_lists_def strict_sorted_iff)
  from remove_available_lists [OF hs x(1)] obtain m2 where
    m2: "remove_available x (swap_lists s) = (swap_lists s)\<lparr>available := first_or (remove1 x ys) 0, pm_mem := m2\<rparr>"
      "heap_lists (remove_available x (swap_lists s)) (remove1 x ys) xs" "i_prev m2 x = 0" "i_next m2 x = 0"
      "\<forall>a. a \<notin> links (set ys) \<longrightarrow> m2 a = pm_mem s a" by auto
  define s2 where "s2 = (remove_assigned x s)\<lparr>freemem := freemem s + i_size (pm_mem s) x\<rparr>"
  have szx: "i_size m2 x = i_size (pm_mem s) x" using outside_links(1) [OF hs(2) _ _ m2(5)] x by simp
  have mem2: "pm_mem s2 = m2" "freemem (remove_assigned x s) = freemem s" "pm_mem (remove_assigned x s) = m2"
    "totalnodes s2 = totalnodes s"
    by (simp_all add: s2_def swap_remove m2(1)) (simp_all add: swap_lists_def)?
  have h2: "heap_lists (swap_lists s2) (remove1 x ys) xs"
    using m2(2) by (simp add: s2_def swap_remove) (simp add: swap_lists_def heap_lists_def)
  have sub: "set (remove1 x ys) = set ys - {x}" using x0 by (simp add: set_remove1_eq)
  have h3: "headers_apart (insert x (set (remove1 x ys) \<union> set xs))" "set (remove1 x ys) \<inter> set xs = {}"
    "x \<notin> set (remove1 x ys)"
  proof -
    have "insert x (set (remove1 x ys) \<union> set xs) = set ys \<union> set xs" using sub x by auto
    then show "headers_apart (insert x (set (remove1 x ys) \<union> set xs))" using hs(2) by simp
  qed (use hs(3) sub in auto)
  from insert_assigned_lists [OF h2 h3 x0(3,1)] m2(3,4) obtain t where
    t: "insert_assigned x (swap_lists s2) = Some t" "\<exists>m'. t = (swap_lists s2)\<lparr>assigned := first_or (insort x xs) 0, pm_mem := m'\<rparr>"
      "heap_lists t (remove1 x ys) (insort x xs)"
      "\<forall>a. a \<notin> links (insert x (set xs)) \<longrightarrow> pm_mem t a = m2 a" by (auto simp: mem2)
  define s3 where "s3 = swap_lists t"
  have s3: "insert_available x s2 = Some s3" "heap_lists s3 (insort x xs) (remove1 x ys)" "pm_mem s3 = pm_mem t"
    "freemem s3 = freemem s2" "totalnodes s3 = totalnodes s2"
    using t(1-3) by (auto simp: swap_insert s3_def)
  have sz: "i_size (pm_mem s3) b = i_size (pm_mem s) b" if b: "b \<in> set ys \<union> set xs" for b
    using outside_links(1) [OF hs(2) _ b m2(5)] outside_links(1) [OF hs(2) _ b t(4)] x s3(3) by simp
  have nb: "i_prev (pm_mem s3) x \<in> insert 0 (insert x (set xs))" "i_next (pm_mem s3) x \<in> insert 0 (insert x (set xs))"
    using dlist_neighbours [of "pm_mem s3" "insort x xs" x] s3(2) by (auto simp: heap_lists_def set_insort_key)
  have self: "x \<noteq> x + item_size + i_size (pm_mem s) x" using far(1) by simp
  have "merge_back (pm_mem s3) x = Some x"
    using nb(1) far(1) sz x self by (subst merge_back.simps) auto
  moreover have "merge_forward x s3 = Some s3"
    using nb(2) far sz x self by (subst merge_forward.simps) (auto simp: Let_def)
  ultimately have "pmalloc_merge x s3 = Some s3" by (simp add: pmalloc_merge_def)
  then have "pmalloc_free (x + item_size) s = Some s3"
    using x(2) s3(1) by (simp add: pmalloc_free_def Let_def s2_def mem2 szx)
  then show ?thesis using s3 sz mem2 by (auto simp: s2_def)
qed

lemma free_without_neighbours_witness:
  "\<exists>s'. pmalloc_free 0x1010 (swap_lists (one_block 0x1000)) = Some s' \<and> heap_lists s' [0x1000] [] \<and> freemem s' = 56"
proof -
  have "heap_lists (swap_lists (one_block 0x1000)) [] [0x1000]" using one_block_lists [of "0x1000"] by simp
  then show ?thesis
    using free_without_neighbours [of "swap_lists (one_block 0x1000)" "[]" "[0x1000]" "0x1000"] headers_apart_one [of "0x1000"]
    by (simp add: one_block_def item_defs item_size_def swap_lists_def) blast
qed




end
