(* ===== verification/GameAssets.thy ===== *)
theory GameAssets
  imports Prelude
begin

text \<open>
  The pictures of the game list (patches/source/games.c): every entry has an icon and a banner that
  live in ARAM and are brought into one of 128 buffers each while their line is near the screen. A
  transfer is started by posting a request and ends with its callback; the requests posted are
  collected here in order, with the callback each was given. Entries and buffers are named by their
  index. The addresses of the two buffer pools are fields of the state.
\<close>

section \<open>State\<close>

definition ASSETS_PER_LINE :: nat where "ASSETS_PER_LINE = 8"
definition PRELOAD_LINE_COUNT :: int where "PRELOAD_LINE_COUNT = 2"
definition DRAW_TOTAL_ROWS :: int where "DRAW_TOTAL_ROWS = 4"
definition ASSETS_INITIAL_COUNT :: u32 where "ASSETS_INITIAL_COUNT = 8 * 4 + 2 * 8"
definition ASSET_BUFFER_COUNT :: nat where "ASSET_BUFFER_COUNT = 128"
definition ICON_PIXELDATA_LEN :: u32 where "ICON_PIXELDATA_LEN = 32 * 32 * 2"
definition BNR_PIXELDATA_LEN :: u32 where "BNR_PIXELDATA_LEN = 96 * 32 * 2"
definition ARAM_DIR_MRAM_TO_ARAM :: u32 where "ARAM_DIR_MRAM_TO_ARAM = 0"
definition ARAM_DIR_ARAM_TO_MRAM :: u32 where "ARAM_DIR_ARAM_TO_MRAM = 1"

lemmas asset_consts = ASSETS_PER_LINE_def PRELOAD_LINE_COUNT_def DRAW_TOTAL_ROWS_def ASSET_BUFFER_COUNT_def

datatype gm_load_state =
  GM_LOAD_STATE_NONE | GM_LOAD_STATE_SETUP | GM_LOAD_STATE_UNLOADED | GM_LOAD_STATE_UNLOADING
| GM_LOAD_STATE_LOADING | GM_LOAD_STATE_LOADED

datatype gm_file_type =
  GM_FILE_TYPE_UNKNOWN | GM_FILE_TYPE_DIRECTORY | GM_FILE_TYPE_PROGRAM | GM_FILE_TYPE_GAME

text \<open>The part of an asset that icons and banners share; \<open>part_buf\<close> is the buffer, if it has one.\<close>

record gm_part =
  aram_offset :: u32
  schedule_free :: bool
  part_state :: gm_load_state
  part_buf :: "nat option"

record gm_extra =
  game_id :: "u8 list"
  disc_num :: u8
  disc_ver :: u8
  dvd_bnr_type :: u8
  dvd_bnr_offset :: u32
  dvd_dol_offset :: u32
  dvd_fst_offset :: u32
  dvd_fst_size :: u32
  dvd_max_fst_size :: u32

record gm_file_entry =
  e_path :: "u8 list"
  fullGameName :: "u8 list"
  description :: "u8 list"
  extra :: gm_extra
  use_banner :: bool
  e_icon :: gm_part
  e_banner :: gm_part
  e_type :: gm_file_type
  second :: "nat option"

datatype gm_callback = Callback_Setup | Callback_Unload | Callback_Load

record gm_request =
  rq_owner :: u32
  rq_type :: u32
  rq_source :: u32
  rq_dest :: u32
  rq_length :: u32
  rq_callback :: gm_callback

datatype gm_kind = Icon | Banner

record gm =
  entry_backing :: "gm_file_entry list"
  icon_pool :: "u32 list"
  banner_pool :: "u32 list"
  icon_pool_addr :: u32
  banner_pool_addr :: u32
  posted :: "(nat \<times> gm_kind \<times> gm_request) list"

definition gm_get_game_entry :: "gm \<Rightarrow> int \<Rightarrow> gm_file_entry option" where
  "gm_get_game_entry g index =
     (if unat (word_of_int index :: u32) \<ge> length (entry_backing g) then None else Some (entry_backing g ! nat index))"

section \<open>Buffers\<close>

primrec free_slot :: "u32 list \<Rightarrow> nat option" where
  "free_slot [] = None"
| "free_slot (u # us) = (if u = 0 then Some 0 else map_option Suc (free_slot us))"

definition gm_get_icon_buf :: "u32 list \<Rightarrow> (nat \<times> u32 list) option" where
  "gm_get_icon_buf pool = map_option (\<lambda>b. (b, pool[b := 1])) (free_slot pool)"

definition gm_get_banner_buf :: "u32 list \<Rightarrow> (nat \<times> u32 list) option" where
  "gm_get_banner_buf pool = map_option (\<lambda>b. (b, pool[b := 1])) (free_slot pool)"

definition gm_free_icon_buf :: "nat option \<Rightarrow> u32 list \<Rightarrow> u32 list" where
  "gm_free_icon_buf b pool = (case b of None \<Rightarrow> pool | Some b \<Rightarrow> pool[b := 0])"

definition gm_free_banner_buf :: "nat option \<Rightarrow> u32 list \<Rightarrow> u32 list" where
  "gm_free_banner_buf b pool = (case b of None \<Rightarrow> pool | Some b \<Rightarrow> pool[b := 0])"

definition gm_count_icon_buf :: "gm \<Rightarrow> nat" where
  "gm_count_icon_buf g = length (filter (\<lambda>u. u = 1) (icon_pool g))"

definition gm_count_banner_buf :: "gm \<Rightarrow> nat" where
  "gm_count_banner_buf g = length (filter (\<lambda>u. u = 1) (banner_pool g))"

definition gm_count_pending_free :: "gm \<Rightarrow> nat" where
  "gm_count_pending_free g =
     foldl (\<lambda>n e. n + of_bool (schedule_free (e_icon e)) + of_bool (schedule_free (e_banner e))) 0 (entry_backing g)"

text \<open>The address of the pixels of a buffer, behind its 32 bytes of header; a null buffer is at 0.\<close>

definition icon_data :: "u32 \<Rightarrow> nat option \<Rightarrow> u32" where
  "icon_data pool b = (case b of None \<Rightarrow> 32 | Some b \<Rightarrow> pool + of_nat b * (32 + ICON_PIXELDATA_LEN) + 32)"

definition banner_data :: "u32 \<Rightarrow> nat option \<Rightarrow> u32" where
  "banner_data pool b = (case b of None \<Rightarrow> 32 | Some b \<Rightarrow> pool + of_nat b * (32 + BNR_PIXELDATA_LEN) + 32)"

definition make_type :: "u32 \<Rightarrow> u32 \<Rightarrow> u32 \<Rightarrow> u32 \<Rightarrow> u32" where
  "make_type a b c d = or (push_bit 24 a) (or (push_bit 16 b) (or (push_bit 8 c) d))"

text \<open>An operation on an icon or a banner changes the asset and its pool, and may post a request.\<close>

type_synonym part_op = "gm_part \<Rightarrow> u32 list \<Rightarrow> gm_part \<times> u32 list \<times> gm_request option"

definition on_icon :: "nat \<Rightarrow> part_op \<Rightarrow> gm \<Rightarrow> gm" where
  "on_icon i f g =
     (let e = entry_backing g ! i; (p, pool, r) = f (e_icon e) (icon_pool g)
      in g\<lparr>entry_backing := (entry_backing g)[i := e\<lparr>e_icon := p\<rparr>], icon_pool := pool,
           posted := posted g @ (case r of None \<Rightarrow> [] | Some r \<Rightarrow> [(i, Icon, r)])\<rparr>)"

definition on_banner :: "nat \<Rightarrow> part_op \<Rightarrow> gm \<Rightarrow> gm" where
  "on_banner i f g =
     (let e = entry_backing g ! i; (p, pool, r) = f (e_banner e) (banner_pool g)
      in g\<lparr>entry_backing := (entry_backing g)[i := e\<lparr>e_banner := p\<rparr>], banner_pool := pool,
           posted := posted g @ (case r of None \<Rightarrow> [] | Some r \<Rightarrow> [(i, Banner, r)])\<rparr>)"

section \<open>Callbacks\<close>

definition arq_icon_callback_setup :: part_op where
  "arq_icon_callback_setup p pool = (p\<lparr>part_state := GM_LOAD_STATE_LOADED\<rparr>, pool, None)"

definition arq_icon_callback_unload :: part_op where
  "arq_icon_callback_unload p pool = (p\<lparr>part_state := GM_LOAD_STATE_UNLOADED\<rparr>, gm_free_icon_buf (part_buf p) pool, None)"

definition arq_icon_callback_load :: part_op where
  "arq_icon_callback_load p pool = (p\<lparr>part_state := GM_LOAD_STATE_LOADED\<rparr>, pool, None)"

definition arq_banner_callback_setup :: part_op where
  "arq_banner_callback_setup p pool = (p\<lparr>part_state := GM_LOAD_STATE_LOADED\<rparr>, pool, None)"

definition arq_banner_callback_unload :: part_op where
  "arq_banner_callback_unload p pool = (p\<lparr>part_state := GM_LOAD_STATE_UNLOADED\<rparr>, gm_free_banner_buf (part_buf p) pool, None)"

definition arq_banner_callback_load :: part_op where
  "arq_banner_callback_load p pool = (p\<lparr>part_state := GM_LOAD_STATE_LOADED\<rparr>, pool, None)"

text \<open>The end of a transfer: the callback its request was posted with.\<close>

fun complete :: "nat \<times> gm_kind \<times> gm_request \<Rightarrow> gm \<Rightarrow> gm" where
  "complete (i, Icon, r) g =
     on_icon i (case rq_callback r of Callback_Setup \<Rightarrow> arq_icon_callback_setup
       | Callback_Unload \<Rightarrow> arq_icon_callback_unload | Callback_Load \<Rightarrow> arq_icon_callback_load) g"
| "complete (i, Banner, r) g =
     on_banner i (case rq_callback r of Callback_Setup \<Rightarrow> arq_banner_callback_setup
       | Callback_Unload \<Rightarrow> arq_banner_callback_unload | Callback_Load \<Rightarrow> arq_banner_callback_load) g"

text \<open>All transfers posted so far end, in the order they were posted.\<close>

definition transfers_end :: "gm \<Rightarrow> gm" where
  "transfers_end g = foldl (\<lambda>g t. complete t g) (g\<lparr>posted := []\<rparr>) (posted g)"

section \<open>Icons\<close>

definition gm_icon_setup :: "u32 \<Rightarrow> u32 \<Rightarrow> part_op" where
  "gm_icon_setup base aram p pool =
     (let p = p\<lparr>aram_offset := aram, part_state := GM_LOAD_STATE_SETUP\<rparr>
      in (p, pool, Some \<lparr>rq_owner = make_type 0x49 0x58 0x58 0x53, rq_type = ARAM_DIR_MRAM_TO_ARAM,
            rq_source = icon_data base (part_buf p), rq_dest = aram, rq_length = ICON_PIXELDATA_LEN,
            rq_callback = Callback_Setup\<rparr>))"

definition gm_icon_setup_unload :: "u32 \<Rightarrow> u32 \<Rightarrow> part_op" where
  "gm_icon_setup_unload base aram p pool =
     (let p = p\<lparr>aram_offset := aram, part_state := GM_LOAD_STATE_UNLOADING\<rparr>
      in (p, pool, Some \<lparr>rq_owner = make_type 0x49 0x43 0x4F 0x55, rq_type = ARAM_DIR_MRAM_TO_ARAM,
            rq_source = icon_data base (part_buf p), rq_dest = aram, rq_length = ICON_PIXELDATA_LEN,
            rq_callback = Callback_Unload\<rparr>))"

definition gm_icon_load :: "u32 \<Rightarrow> part_op" where
  "gm_icon_load base p pool =
     (if part_state p = GM_LOAD_STATE_NONE \<or> part_state p = GM_LOAD_STATE_LOADED then (p, pool, None)
      else let p = p\<lparr>part_state := GM_LOAD_STATE_LOADING\<rparr>
        in case gm_get_icon_buf pool of
          None \<Rightarrow> (p, pool, None)
        | Some (b, pool) \<Rightarrow>
            let p = p\<lparr>part_buf := Some b\<rparr>
            in (p, pool, Some \<lparr>rq_owner = make_type 0x49 0x43 0x4F 0x4C, rq_type = ARAM_DIR_ARAM_TO_MRAM,
                  rq_source = aram_offset p, rq_dest = icon_data base (part_buf p), rq_length = ICON_PIXELDATA_LEN,
                  rq_callback = Callback_Load\<rparr>))"

definition gm_icon_free :: part_op where
  "gm_icon_free p pool =
     (if part_state p = GM_LOAD_STATE_NONE then (p, pool, None)
      else if part_state p = GM_LOAD_STATE_LOADING \<or> part_state p = GM_LOAD_STATE_SETUP
      then (p\<lparr>schedule_free := True\<rparr>, pool, None)
      else (p\<lparr>part_buf := None, part_state := GM_LOAD_STATE_UNLOADED\<rparr>, gm_free_icon_buf (part_buf p) pool, None))"

section \<open>Banners\<close>

definition gm_banner_setup :: "u32 \<Rightarrow> u32 \<Rightarrow> part_op" where
  "gm_banner_setup base aram p pool =
     (let p = p\<lparr>aram_offset := aram, part_state := GM_LOAD_STATE_SETUP\<rparr>
      in (p, pool, Some \<lparr>rq_owner = make_type 0x42 0x58 0x58 0x53, rq_type = ARAM_DIR_MRAM_TO_ARAM,
            rq_source = banner_data base (part_buf p), rq_dest = aram, rq_length = BNR_PIXELDATA_LEN,
            rq_callback = Callback_Setup\<rparr>))"

definition gm_banner_setup_unload :: "u32 \<Rightarrow> u32 \<Rightarrow> part_op" where
  "gm_banner_setup_unload base aram p pool =
     (let p = p\<lparr>aram_offset := aram, part_state := GM_LOAD_STATE_UNLOADING\<rparr>
      in (p, pool, Some \<lparr>rq_owner = make_type 0x49 0x58 0x58 0x55, rq_type = ARAM_DIR_MRAM_TO_ARAM,
            rq_source = banner_data base (part_buf p), rq_dest = aram, rq_length = BNR_PIXELDATA_LEN,
            rq_callback = Callback_Unload\<rparr>))"

definition gm_banner_load :: "u32 \<Rightarrow> part_op" where
  "gm_banner_load base p pool =
     (if part_state p = GM_LOAD_STATE_NONE \<or> part_state p = GM_LOAD_STATE_LOADED then (p, pool, None)
      else let p = p\<lparr>part_state := GM_LOAD_STATE_LOADING\<rparr>
        in case gm_get_banner_buf pool of
          None \<Rightarrow> (p, pool, None)
        | Some (b, pool) \<Rightarrow>
            let p = p\<lparr>part_buf := Some b\<rparr>
            in (p, pool, Some \<lparr>rq_owner = make_type 0x49 0x58 0x58 0x4C, rq_type = ARAM_DIR_ARAM_TO_MRAM,
                  rq_source = aram_offset p, rq_dest = banner_data base (part_buf p), rq_length = BNR_PIXELDATA_LEN,
                  rq_callback = Callback_Load\<rparr>))"

definition gm_banner_free :: part_op where
  "gm_banner_free p pool =
     (if part_state p = GM_LOAD_STATE_NONE \<or> part_state p = GM_LOAD_STATE_UNLOADING then (p, pool, None)
      else if part_state p = GM_LOAD_STATE_LOADING \<or> part_state p = GM_LOAD_STATE_SETUP
      then (p\<lparr>schedule_free := True\<rparr>, pool, None)
      else (p\<lparr>part_buf := None, part_state := GM_LOAD_STATE_UNLOADED\<rparr>, gm_free_banner_buf (part_buf p) pool, None))"

section \<open>Lines\<close>

definition entry_load :: "nat \<Rightarrow> gm \<Rightarrow> gm" where
  "entry_load i g =
     (if e_type (entry_backing g ! i) = GM_FILE_TYPE_GAME
      then let g = on_icon i (gm_icon_load (icon_pool_addr g)) g in on_banner i (gm_banner_load (banner_pool_addr g)) g
      else on_icon i (gm_icon_load (icon_pool_addr g)) g)"

definition entry_free :: "nat \<Rightarrow> gm \<Rightarrow> gm" where
  "entry_free i g =
     (if e_type (entry_backing g ! i) = GM_FILE_TYPE_GAME
      then on_banner i gm_banner_free (on_icon i gm_icon_free g)
      else on_icon i gm_icon_free g)"

text \<open>The entries of a line, up to the first index that has no entry.\<close>

definition line_entries :: "nat \<Rightarrow> nat \<Rightarrow> nat list" where
  "line_entries count line =
     takeWhile (\<lambda>index. index < count) (map (\<lambda>i. line * ASSETS_PER_LINE + i) [0..<ASSETS_PER_LINE])"

definition gm_line_load :: "nat \<Rightarrow> gm \<Rightarrow> gm" where
  "gm_line_load line g = foldl (\<lambda>g i. entry_load i g) g (line_entries (length (entry_backing g)) line)"

definition gm_line_free :: "nat \<Rightarrow> gm \<Rightarrow> gm" where
  "gm_line_free line g = foldl (\<lambda>g i. entry_free i g) g (line_entries (length (entry_backing g)) line)"

definition gm_line_changed :: "int \<Rightarrow> int \<Rightarrow> int \<Rightarrow> gm \<Rightarrow> gm" where
  "gm_line_changed number_of_lines top_line_num delta g =
     (let new_line_num = top_line_num + delta
      in if delta < 0
         then let load_line = new_line_num - PRELOAD_LINE_COUNT + 1;
                  g = (if load_line \<ge> 0 then gm_line_load (nat load_line) g else g);
                  unload_line = new_line_num + DRAW_TOTAL_ROWS + PRELOAD_LINE_COUNT
              in if unload_line < number_of_lines then gm_line_free (nat unload_line) g else g
         else if delta > 0
         then let load_line = new_line_num + DRAW_TOTAL_ROWS + PRELOAD_LINE_COUNT - 1;
                  g = (if load_line < number_of_lines then gm_line_load (nat load_line) g else g);
                  unload_line = new_line_num - PRELOAD_LINE_COUNT
              in if unload_line \<ge> 0 then gm_line_free (nat unload_line) g else g
         else g)"

end
