(* ===== verification/GameInfo.thy ===== *)
theory GameInfo
  imports FlippyEmu Checksums
begin

text \<open>
  Recognising a disc image (patches/source/dolphin_dvd.c and the lookup of bnr_offsets.c): the
  header is read, the place of its banner is looked up by checksum or searched in the file table of
  the image, and the file is left open for the caller or closed. The storage is used through the
  file calls of \<open>FlippyEmu\<close>, gathered in a record of functions whose state is a parameter; None is
  a call that does not return. The static buffers of the code and the memory the file table is read
  into belong to the state.
\<close>

section \<open>The file calls\<close>

record 'e drive =
  dr_open :: "'e \<Rightarrow> bytes \<Rightarrow> u8 \<Rightarrow> u8 \<Rightarrow> (int \<times> 'e) option"
  dr_status :: "'e \<Rightarrow> (file_status option \<times> 'e) option"
  dr_close :: "'e \<Rightarrow> u32 \<Rightarrow> 'e option"
  dr_readdir :: "'e \<Rightarrow> dir_entry \<Rightarrow> u32 \<Rightarrow> (int \<times> dir_entry \<times> 'e) option"
  dr_read :: "'e \<Rightarrow> u32 \<Rightarrow> u32 \<Rightarrow> u64 \<Rightarrow> u32 \<Rightarrow> (int \<times> bytes \<times> 'e) option"

text \<open>The calls as the patches are linked with them. The status call returns a null pointer when the
  drive's own status query fails; directories are read through FatFs here, the drive's own listing
  being a parameter.\<close>

definition emu_status_ptr :: "'h hwops \<Rightarrow> 'f fatfs \<Rightarrow> ('h, 'f) emu \<Rightarrow> (file_status option \<times> ('h, 'f) emu) option" where
  "emu_status_ptr H F e =
     map_option (\<lambda>(r, st, e). (if r = 0 then Some st else None, e)) (dvd_custom_status H F e)"

definition emu_drive :: "'h hwops \<Rightarrow> 'f fatfs \<Rightarrow> (('h, 'f) emu \<Rightarrow> dir_entry \<Rightarrow> u32 \<Rightarrow> (int \<times> dir_entry \<times> ('h, 'f) emu) option)
    \<Rightarrow> ('h, 'f) emu drive" where
  "emu_drive H F native_readdir =
     \<lparr>dr_open = dvd_custom_open H F, dr_status = emu_status_ptr H F, dr_close = dvd_custom_close H F,
      dr_readdir = (\<lambda>e d fd. if emu_is_native e then native_readdir e d fd else Some (emu_readdir F e d)),
      dr_read = dvd_threaded_read H F\<rparr>"

section \<open>Headers\<close>

definition DISK_HEADER_SIZE :: u32 where "DISK_HEADER_SIZE = 0x440"
definition BANNER_MAGIC_1 :: u32 where "BANNER_MAGIC_1 = 0x424E5231"
definition BANNER_MAGIC_2 :: u32 where "BANNER_MAGIC_2 = 0x424E5232"
definition IPC_FILE_FLAG_DISABLECACHE :: u8 where "IPC_FILE_FLAG_DISABLECACHE = 0x01"
definition IPC_FILE_FLAG_DISABLESPEEDEMU :: u8 where "IPC_FILE_FLAG_DISABLESPEEDEMU = 0x04"

definition hdr_DiscID :: "bytes \<Rightarrow> u8" where "hdr_DiscID b = b ! 6"
definition hdr_Version :: "bytes \<Rightarrow> u8" where "hdr_Version b = b ! 7"
definition hdr_DOLOffset :: "bytes \<Rightarrow> u32" where "hdr_DOLOffset b = be32 b 0x420"
definition hdr_FSTOffset :: "bytes \<Rightarrow> u32" where "hdr_FSTOffset b = be32 b 0x424"
definition hdr_FSTSize :: "bytes \<Rightarrow> u32" where "hdr_FSTSize b = be32 b 0x428"
definition hdr_MaxFSTSize :: "bytes \<Rightarrow> u32" where "hdr_MaxFSTSize b = be32 b 0x42C"

record game_info =
  gi_valid :: bool
  gi_game_id :: bytes
  gi_disc_num :: u8
  gi_disc_ver :: u8
  gi_bnr_type :: u8
  gi_bnr_offset :: u32
  gi_dol_offset :: u32
  gi_fst_offset :: u32
  gi_fst_size :: u32
  gi_max_fst_size :: u32

definition no_game :: game_info where
  "no_game = \<lparr>gi_valid = False, gi_game_id = replicate 6 0, gi_disc_num = 0, gi_disc_ver = 0, gi_bnr_type = 0,
     gi_bnr_offset = 0, gi_dol_offset = 0, gi_fst_offset = 0, gi_fst_size = 0, gi_max_fst_size = 0\<rparr>"

text \<open>\<open>header\<close> and \<open>small_buf\<close> are static: what an earlier game left there stays until it is overwritten.\<close>

record 'e info_state =
  gi_env :: 'e
  gi_header :: bytes
  gi_small :: bytes
  gi_ram :: "u32 \<Rightarrow> u8"

definition store_bytes :: "u32 \<Rightarrow> bytes \<Rightarrow> (u32 \<Rightarrow> u8) \<Rightarrow> u32 \<Rightarrow> u8" where
  "store_bytes a data m = (\<lambda>x. if unat (x - a) < length data then data ! unat (x - a) else m x)"

definition read_header :: "'e drive \<Rightarrow> u32 \<Rightarrow> u32 \<Rightarrow> 'e info_state \<Rightarrow> 'e info_state option" where
  "read_header D addr fd s =
     map_option (\<lambda>(r, data, e). s\<lparr>gi_env := e, gi_header := blit (gi_header s) 0 data\<rparr>)
       (dr_read D (gi_env s) addr DISK_HEADER_SIZE 0 fd)"

definition read_small :: "'e drive \<Rightarrow> u32 \<Rightarrow> u32 \<Rightarrow> u32 \<Rightarrow> 'e info_state \<Rightarrow> 'e info_state option" where
  "read_small D addr offset fd s =
     map_option (\<lambda>(r, data, e). s\<lparr>gi_env := e, gi_small := blit (gi_small s) 0 data\<rparr>)
       (dr_read D (gi_env s) addr 32 (ucast offset) fd)"

section \<open>Where the banner is\<close>

fun find_hash :: "u32 \<Rightarrow> (u32 \<times> u32) list \<Rightarrow> u32" where
  "find_hash hash [] = 0"
| "find_hash hash ((h, off) # rest) = (if h = hash then off else find_hash hash rest)"

definition get_banner_offset_fast :: "(u32 \<times> u32) list \<Rightarrow> bytes \<Rightarrow> u32" where
  "get_banner_offset_fast bnr_offsets header =
     (if hdr_DOLOffset header = 0 then 0 else find_hash (tinf_crc32 header DISK_HEADER_SIZE) bnr_offsets)"

definition my_tolower :: "u8 \<Rightarrow> u8" where
  "my_tolower c = (if c > 64 \<and> c < 91 then c + 32 else c)"

text \<open>C strings, ended by the end of the list or a zero; characters are unsigned on this machine.\<close>

fun strcasecmp :: "bytes \<Rightarrow> bytes \<Rightarrow> int" where
  "strcasecmp [] [] = 0"
| "strcasecmp [] (c # _) = 0 - uint (my_tolower c)"
| "strcasecmp (c # _) [] = uint (my_tolower c)"
| "strcasecmp (c # cs) (d # ds) =
     (if my_tolower c \<noteq> my_tolower d then uint (my_tolower c) - uint (my_tolower d)
      else if c = 0 then 0 else strcasecmp cs ds)"

definition opening_bnr :: bytes where "opening_bnr = str_bytes ''opening.bnr''"

definition mem_be32 :: "(u32 \<Rightarrow> u8) \<Rightarrow> u32 \<Rightarrow> u32" where
  "mem_be32 m a = be32 (map m [a, a + 1, a + 2, a + 3]) 0"

text \<open>The string at an address, as far as a comparison with eleven characters can look.\<close>

definition mem_string :: "(u32 \<Rightarrow> u8) \<Rightarrow> u32 \<Rightarrow> bytes" where
  "mem_string m a = takeWhile (\<lambda>c. c \<noteq> 0) (map (\<lambda>i. m (a + of_nat i)) [0..<12])"

text \<open>\<open>filetype\<close> is a one-bit field, on this machine the most significant bit of its byte.\<close>

definition fst_filetype :: "(u32 \<Rightarrow> u8) \<Rightarrow> u32 \<Rightarrow> u8" where
  "fst_filetype m p = drop_bit 7 (m p)"

definition GET_OFFSET :: "(u32 \<Rightarrow> u8) \<Rightarrow> u32 \<Rightarrow> u32" where
  "GET_OFFSET m p = push_bit 16 (ucast (m (p + 1))) OR push_bit 8 (ucast (m (p + 2))) OR ucast (m (p + 3))"

text \<open>The entries from index \<open>i\<close> on, \<open>n\<close> of them.\<close>

fun fst_search :: "(u32 \<Rightarrow> u8) \<Rightarrow> u32 \<Rightarrow> u32 \<Rightarrow> u32 \<Rightarrow> nat \<Rightarrow> u32 \<times> u32" where
  "fst_search m table strings i 0 = (0, 0)"
| "fst_search m table strings i (Suc n) =
     (let p = table + 12 * i
      in if fst_filetype m p = 0 \<and> strcasecmp (mem_string m (strings + GET_OFFSET m p)) opening_bnr = 0
         then (mem_be32 m (p + 4), mem_be32 m (p + 8)) else fst_search m table strings (i + 1) n)"

definition FST_ADDR :: u32 where "FST_ADDR = 0x81700000"

definition OSRoundUp32B :: "u32 \<Rightarrow> u32" where
  "OSRoundUp32B x = (x + 32 - 1) AND NOT (32 - 1)"

definition get_banner_offset_slow :: "'e drive \<Rightarrow> u32 \<Rightarrow> 'e info_state \<Rightarrow> ((u32 \<times> u32) \<times> 'e info_state) option" where
  "get_banner_offset_slow D fd s = do {
     let size = OSRoundUp32B (hdr_FSTSize (gi_header s));
     (r, data, e) \<leftarrow> dr_read D (gi_env s) FST_ADDR size (ucast (hdr_FSTOffset (gi_header s))) fd;
     let s = s\<lparr>gi_env := e, gi_ram := store_bytes FST_ADDR data (gi_ram s)\<rparr>;
     let total_entries = mem_be32 (gi_ram s) (FST_ADDR + 8);
     let string_table = FST_ADDR + 12 * total_entries;
     if string_table < 0x81700000 \<or> string_table > 0x81800000 then Some ((0, 0), s)
     else Some (fst_search (gi_ram s) FST_ADDR string_table 1 (unat total_entries - 1), s)
   }"

section \<open>Recognising a game\<close>

definition game_of :: "bytes \<Rightarrow> u32 \<Rightarrow> u32 \<Rightarrow> game_info" where
  "game_of header magic bnr_offset =
     \<lparr>gi_valid = True, gi_game_id = take 6 header, gi_disc_num = hdr_DiscID header, gi_disc_ver = hdr_Version header,
      gi_bnr_type = (if magic = BANNER_MAGIC_2 then 1 else 0), gi_bnr_offset = bnr_offset, gi_dol_offset = hdr_DOLOffset header,
      gi_fst_offset = hdr_FSTOffset header, gi_fst_size = hdr_FSTSize header, gi_max_fst_size = hdr_MaxFSTSize header\<rparr>"

text \<open>A banner was found: the file goes to the caller if it asked for it, and is closed otherwise.\<close>

definition hand_over :: "'e drive \<Rightarrow> bool \<Rightarrow> u32 \<Rightarrow> game_info \<Rightarrow> 'e info_state \<Rightarrow> (game_info \<times> u32 option \<times> 'e info_state) option" where
  "hand_over D keep fd info s =
     (if keep then Some (info, Some fd, s)
      else map_option (\<lambda>e. (info, None, s\<lparr>gi_env := e\<rparr>)) (dr_close D (gi_env s) fd))"

definition reject :: "'e drive \<Rightarrow> u32 \<Rightarrow> 'e info_state \<Rightarrow> (game_info \<times> u32 option \<times> 'e info_state) option" where
  "reject D fd s = map_option (\<lambda>e. (no_game, None, s\<lparr>gi_env := e\<rparr>)) (dr_close D (gi_env s) fd)"

definition is_banner :: "u32 \<Rightarrow> bool" where
  "is_banner magic \<longleftrightarrow> magic = BANNER_MAGIC_1 \<or> magic = BANNER_MAGIC_2"

text \<open>After the header: \<open>small\<close> is the address of \<open>small_buf\<close>.\<close>

definition identify_game :: "(u32 \<times> u32) list \<Rightarrow> 'e drive \<Rightarrow> bool \<Rightarrow> u32 \<Rightarrow> u32 \<Rightarrow> 'e info_state
    \<Rightarrow> (game_info \<times> u32 option \<times> 'e info_state) option" where
  "identify_game table D keep small fd s = do {
     let fast = get_banner_offset_fast table (gi_header s);
     s \<leftarrow> (if fast \<noteq> 0 then read_small D small fast fd s else Some s);
     if fast \<noteq> 0 \<and> is_banner (be32 (gi_small s) 0)
     then hand_over D keep fd (game_of (gi_header s) (be32 (gi_small s) 0) fast) s
     else if hdr_FSTSize (gi_header s) > 0x100000 then reject D fd s
     else do {
       ((offset, len), s) \<leftarrow> get_banner_offset_slow D fd s;
       s \<leftarrow> (if offset \<noteq> 0 then read_small D small offset fd s else Some s);
       if offset \<noteq> 0 \<and> is_banner (be32 (gi_small s) 0)
       then hand_over D keep fd (game_of (gi_header s) (be32 (gi_small s) 0) offset) s
       else reject D fd s
     }
   }"

text \<open>The result is the descriptor stored through \<open>out_fd\<close>, None standing for -1; \<open>keep\<close> says
  whether the caller passed a pointer.\<close>

definition get_game_info :: "(u32 \<times> u32) list \<Rightarrow> 'e drive \<Rightarrow> bool \<Rightarrow> u32 \<Rightarrow> u32 \<Rightarrow> bytes \<Rightarrow> 'e info_state
    \<Rightarrow> (game_info \<times> u32 option \<times> 'e info_state) option" where
  "get_game_info table D keep header_addr small game_path s = do {
     (ret, e) \<leftarrow> dr_open D (gi_env s) game_path FILE_ENTRY_TYPE_FILE (IPC_FILE_FLAG_DISABLECACHE OR IPC_FILE_FLAG_DISABLESPEEDEMU);
     let s = s\<lparr>gi_env := e\<rparr>;
     if ret \<noteq> 0 then Some (no_game, None, s)
     else do {
       (status, e) \<leftarrow> dr_status D (gi_env s);
       let s = s\<lparr>gi_env := e\<rparr>;
       case status of
         None \<Rightarrow> Some (no_game, None, s)
       | Some st \<Rightarrow>
           if st_result st \<noteq> 0 then reject D (ucast (st_fd st)) s
           else do {
             s \<leftarrow> read_header D header_addr (ucast (st_fd st)) s;
             identify_game table D keep small (ucast (st_fd st)) s
           }
     }
   }"

end
