(* ===== verification/QSort.thy ===== *)
theory QSort
  imports Prelude "HOL-Library.Multiset" "HOL-Library.Monad_Syntax"
begin

text \<open>
  The sort the game list is put in order with (patches/source/picolibc/qsort.c). The array is a
  list, a pointer into it an index of an element; \<open>cmp\<close> is the comparison function. The part of
  the array that is being sorted starts at \<open>a\<close> and has \<open>n\<close> elements; ranges that are still to be
  sorted are on a stack.
\<close>

section \<open>Exchanging elements\<close>

definition swap :: "nat \<Rightarrow> nat \<Rightarrow> 'a list \<Rightarrow> 'a list" where
  "swap i j xs = xs[i := xs ! j, j := xs ! i]"

definition vecswap :: "nat \<Rightarrow> nat \<Rightarrow> nat \<Rightarrow> 'a list \<Rightarrow> 'a list" where
  "vecswap i j n xs = foldl (\<lambda>xs k. swap (i + k) (j + k) xs) xs [0..<n]"

section \<open>Insertion sort\<close>

text \<open>The element at \<open>pl\<close> moves to the left, down to the start \<open>a\<close>.\<close>

fun sift :: "('a \<Rightarrow> 'a \<Rightarrow> int) \<Rightarrow> nat \<Rightarrow> nat \<Rightarrow> 'a list \<Rightarrow> 'a list" where
  "sift cmp a 0 xs = xs"
| "sift cmp a (Suc pl) xs =
     (if Suc pl > a \<and> cmp (xs ! pl) (xs ! Suc pl) > 0 then sift cmp a pl (swap (Suc pl) pl xs) else xs)"

definition insertion_sort :: "('a \<Rightarrow> 'a \<Rightarrow> int) \<Rightarrow> nat \<Rightarrow> nat \<Rightarrow> 'a list \<Rightarrow> 'a list" where
  "insertion_sort cmp a n xs = foldl (\<lambda>xs pm. sift cmp a pm xs) xs [a + 1..<a + n]"

section \<open>Partitioning\<close>

definition med3 :: "('a \<Rightarrow> 'a \<Rightarrow> int) \<Rightarrow> 'a list \<Rightarrow> nat \<Rightarrow> nat \<Rightarrow> nat \<Rightarrow> nat" where
  "med3 cmp xs a b c =
     (if cmp (xs ! a) (xs ! b) < 0
      then (if cmp (xs ! b) (xs ! c) < 0 then b else if cmp (xs ! a) (xs ! c) < 0 then c else a)
      else (if cmp (xs ! b) (xs ! c) > 0 then b else if cmp (xs ! a) (xs ! c) < 0 then a else c))"

definition pivot :: "('a \<Rightarrow> 'a \<Rightarrow> int) \<Rightarrow> nat \<Rightarrow> nat \<Rightarrow> 'a list \<Rightarrow> nat" where
  "pivot cmp a n xs =
     (let pm = a + n div 2
      in if n > 7
         then let pl = a; pn = a + (n - 1);
                  (pl, pm, pn) =
                    (if n > 40
                     then let d = n div 8
                          in (med3 cmp xs pl (pl + d) (pl + 2 * d), med3 cmp xs (pm - d) pm (pm + d),
                              med3 cmp xs (pn - 2 * d) (pn - d) pn)
                     else (pl, pm, pn))
              in med3 cmp xs pl pm pn
         else pm)"

record 'a part =
  arr :: "'a list"
  pa :: nat
  pb :: nat
  pc :: nat
  pd :: nat
  swap_cnt :: bool

function scan_left :: "('a \<Rightarrow> 'a \<Rightarrow> int) \<Rightarrow> nat \<Rightarrow> 'a part \<Rightarrow> 'a part" where
  "scan_left cmp a s =
     (if pb s \<le> pc s \<and> cmp (arr s ! pb s) (arr s ! a) \<le> 0
      then scan_left cmp a
        (if cmp (arr s ! pb s) (arr s ! a) = 0
         then s\<lparr>arr := swap (pa s) (pb s) (arr s), swap_cnt := True, pa := pa s + 1, pb := pb s + 1\<rparr>
         else s\<lparr>pb := pb s + 1\<rparr>)
      else s)"
  by pat_completeness auto

termination by (relation "measure (\<lambda>(cmp, a, s). pc s + 1 - pb s)") auto

text \<open>The first conjunct below on \<open>pb\<close> always holds, as \<open>pb\<close> starts behind the pivot; with it the index
  \<open>pc\<close> is never taken below 0.\<close>

function scan_right :: "('a \<Rightarrow> 'a \<Rightarrow> int) \<Rightarrow> nat \<Rightarrow> 'a part \<Rightarrow> 'a part" where
  "scan_right cmp a s =
     (if pb s \<le> pc s \<and> 0 < pb s \<and> cmp (arr s ! pc s) (arr s ! a) \<ge> 0
      then scan_right cmp a
        (if cmp (arr s ! pc s) (arr s ! a) = 0
         then s\<lparr>arr := swap (pc s) (pd s) (arr s), swap_cnt := True, pd := pd s - 1, pc := pc s - 1\<rparr>
         else s\<lparr>pc := pc s - 1\<rparr>)
      else s)"
  by pat_completeness auto

termination by (relation "measure (\<lambda>(cmp, a, s). pc s + 1 - pb s)") auto

declare scan_left.simps [simp del] scan_right.simps [simp del]

lemma scan_left_bounds: "pb s \<le> pb (scan_left cmp a s) \<and> pc (scan_left cmp a s) = pc s"
  by (induction cmp a s rule: scan_left.induct) (subst (1 2) scan_left.simps, force)

lemma scan_right_bounds: "pb (scan_right cmp a s) = pb s \<and> pc (scan_right cmp a s) \<le> pc s"
  by (induction cmp a s rule: scan_right.induct) (subst (1 2) scan_right.simps, force)

function partition :: "('a \<Rightarrow> 'a \<Rightarrow> int) \<Rightarrow> nat \<Rightarrow> 'a part \<Rightarrow> 'a part" where
  "partition cmp a s =
     (let s = scan_right cmp a (scan_left cmp a s)
      in if pb s > pc s then s
         else partition cmp a (s\<lparr>arr := swap (pb s) (pc s) (arr s), swap_cnt := True, pb := pb s + 1, pc := pc s - 1\<rparr>))"
  by pat_completeness auto

termination
proof (relation "measure (\<lambda>(cmp, a, s). pc s + 1 - pb s)")
  fix cmp :: "'a \<Rightarrow> 'a \<Rightarrow> int" and a s x
  assume x: "x = scan_right cmp a (scan_left cmp a s)" and le: "\<not> pc x < pb x"
  then show "((cmp, a, x\<lparr>arr := swap (pb x) (pc x) (arr x), swap_cnt := True, pb := pb x + 1, pc := pc x - 1\<rparr>), cmp, a, s)
      \<in> measure (\<lambda>(cmp, a, s). pc s + 1 - pb s)"
    using scan_left_bounds [of s cmp a] scan_right_bounds [of cmp a "scan_left cmp a s"] by (simp, linarith)
qed simp

declare partition.simps [simp del]

section \<open>The sort\<close>

definition PARAMETER_STACK_LEVELS :: nat where "PARAMETER_STACK_LEVELS = 8"

text \<open>Partitioning a range of at least 7 elements, up to the exchange that brings the elements equal to
  the pivot between the smaller and the larger ones; the sizes of these two parts.\<close>

definition split_range :: "('a \<Rightarrow> 'a \<Rightarrow> int) \<Rightarrow> nat \<Rightarrow> nat \<Rightarrow> 'a list \<Rightarrow> 'a part" where
  "split_range cmp a n xs =
     partition cmp a \<lparr>arr = swap a (pivot cmp a n xs) xs, pa = a + 1, pb = a + 1, pc = a + (n - 1), pd = a + (n - 1), swap_cnt = False\<rparr>"

definition gather :: "nat \<Rightarrow> nat \<Rightarrow> 'a part \<Rightarrow> 'a list" where
  "gather a n s =
     (let pn = a + n;
          r = min (pa s - a) (pb s - pa s);
          xs = vecswap a (pb s - r) r (arr s);
          r = min (pd s - pc s) (pn - pd s - 1)
      in vecswap (pb s) (pn - r) r xs)"

text \<open>One pass of the loop over the range of \<open>n\<close> elements from \<open>a\<close> on: the array, the larger and the
  smaller part that are left to sort. A range that was sorted by insertion leaves two empty parts.\<close>

definition qsort_step :: "('a \<Rightarrow> 'a \<Rightarrow> int) \<Rightarrow> nat \<Rightarrow> nat \<Rightarrow> 'a list \<Rightarrow> 'a list \<times> (nat \<times> nat) \<times> (nat \<times> nat)" where
  "qsort_step cmp a n xs =
     (if n < 7 then (insertion_sort cmp a n xs, (a, 0), (a, 0))
      else let s = split_range cmp a n xs
           in if \<not> swap_cnt s then (insertion_sort cmp a n (arr s), (a, 0), (a, 0))
              else let d = pb s - pa s; r = pd s - pc s; pn = a + n - r
                   in (gather a n s, if r > d then ((pn, r), (a, d)) else ((a, d), (pn, r))))"

partial_function (option) qsort_loop ::
  "('a \<Rightarrow> 'a \<Rightarrow> int) \<Rightarrow> (nat \<times> nat) list \<Rightarrow> nat \<Rightarrow> nat \<Rightarrow> 'a list \<Rightarrow> 'a list option" where
  "qsort_loop cmp parameter_stack a n xs =
     (let (xs, (a, n), (pa, r)) = qsort_step cmp a n xs
      in if r > 1 \<and> length parameter_stack < PARAMETER_STACK_LEVELS
         then qsort_loop cmp ((a, n) # parameter_stack) pa r xs
         else do {
           xs \<leftarrow> (if r > 1 then qsort_loop cmp [] pa r xs else Some xs);
           if n > 1 then qsort_loop cmp parameter_stack a n xs
           else (case parameter_stack of [] \<Rightarrow> Some xs | (a, n) # parameter_stack \<Rightarrow> qsort_loop cmp parameter_stack a n xs)
         })"

definition qsort :: "('a \<Rightarrow> 'a \<Rightarrow> int) \<Rightarrow> 'a list \<Rightarrow> 'a list option" where
  "qsort cmp xs = qsort_loop cmp [] 0 (length xs) xs"

section \<open>Partitioning is a rearrangement\<close>

definition slice :: "nat \<Rightarrow> nat \<Rightarrow> 'a list \<Rightarrow> 'a list" where
  "slice a n xs = take n (drop a xs)"

text \<open>\<open>ys\<close> is \<open>xs\<close> with the \<open>n\<close> elements from \<open>a\<close> on in another order.\<close>

definition rearr :: "nat \<Rightarrow> nat \<Rightarrow> 'a list \<Rightarrow> 'a list \<Rightarrow> bool" where
  "rearr a n xs ys \<longleftrightarrow> length ys = length xs \<and> mset (slice a n ys) = mset (slice a n xs)
     \<and> (\<forall>i<length xs. i < a \<or> a + n \<le> i \<longrightarrow> ys ! i = xs ! i)"

lemma rearr_refl [simp]: "rearr a n xs xs"
  by (simp add: rearr_def)

lemma rearr_trans [trans]: "rearr a n xs ys \<Longrightarrow> rearr a n ys zs \<Longrightarrow> rearr a n xs zs"
  by (auto simp: rearr_def)

lemma length_swap [simp]: "length (swap i j xs) = length xs"
  by (simp add: swap_def)

lemma nth_swap:
  "i < length xs \<Longrightarrow> j < length xs \<Longrightarrow> k < length xs \<Longrightarrow> swap i j xs ! k = (if k = i then xs ! j else if k = j then xs ! i else xs ! k)"
  by (auto simp: swap_def nth_list_update)

lemma slice_update: "a \<le> i \<Longrightarrow> slice a n (xs[i := x]) = (slice a n xs)[i - a := x]"
  by (simp add: slice_def drop_update_swap take_update_swap)

lemma length_slice [simp]: "a + n \<le> length xs \<Longrightarrow> length (slice a n xs) = n"
  by (simp add: slice_def)

lemma nth_slice: "a + n \<le> length xs \<Longrightarrow> i < n \<Longrightarrow> slice a n xs ! i = xs ! (a + i)"
  by (simp add: slice_def)

lemma rearr_swap:
  assumes "a \<le> i" "i < a + n" "a \<le> j" "j < a + n" "a + n \<le> length xs"
  shows "rearr a n xs (swap i j xs)"
proof -
  have "slice a n (swap i j xs) = (slice a n xs)[i - a := slice a n xs ! (j - a), j - a := slice a n xs ! (i - a)]"
    using assms by (simp add: swap_def slice_update nth_slice)
  then have "mset (slice a n (swap i j xs)) = mset (slice a n xs)"
    using mset_swap [of "j - a" "slice a n xs" "i - a"] assms by simp
  then show ?thesis using assms by (auto simp: rearr_def swap_def nth_list_update)
qed

lemma rearr_Suc:
  assumes "rearr a m xs ys" "a + Suc m \<le> length xs"
  shows "rearr a (Suc m) xs ys"
proof -
  have s: "slice a (Suc m) zs = slice a m zs @ [zs ! (a + m)]" if "length zs = length xs" for zs :: "'a list"
    using that assms(2) by (simp add: slice_def take_Suc_conv_app_nth)
  show ?thesis using assms by (simp add: rearr_def s)
qed

lemma rearr_length: "rearr a n xs ys \<Longrightarrow> length ys = length xs"
  by (simp add: rearr_def)

text \<open>The four ranges around the unexplored one, relative to the pivot at \<open>a\<close>.\<close>

definition part_inv :: "('a \<Rightarrow> 'a \<Rightarrow> int) \<Rightarrow> nat \<Rightarrow> nat \<Rightarrow> 'a list \<Rightarrow> 'a part \<Rightarrow> bool" where
  "part_inv cmp a n xs s \<longleftrightarrow> rearr a n xs (arr s) \<and> arr s ! a = xs ! a
     \<and> a < pa s \<and> pa s \<le> pb s \<and> pb s \<le> pc s + 1 \<and> pc s \<le> pd s \<and> pd s < a + n
     \<and> (\<forall>i. a < i \<and> i < pa s \<longrightarrow> cmp (arr s ! i) (xs ! a) = 0) \<and> (\<forall>i. pa s \<le> i \<and> i < pb s \<longrightarrow> cmp (arr s ! i) (xs ! a) < 0)
     \<and> (\<forall>i. pc s < i \<and> i \<le> pd s \<longrightarrow> cmp (arr s ! i) (xs ! a) > 0) \<and> (\<forall>i. pd s < i \<and> i < a + n \<longrightarrow> cmp (arr s ! i) (xs ! a) = 0)"

lemma scan_left_inv:
  assumes "part_inv cmp a n xs s" "a + n \<le> length xs"
  shows "part_inv cmp a n xs (scan_left cmp a s)
    \<and> (pb (scan_left cmp a s) \<le> pc (scan_left cmp a s) \<longrightarrow> cmp (arr (scan_left cmp a s) ! pb (scan_left cmp a s)) (xs ! a) > 0)"
  using assms
proof (induction cmp a s rule: scan_left.induct)
  case (1 cmp a s)
  have pv: "arr s ! a = xs ! a" using "1.prems"(1) by (simp add: part_inv_def)
  show ?case
  proof (cases "pb s \<le> pc s \<and> cmp (arr s ! pb s) (arr s ! a) \<le> 0")
    case False
    then show ?thesis using "1.prems" pv by (subst (1 2 3 4 5) scan_left.simps) (auto simp: not_le)
  next
    case True
    let ?t = "if cmp (arr s ! pb s) (arr s ! a) = 0
         then s\<lparr>arr := swap (pa s) (pb s) (arr s), swap_cnt := True, pa := pa s + 1, pb := pb s + 1\<rparr>
         else s\<lparr>pb := pb s + 1\<rparr>"
    have r: "scan_left cmp a s = scan_left cmp a ?t" using True by (subst scan_left.simps) simp
    have b: "a < pa s" "pa s \<le> pb s" "pb s \<le> pc s" "pc s \<le> pd s" "pd s < a + n" "length (arr s) = length xs"
      using "1.prems"(1) True by (auto simp: part_inv_def rearr_def)
    have "part_inv cmp a n xs ?t"
    proof (cases "cmp (arr s ! pb s) (arr s ! a) = 0")
      case e: True
      have "rearr a n xs (swap (pa s) (pb s) (arr s))"
        using rearr_trans [of a n xs "arr s"] rearr_swap [of a "pa s" n "pb s" "arr s"] "1.prems" b by (auto simp: part_inv_def)
      then show ?thesis using "1.prems" b e pv by (auto simp: part_inv_def nth_swap)
    next
      case False
      then show ?thesis using "1.prems"(1) True b pv by (auto simp: part_inv_def less_Suc_eq)
    qed
    then show ?thesis unfolding r using "1.IH" [OF True] "1.prems"(2) by blast
  qed
qed

lemma scan_right_inv:
  assumes "part_inv cmp a n xs s" "a + n \<le> length xs" "pb s \<le> pc s \<longrightarrow> cmp (arr s ! pb s) (xs ! a) > 0"
  defines "t \<equiv> scan_right cmp a s"
  shows "part_inv cmp a n xs t \<and> (pb t \<le> pc t \<longrightarrow> pb t < pc t \<and> cmp (arr t ! pb t) (xs ! a) > 0 \<and> cmp (arr t ! pc t) (xs ! a) < 0)"
  using assms(1-3) unfolding t_def
proof (induction cmp a s rule: scan_right.induct)
  case (1 cmp a s)
  have pv: "arr s ! a = xs ! a" using "1.prems"(1) by (simp add: part_inv_def)
  have p0: "0 < pb s" using "1.prems"(1) by (simp add: part_inv_def)
  show ?case
  proof (cases "pb s \<le> pc s \<and> 0 < pb s \<and> cmp (arr s ! pc s) (arr s ! a) \<ge> 0")
    case False
    then have "scan_right cmp a s = s" by (subst scan_right.simps) (simp only: False if_False)
    moreover have "pb s \<le> pc s \<Longrightarrow> pb s \<noteq> pc s" using False p0 pv "1.prems"(3) by auto
    ultimately show ?thesis using "1.prems" pv p0 False by (auto simp: not_le)
  next
    case True
    let ?t = "if cmp (arr s ! pc s) (arr s ! a) = 0
         then s\<lparr>arr := swap (pc s) (pd s) (arr s), swap_cnt := True, pd := pd s - 1, pc := pc s - 1\<rparr>
         else s\<lparr>pc := pc s - 1\<rparr>"
    have r: "scan_right cmp a s = scan_right cmp a ?t" using True by (subst scan_right.simps) simp
    have b: "a < pa s" "pa s \<le> pb s" "pb s \<le> pc s" "pc s \<le> pd s" "pd s < a + n" "length (arr s) = length xs"
      using "1.prems"(1) True by (auto simp: part_inv_def rearr_def)
    have "part_inv cmp a n xs ?t"
    proof (cases "cmp (arr s ! pc s) (arr s ! a) = 0")
      case e: True
      have "rearr a n xs (swap (pc s) (pd s) (arr s))"
        using rearr_trans [of a n xs "arr s"] rearr_swap [of a "pc s" n "pd s" "arr s"] "1.prems" b by (auto simp: part_inv_def)
      moreover have "0 < cmp (swap (pc s) (pd s) (arr s) ! i) (xs ! a)" if i: "pc s - 1 < i" "i \<le> pd s - 1" for i
      proof (cases "i = pc s")
        case True
        then have "pc s < pd s" using i b p0 by linarith
        then show ?thesis using True "1.prems"(1,2) b by (simp add: nth_swap part_inv_def)
      next
        case False
        then have "pc s < i" "i < pd s" using i b p0 by linarith+
        then show ?thesis using "1.prems"(1,2) b by (simp add: nth_swap part_inv_def)
      qed
      moreover have "cmp (swap (pc s) (pd s) (arr s) ! i) (xs ! a) = 0" if i: "pd s - 1 < i" "i < a + n" for i
      proof (cases "i = pd s")
        case True
        then show ?thesis using e pv "1.prems"(1,2) b by (auto simp: nth_swap part_inv_def)
      next
        case False
        then have "pd s < i" using i b p0 by linarith
        then show ?thesis using i "1.prems"(1,2) b by (simp add: nth_swap part_inv_def)
      qed
      ultimately show ?thesis using "1.prems"(1,2) b p0 e pv by (auto simp: part_inv_def nth_swap)
    next
      case False
      then have gt: "0 < cmp (arr s ! pc s) (xs ! a)" using True pv by auto
      have "0 < cmp (arr s ! i) (xs ! a)" if i: "pc s - 1 < i" "i \<le> pd s" for i
      proof (cases "i = pc s")
        case False
        then have "pc s < i" using i by linarith
        then show ?thesis using i "1.prems"(1) by (auto simp: part_inv_def)
      qed (use gt in simp)
      then show ?thesis using "1.prems"(1) True b pv False by (auto simp: part_inv_def)
    qed
    moreover have "pb ?t \<le> pc ?t \<longrightarrow> cmp (arr ?t ! pb ?t) (xs ! a) > 0"
      using "1.prems"(2,3) b by (auto simp: nth_swap)
    ultimately show ?thesis unfolding r using "1.IH" [OF True] "1.prems"(2) by blast
  qed
qed

lemma partition_inv:
  assumes "part_inv cmp a n xs s" "a + n \<le> length xs"
  shows "part_inv cmp a n xs (partition cmp a s) \<and> pc (partition cmp a s) < pb (partition cmp a s)"
  using assms
proof (induction cmp a s rule: partition.induct)
  case (1 cmp a s)
  define t where "t = scan_right cmp a (scan_left cmp a s)"
  have t: "part_inv cmp a n xs t \<and> (pb t \<le> pc t \<longrightarrow> pb t < pc t \<and> cmp (arr t ! pb t) (xs ! a) > 0 \<and> cmp (arr t ! pc t) (xs ! a) < 0)"
    unfolding t_def using scan_left_inv [OF "1.prems"] scan_right_inv [OF _ "1.prems"(2)] by blast
  show ?case
  proof (cases "pb t > pc t")
    case True
    then have "partition cmp a s = t" by (subst partition.simps) (simp add: t_def [symmetric] Let_def)
    then show ?thesis using t True by simp
  next
    case False
    let ?u = "t\<lparr>arr := swap (pb t) (pc t) (arr t), swap_cnt := True, pb := pb t + 1, pc := pc t - 1\<rparr>"
    have r: "partition cmp a s = partition cmp a ?u"
      using False by (subst partition.simps) (simp add: t_def [symmetric] Let_def)
    have b: "a < pa t" "pa t \<le> pb t" "pb t < pc t" "pc t \<le> pd t" "pd t < a + n" "length (arr t) = length xs"
      using t False by (auto simp: part_inv_def rearr_def)
    have "rearr a n xs (swap (pb t) (pc t) (arr t))"
      using rearr_trans [of a n xs "arr t"] rearr_swap [of a "pb t" n "pc t" "arr t"] "1.prems" t b by (auto simp: part_inv_def)
    then have "part_inv cmp a n xs ?u"
      using t False b "1.prems"(2) by (auto simp: part_inv_def nth_swap less_Suc_eq)
    then show ?thesis unfolding r using "1.IH" [OF t_def] False "1.prems"(2) by blast
  qed
qed

section \<open>Insertion sort sorts\<close>

text \<open>What a comparison function has to promise: it orders any two elements one way, and is transitive.\<close>

locale comparison =
  fixes cmp :: "'a \<Rightarrow> 'a \<Rightarrow> int"
  assumes cmp_flip: "cmp x y < 0 \<longleftrightarrow> cmp y x > 0"
    and cmp_trans: "cmp x y \<le> 0 \<Longrightarrow> cmp y z \<le> 0 \<Longrightarrow> cmp x z \<le> 0"
begin

definition ascending :: "nat \<Rightarrow> nat \<Rightarrow> 'a list \<Rightarrow> bool" where
  "ascending a n xs \<longleftrightarrow> (\<forall>i j. a \<le> i \<and> i < j \<and> j < a + n \<longrightarrow> cmp (xs ! i) (xs ! j) \<le> 0)"

lemma cmp_ge: "cmp x y \<ge> 0 \<longleftrightarrow> cmp y x \<le> 0"
  using cmp_flip [of x y] cmp_flip [of y x] by linarith

lemma sift_ok:
  assumes "a \<le> pl" "pl < a + n" "a + n \<le> length xs" "\<forall>i j. a \<le> i \<and> i < j \<and> j < a + n \<and> j \<noteq> pl \<longrightarrow> cmp (xs ! i) (xs ! j) \<le> 0"
  shows "rearr a n xs (sift cmp a pl xs) \<and> ascending a n (sift cmp a pl xs)"
  using assms
proof (induction pl arbitrary: xs)
  case 0
  then show ?case by (auto simp: ascending_def)
next
  case (Suc pl)
  show ?case
  proof (cases "Suc pl > a \<and> cmp (xs ! pl) (xs ! Suc pl) > 0")
    case True
    let ?ys = "swap (Suc pl) pl xs"
    have y: "?ys ! k = (if k = Suc pl then xs ! pl else if k = pl then xs ! Suc pl else xs ! k)" if "k < a + n" for k
      using Suc.prems that by (simp add: nth_swap)
    have lt: "cmp (xs ! Suc pl) (xs ! pl) \<le> 0" using True cmp_flip [of "xs ! Suc pl" "xs ! pl"] by simp
    have "cmp (?ys ! i) (?ys ! j) \<le> 0" if ij: "a \<le> i" "i < j" "j < a + n" "j \<noteq> pl" for i j
    proof -
      have i: "i < a + n" using ij by simp
      consider "j = Suc pl" "i = pl" | "j = Suc pl" "i < pl" | "j > Suc pl" | "j < pl" using ij(2,4) by linarith
      then show ?thesis
      proof cases
        case 2
        then have "cmp (xs ! i) (xs ! pl) \<le> 0" using Suc.prems(4) ij True by auto
        then show ?thesis using 2 y [OF i] y [OF ij(3)] by simp
      next
        case 3
        then have "cmp (xs ! k) (xs ! j) \<le> 0" if "a \<le> k" "k < j" for k using Suc.prems(4) ij that by auto
        then show ?thesis using 3 ij True y [OF i] y [OF ij(3)] by auto
      next
        case 4
        then have "cmp (xs ! i) (xs ! j) \<le> 0" using Suc.prems(4) ij by auto
        then show ?thesis using 4 ij y [OF i] y [OF ij(3)] by auto
      qed (use lt y [OF i] y [OF ij(3)] in auto)
    qed
    then have "rearr a n ?ys (sift cmp a pl ?ys) \<and> ascending a n (sift cmp a pl ?ys)"
      using Suc.IH [of ?ys] Suc.prems True by auto
    moreover have "rearr a n xs ?ys" using rearr_swap [of a "Suc pl" n pl xs] Suc.prems True by auto
    ultimately show ?thesis using True rearr_trans by auto
  next
    case False
    have "cmp (xs ! i) (xs ! Suc pl) \<le> 0" if "a \<le> i" "i < Suc pl" for i
    proof -
      have le: "cmp (xs ! pl) (xs ! Suc pl) \<le> 0" using False that by auto
      show ?thesis
      proof (cases "i = pl")
        case ne: False
        then have "cmp (xs ! i) (xs ! pl) \<le> 0" using Suc.prems(2,4) that by auto
        then show ?thesis using le cmp_trans by blast
      qed (use le in simp)
    qed
    then have "ascending a n xs" using Suc.prems(4) unfolding ascending_def by metis
    then show ?thesis using False by auto
  qed
qed

lemma insertion_sort_ok:
  assumes "a + n \<le> length xs"
  shows "rearr a n xs (insertion_sort cmp a n xs) \<and> ascending a n (insertion_sort cmp a n xs)"
proof -
  have "rearr a m xs (foldl (\<lambda>xs pm. sift cmp a pm xs) xs [a + 1..<a + m])
      \<and> ascending a m (foldl (\<lambda>xs pm. sift cmp a pm xs) xs [a + 1..<a + m])" if "m \<le> n" for m
    using that
  proof (induction m)
    case 0
    then show ?case by (simp add: ascending_def)
  next
    case (Suc m)
    let ?f = "foldl (\<lambda>xs pm. sift cmp a pm xs) xs"
    show ?case
    proof (cases m)
      case 0
      then show ?thesis by (simp add: ascending_def)
    next
      case (Suc m')
      then have e: "[a + 1..<a + Suc m] = [a + 1..<a + m] @ [a + m]" by simp
      let ?ys = "?f [a + 1..<a + m]"
      have ih: "rearr a m xs ?ys" "ascending a m ?ys" using Suc.IH \<open>Suc m \<le> n\<close> by auto
      have len: "length ?ys = length xs" using ih(1) by (rule rearr_length)
      have "rearr a (Suc m) ?ys (sift cmp a (a + m) ?ys) \<and> ascending a (Suc m) (sift cmp a (a + m) ?ys)"
      proof (rule sift_ok)
        show "\<forall>i j. a \<le> i \<and> i < j \<and> j < a + Suc m \<and> j \<noteq> a + m \<longrightarrow> cmp (?ys ! i) (?ys ! j) \<le> 0"
          using ih(2) by (auto simp: ascending_def)
      qed (use assms \<open>Suc m \<le> n\<close> len in auto)
      moreover have "rearr a (Suc m) xs ?ys" using rearr_Suc [OF ih(1)] assms \<open>Suc m \<le> n\<close> by simp
      ultimately show ?thesis unfolding e using rearr_trans by auto
    qed
  qed
  from this [of n] show ?thesis by (simp add: insertion_sort_def)
qed

end

section \<open>Exchanging ranges\<close>

lemma length_vecswap [simp]: "length (vecswap i j n xs) = length xs"
  by (induction n) (simp_all add: vecswap_def)

lemma nth_vecswap:
  assumes "i + n \<le> j" "j + n \<le> length xs" "k < length xs"
  shows "vecswap i j n xs ! k = (if i \<le> k \<and> k < i + n then xs ! (j + (k - i)) else if j \<le> k \<and> k < j + n then xs ! (i + (k - j)) else xs ! k)"
  using assms
proof (induction n arbitrary: k)
  case 0
  then show ?case by (auto simp: vecswap_def)
next
  case (Suc n)
  let ?v = "vecswap i j n xs"
  have s: "vecswap i j (Suc n) xs = swap (i + n) (j + n) ?v" by (simp add: vecswap_def)
  have ih: "?v ! k = (if i \<le> k \<and> k < i + n then xs ! (j + (k - i)) else if j \<le> k \<and> k < j + n then xs ! (i + (k - j)) else xs ! k)"
    if "k < length xs" for k using Suc that by simp
  have e: "?v ! (i + n) = xs ! (i + n)" "?v ! (j + n) = xs ! (j + n)"
    using Suc.prems ih [of "i + n"] ih [of "j + n"] by simp_all
  show ?case unfolding s using Suc.prems ih [OF Suc.prems(3)] e by (auto simp: nth_swap)
qed

lemma rearr_vecswap:
  assumes "a \<le> i" "i + m \<le> j" "j + m \<le> a + n" "a + n \<le> length xs"
  shows "rearr a n xs (vecswap i j m xs)"
  using assms
proof (induction m)
  case (Suc m)
  have "rearr a n (vecswap i j m xs) (swap (i + m) (j + m) (vecswap i j m xs))"
    using Suc.prems by (intro rearr_swap) auto
  then show ?case using Suc rearr_trans by (fastforce simp: vecswap_def)
qed (simp add: vecswap_def)

text \<open>Smaller elements first, then those equal to the pivot, then larger ones.\<close>

definition three_parts :: "('a \<Rightarrow> 'a \<Rightarrow> int) \<Rightarrow> 'a \<Rightarrow> nat \<Rightarrow> nat \<Rightarrow> nat \<Rightarrow> nat \<Rightarrow> 'a list \<Rightarrow> bool" where
  "three_parts cmp v a d r n ys \<longleftrightarrow> (\<forall>i. a \<le> i \<and> i < a + d \<longrightarrow> cmp (ys ! i) v < 0)
     \<and> (\<forall>i. a + d \<le> i \<and> i < a + n - r \<longrightarrow> cmp (ys ! i) v = 0) \<and> (\<forall>i. a + n - r \<le> i \<and> i < a + n \<longrightarrow> cmp (ys ! i) v > 0)"

lemma gather_left:
  assumes "a \<le> p" "p \<le> q" "q \<le> length xs" "i < q" "a \<le> i"
    "\<forall>i. a \<le> i \<and> i < p \<longrightarrow> P (xs ! i)" "\<forall>i. p \<le> i \<and> i < q \<longrightarrow> Q (xs ! i)"
  defines "r \<equiv> min (p - a) (q - p)"
  shows "if i < a + (q - p) then Q (vecswap a (q - r) r xs ! i) else P (vecswap a (q - r) r xs ! i)"
proof -
  have r: "a + r \<le> q - r" "q - r + r = q" "i < length xs" using assms(1-5) by (auto simp: r_def min_def)
  have v: "vecswap a (q - r) r xs ! i = (if i < a + r then xs ! (q - r + (i - a)) else if q - r \<le> i then xs ! (a + (i - (q - r))) else xs ! i)"
    using nth_vecswap [of a r "q - r" xs i] r assms(1-5) by simp
  show ?thesis
  proof (cases "p - a \<le> q - p")
    case True
    then have re: "r = p - a" by (simp add: r_def)
    then have "q - r = a + (q - p)" using assms(1,2) True by linarith
    moreover have "i < a + r \<Longrightarrow> p \<le> q - r + (i - a) \<and> q - r + (i - a) < q" using re True assms(1-5) by linarith
    moreover have "q - r \<le> i \<Longrightarrow> a \<le> a + (i - (q - r)) \<and> a + (i - (q - r)) < p" using re True assms(1-5) by linarith
    moreover have "i < a + r \<Longrightarrow> i < a + (q - p)" using re True by linarith
    moreover have "i < q - r \<longleftrightarrow> i < a + (q - p)" using re True assms(1,2) by linarith
    ultimately show ?thesis unfolding v using assms(1-7) re by (auto simp: not_less)
  next
    case False
    then have re: "r = q - p" "q - r = p" using assms(1,2) by (auto simp: r_def)
    moreover have "i < a + r \<Longrightarrow> p \<le> p + (i - a) \<and> p + (i - a) < q" using re False assms(1-5) by linarith
    moreover have "p \<le> i \<Longrightarrow> a \<le> a + (i - p) \<and> a + (i - p) < p" using re False assms(1-5) by linarith
    ultimately show ?thesis unfolding v using assms(1-7) False by auto
  qed
qed

lemma gather_right:
  assumes "p \<le> q" "q \<le> m" "m \<le> length xs" "i < m" "p \<le> i"
    "\<forall>i. p \<le> i \<and> i < q \<longrightarrow> P (xs ! i)" "\<forall>i. q \<le> i \<and> i < m \<longrightarrow> Q (xs ! i)"
  defines "r \<equiv> min (q - p) (m - q)"
  shows "if m - (q - p) \<le> i then P (vecswap p (m - r) r xs ! i) else Q (vecswap p (m - r) r xs ! i)"
  using gather_left [of p q m xs i P Q] assms by (auto simp: not_less not_le split: if_splits)

section \<open>The three parts of a pass\<close>

lemma med3_cases: "med3 cmp xs i j k \<in> {i, j, k}"
  by (simp add: med3_def)

lemma med3_mem: "i \<in> S \<Longrightarrow> j \<in> S \<Longrightarrow> k \<in> S \<Longrightarrow> med3 cmp xs i j k \<in> S"
  by (simp add: med3_def)

lemma pivot_range:
  assumes "7 \<le> n"
  shows "pivot cmp a n xs \<in> {a..<a + n}"
proof -
  have m: "a + n div 2 \<in> {a..<a + n}" "a \<in> {a..<a + n}" "a + (n - 1) \<in> {a..<a + n}" using assms by auto
  show ?thesis
  proof (cases "n > 40")
    case True
    have "a + n div 8 \<in> {a..<a + n}" "a + 2 * (n div 8) \<in> {a..<a + n}" "a + n div 2 - n div 8 \<in> {a..<a + n}"
      "a + n div 2 + n div 8 \<in> {a..<a + n}" "a + (n - 1) - 2 * (n div 8) \<in> {a..<a + n}" "a + (n - 1) - n div 8 \<in> {a..<a + n}"
      using True unfolding atLeastLessThan_iff by linarith+
    then show ?thesis using True m unfolding pivot_def Let_def by (simp only: if_True prod.case split: if_splits) (intro impI conjI med3_mem TrueI; assumption)
  next
    case False
    then show ?thesis using m unfolding pivot_def Let_def by (simp only: if_False prod.case split: if_splits) (intro impI conjI med3_mem TrueI; assumption)
  qed
qed

context comparison
begin

lemma cmp_refl: "cmp x x = 0"
  using cmp_flip [of x x] by linarith

lemma split_range_ok:
  assumes "7 \<le> n" "a + n \<le> length xs"
  shows "\<exists>ys. rearr a n xs ys \<and> part_inv cmp a n ys (split_range cmp a n xs) \<and> pb (split_range cmp a n xs) = pc (split_range cmp a n xs) + 1"
proof -
  let ?ys = "swap a (pivot cmp a n xs) xs"
  let ?s = "\<lparr>arr = ?ys, pa = a + 1, pb = a + 1, pc = a + (n - 1), pd = a + (n - 1), swap_cnt = False\<rparr>"
  have "rearr a n xs ?ys" using pivot_range [OF assms(1), of cmp a xs] assms by (intro rearr_swap) auto
  moreover have "part_inv cmp a n ?ys ?s" using assms(1) by (auto simp: part_inv_def)
  then have "part_inv cmp a n ?ys (partition cmp a ?s) \<and> pc (partition cmp a ?s) < pb (partition cmp a ?s)"
    using partition_inv assms(2) by (metis length_swap)
  moreover from this have "pb (partition cmp a ?s) = pc (partition cmp a ?s) + 1" unfolding part_inv_def by linarith
  ultimately show ?thesis unfolding split_range_def by blast
qed

lemma gather_ok:
  assumes "part_inv cmp a n ys s" "pb s = pc s + 1" "a + n \<le> length ys"
  shows "rearr a n ys (gather a n s) \<and> three_parts cmp (ys ! a) a (pb s - pa s) (pd s - pc s) n (gather a n s)
    \<and> (pb s - pa s) + (pd s - pc s) < n"
proof -
  define u where "u = vecswap a (pb s - min (pa s - a) (pb s - pa s)) (min (pa s - a) (pb s - pa s)) (arr s)"
  define r where "r = min (pd s - pc s) (a + n - pd s - 1)"
  have g: "gather a n s = vecswap (pb s) (a + n - r) r u" by (simp add: gather_def u_def r_def Let_def)
  have b: "a < pa s" "pa s \<le> pb s" "pc s \<le> pd s" "pd s < a + n" "length (arr s) = length ys"
    and r0: "rearr a n ys (arr s)" and pv: "arr s ! a = ys ! a"
    using assms(1) by (auto simp: part_inv_def rearr_def)
  have E: "\<forall>i. a \<le> i \<and> i < pa s \<longrightarrow> cmp (arr s ! i) (ys ! a) = 0"
  proof (intro allI impI)
    fix i assume "a \<le> i \<and> i < pa s"
    then show "cmp (arr s ! i) (ys ! a) = 0" using assms(1) cmp_refl pv by (cases "i = a") (auto simp: part_inv_def)
  qed
  have L: "\<forall>i. pa s \<le> i \<and> i < pb s \<longrightarrow> cmp (arr s ! i) (ys ! a) < 0" using assms(1) by (simp add: part_inv_def)
  have ub: "u ! i = arr s ! i" if "pb s \<le> i" "i < length ys" for i
    unfolding u_def using that b by (subst nth_vecswap) auto
  have ul: "if i < a + (pb s - pa s) then cmp (u ! i) (ys ! a) < 0 else cmp (u ! i) (ys ! a) = 0" if "a \<le> i" "i < pb s" for i
    unfolding u_def using gather_left [of a "pa s" "pb s" "arr s" i "\<lambda>x. cmp x (ys ! a) = 0" "\<lambda>x. cmp x (ys ! a) < 0"] that b assms(2,3) E L by simp
  have G: "\<forall>i. pb s \<le> i \<and> i < pd s + 1 \<longrightarrow> cmp (u ! i) (ys ! a) > 0"
    using assms b ub by (auto simp: part_inv_def)
  have H: "\<forall>i. pd s + 1 \<le> i \<and> i < a + n \<longrightarrow> cmp (u ! i) (ys ! a) = 0"
    using assms b ub by (auto simp: part_inv_def)
  have len: "length u = length ys" using b by (simp add: u_def)
  have r: "r = min (pd s + 1 - pb s) (a + n - (pd s + 1))" using assms(2) b by (simp add: r_def)
  have fit: "pb s + r \<le> a + n - r" "r \<le> a + n" using assms(2) b unfolding r by linarith+
  have R: "if a + n - (pd s - pc s) \<le> i then cmp (gather a n s ! i) (ys ! a) > 0 else cmp (gather a n s ! i) (ys ! a) = 0"
    if "pb s \<le> i" "i < a + n" for i
    using gather_right [of "pb s" "pd s + 1" "a + n" u i "\<lambda>x. cmp x (ys ! a) > 0" "\<lambda>x. cmp x (ys ! a) = 0"] that b assms(2,3) G H len
    unfolding g r by simp
  have lb: "gather a n s ! i = u ! i" if "i < pb s" for i
    unfolding g using that fit assms(3) len by (subst nth_vecswap) auto
  have "rearr a n (arr s) u" unfolding u_def using b assms(2,3) by (intro rearr_vecswap) auto
  moreover have "rearr a n u (gather a n s)" unfolding g r using b assms(2,3) len by (intro rearr_vecswap) auto
  ultimately have "rearr a n ys (gather a n s)" using r0 rearr_trans by blast
  moreover have "cmp (gather a n s ! i) (ys ! a) < 0" if "a \<le> i" "i < a + (pb s - pa s)" for i
  proof -
    have "i < pb s" using that b by linarith
    then show ?thesis using ul [of i] that lb by simp
  qed
  moreover have "cmp (gather a n s ! i) (ys ! a) = 0" if "a + (pb s - pa s) \<le> i" "i < a + n - (pd s - pc s)" for i
  proof (cases "i < pb s")
    case True
    then show ?thesis using ul [of i] that lb by simp
  next
    case False
    then show ?thesis using R [of i] that by (auto split: if_splits)
  qed
  moreover have "cmp (gather a n s ! i) (ys ! a) > 0" if "a + n - (pd s - pc s) \<le> i" "i < a + n" for i
  proof -
    have "pb s \<le> i" using that b assms(2) by linarith
    then show ?thesis using R [of i] that by (auto split: if_splits)
  qed
  moreover have "(pb s - pa s) + (pd s - pc s) < n" using b assms(2) by linarith
  ultimately show ?thesis by (auto simp: three_parts_def)
qed

end

section \<open>Ranges and their order\<close>

text \<open>Ranges that do not overlap and are inside the array; how many elements they have at most left to look at.\<close>

definition ranges :: "nat \<Rightarrow> (nat \<times> nat) list \<Rightarrow> bool" where
  "ranges l R \<longleftrightarrow> (\<forall>(a, n) \<in> set R. a + n \<le> l) \<and> sorted_wrt (\<lambda>(a, n) (b, m). a + n \<le> b \<or> b + m \<le> a) R"

definition work :: "(nat \<times> nat) list \<Rightarrow> nat" where
  "work R = sum_list (map (\<lambda>(a, n). 2 * n + 1) R)"

lemma slice_cong: "length ys = length xs \<Longrightarrow> a + n \<le> length xs \<Longrightarrow> (\<And>i. a \<le> i \<Longrightarrow> i < a + n \<Longrightarrow> ys ! i = xs ! i) \<Longrightarrow> slice a n ys = slice a n xs"
  by (intro nth_equalityI) (auto simp: nth_slice)

lemma slice_append: "a + (m + n) \<le> length xs \<Longrightarrow> slice a (m + n) xs = slice a m xs @ slice (a + m) n xs"
  by (simp add: slice_def take_add add.commute)

lemma slice_mem: "i < length xs \<Longrightarrow> a \<le> i \<Longrightarrow> i < a + n \<Longrightarrow> a + n \<le> length xs \<Longrightarrow> xs ! i \<in> set (slice a n xs)"
  using nth_slice [of a n xs "i - a"] nth_mem [of "i - a" "slice a n xs"] by simp

lemma slice_memD: "x \<in> set (slice a n xs) \<Longrightarrow> a + n \<le> length xs \<Longrightarrow> \<exists>i. a \<le> i \<and> i < a + n \<and> x = xs ! i"
  by (auto simp: in_set_conv_nth nth_slice) (metis le_add1 add_less_cancel_left)

lemma same_mset_mem:
  assumes "mset (slice a n ys) = mset (slice a n xs)" "a + n \<le> length xs" "length ys = length xs" "a \<le> i" "i < a + n"
  shows "\<exists>j. a \<le> j \<and> j < a + n \<and> ys ! i = xs ! j"
proof -
  have "set (slice a n ys) = set (slice a n xs)" using assms(1) by (metis set_mset_mset)
  then show ?thesis using slice_mem [of i ys a n] assms slice_memD [of "ys ! i" a n xs] by auto
qed

context comparison
begin

text \<open>\<open>ys\<close> is \<open>xs\<close> with every one of the ranges sorted.\<close>

definition in_order :: "(nat \<times> nat) list \<Rightarrow> 'a list \<Rightarrow> 'a list \<Rightarrow> bool" where
  "in_order R xs ys \<longleftrightarrow> length ys = length xs
     \<and> (\<forall>(a, n) \<in> set R. mset (slice a n ys) = mset (slice a n xs) \<and> ascending a n ys)
     \<and> (\<forall>i<length xs. (\<forall>(a, n) \<in> set R. i < a \<or> a + n \<le> i) \<longrightarrow> ys ! i = xs ! i)"

lemma in_order_Nil: "in_order [] xs ys \<longleftrightarrow> ys = xs"
  by (auto simp: in_order_def intro: nth_equalityI)

lemma ascending_cong: "(\<And>i. a \<le> i \<Longrightarrow> i < a + n \<Longrightarrow> ys ! i = xs ! i) \<Longrightarrow> ascending a n xs \<Longrightarrow> ascending a n ys"
  by (auto simp: ascending_def)

lemma ascending_small: "n \<le> 1 \<Longrightarrow> ascending a n xs"
  by (auto simp: ascending_def)

text \<open>The ranges may be sorted one after the other.\<close>

lemma in_order_Cons:
  assumes "rearr a n xs ys" "ascending a n ys" "in_order R ys zs" "ranges (length xs) ((a, n) # R)"
  shows "in_order ((a, n) # R) xs zs"
proof -
  have len: "length ys = length xs" "length zs = length xs" using assms by (auto simp: rearr_def in_order_def)
  have an: "a + n \<le> length xs" using assms(4) by (simp add: ranges_def)
  have out: "\<forall>(b, m) \<in> set R. i < b \<or> b + m \<le> i" if "a \<le> i" "i < a + n" for i
    using assms(4) that by (fastforce simp: ranges_def)
  have z: "zs ! i = ys ! i" if "a \<le> i" "i < a + n" for i
    using assms(3) out [OF that] that an len by (simp add: in_order_def)
  have "slice a n zs = slice a n ys" using z an len by (intro slice_cong) auto
  then have 1: "mset (slice a n zs) = mset (slice a n xs)" using assms(1) by (simp add: rearr_def)
  have 2: "ascending a n zs" using ascending_cong [OF z assms(2)] by blast
  have 3: "mset (slice b m zs) = mset (slice b m xs) \<and> ascending b m zs" if "(b, m) \<in> set R" for b m
  proof -
    have "b + m \<le> length xs" "a + n \<le> b \<or> b + m \<le> a" using assms(4) that by (auto simp: ranges_def)
    then have "slice b m ys = slice b m xs" using assms(1) len by (intro slice_cong) (auto simp: rearr_def)
    then show ?thesis using assms(3) that by (auto simp: in_order_def)
  qed
  have 4: "zs ! i = xs ! i" if "i < length xs" "i < a \<or> a + n \<le> i" "\<forall>(b, m) \<in> set R. i < b \<or> b + m \<le> i" for i
  proof -
    have "zs ! i = ys ! i" using assms(3) that len by (auto simp: in_order_def)
    moreover have "ys ! i = xs ! i" using assms(1) that(1,2) by (auto simp: rearr_def)
    ultimately show ?thesis by simp
  qed
  show ?thesis unfolding in_order_def using 1 2 3 4 len by auto
qed

text \<open>Sorting the two outer ones of three parts sorts the whole.\<close>

lemma three_parts_sorted:
  assumes "three_parts cmp v a d r n xs" "d + r \<le> n" "a + n \<le> length xs" "length zs = length xs"
    "mset (slice a d zs) = mset (slice a d xs)" "ascending a d zs"
    "mset (slice (a + n - r) r zs) = mset (slice (a + n - r) r xs)" "ascending (a + n - r) r zs"
    "\<forall>i. a + d \<le> i \<and> i < a + n - r \<longrightarrow> zs ! i = xs ! i"
  shows "mset (slice a n zs) = mset (slice a n xs) \<and> ascending a n zs"
proof
  define k where "k = n - r - d"
  have n: "n = d + (k + r)" "a + n - r = a + d + k" using assms(2) by (auto simp: k_def)
  have s: "slice a n ys = slice a d ys @ slice (a + d) k ys @ slice (a + n - r) r ys" if "length ys = length xs" for ys :: "'a list"
  proof -
    have "slice a (d + (k + r)) ys = slice a d ys @ slice (a + d) (k + r) ys" using that n assms(3) by (intro slice_append) simp
    moreover have "slice (a + d) (k + r) ys = slice (a + d) k ys @ slice (a + d + k) r ys" using that n assms(3) by (intro slice_append) simp
    ultimately show ?thesis using n by metis
  qed
  have "slice (a + d) k zs = slice (a + d) k xs" using assms(3,4,9) n by (intro slice_cong) auto
  then show "mset (slice a n zs) = mset (slice a n xs)" using assms(4,5,7) s by simp
  have L: "cmp (zs ! i) v < 0" if i: "a \<le> i" "i < a + d" for i
    using same_mset_mem [OF assms(5) _ assms(4) i] assms(1-3) by (auto simp: three_parts_def)
  have M: "cmp (zs ! i) v = 0" if "a + d \<le> i" "i < a + n - r" for i
    using that assms(1,9) by (simp add: three_parts_def)
  have G: "cmp (zs ! i) v > 0" if i: "a + n - r \<le> i" "i < a + n" for i
    using same_mset_mem [OF assms(7) _ assms(4) i(1)] i assms(1-3) by (auto simp: three_parts_def)
  have "cmp (zs ! i) (zs ! j) \<le> 0" if ij: "a \<le> i" "i < j" "j < a + n" for i j
  proof -
    consider "j < a + d" | "a + n - r \<le> i" | "i < a + n - r" "a + d \<le> j" by linarith
    then show ?thesis
    proof cases
      case 3
      then have "cmp (zs ! i) v \<le> 0" using L M ij by (metis less_imp_le not_le order_refl)
      moreover have "cmp (zs ! j) v \<ge> 0" using 3 G M ij by (metis less_imp_le not_le order_refl)
      ultimately show ?thesis using cmp_ge cmp_trans by blast
    qed (use assms(2,6,8) ij in \<open>auto simp: ascending_def\<close>)
  qed
  then show "ascending a n zs" by (auto simp: ascending_def)
qed

text \<open>What a pass over a range leaves: nothing, or two parts around the elements equal to the pivot.\<close>

definition left_to_sort :: "nat \<Rightarrow> nat \<Rightarrow> 'a list \<Rightarrow> nat \<times> nat \<Rightarrow> nat \<times> nat \<Rightarrow> bool" where
  "left_to_sort a n ys p q \<longleftrightarrow> ascending a n ys \<and> p = (a, 0) \<and> q = (a, 0)
     \<or> (\<exists>v d r. three_parts cmp v a d r n ys \<and> d + r < n  \<and> (p = (a, d) \<and> q = (a + n - r, r) \<or> q = (a, d) \<and> p = (a + n - r, r)))"

lemma qsort_step_ok:
  assumes "a + n \<le> length xs" "qsort_step cmp a n xs = (ys, p, q)"
  shows "rearr a n xs ys \<and> left_to_sort a n ys p q"
proof (cases "n < 7")
  case True
  then show ?thesis using assms insertion_sort_ok by (auto simp: qsort_step_def left_to_sort_def)
next
  case False
  let ?s = "split_range cmp a n xs"
  obtain zs where z: "rearr a n xs zs" "part_inv cmp a n zs ?s" "pb ?s = pc ?s + 1" using split_range_ok assms(1) False by (meson not_less)
  have len: "length zs = length xs" "length (arr ?s) = length xs" using z by (auto simp: rearr_def part_inv_def)
  show ?thesis
  proof (cases "swap_cnt ?s")
    case True
    have g: "rearr a n zs (gather a n ?s)" "three_parts cmp (zs ! a) a (pb ?s - pa ?s) (pd ?s - pc ?s) n (gather a n ?s)"
      "(pb ?s - pa ?s) + (pd ?s - pc ?s) < n"
      using gather_ok [OF z(2,3)] len assms(1) by auto
    then have "rearr a n xs (gather a n ?s)" using z(1) rearr_trans by blast
    moreover have "ys = gather a n ?s" "p = (a, pb ?s - pa ?s) \<and> q = (a + n - (pd ?s - pc ?s), pd ?s - pc ?s)
        \<or> q = (a, pb ?s - pa ?s) \<and> p = (a + n - (pd ?s - pc ?s), pd ?s - pc ?s)"
      using assms(2) False True by (auto simp: qsort_step_def Let_def split: if_splits)
    ultimately show ?thesis using g by (auto simp: left_to_sort_def)
  next
    case ns: False
    have "rearr a n xs (arr ?s)" using z rearr_trans by (auto simp: part_inv_def)
    moreover have "rearr a n (arr ?s) (insertion_sort cmp a n (arr ?s)) \<and> ascending a n (insertion_sort cmp a n (arr ?s))"
      using insertion_sort_ok len assms(1) by simp
    moreover have "ys = insertion_sort cmp a n (arr ?s)" "p = (a, 0)" "q = (a, 0)"
      using assms(2) False ns by (auto simp: qsort_step_def Let_def)
    ultimately show ?thesis using rearr_trans by (auto simp: left_to_sort_def)
  qed
qed

end

section \<open>The loop\<close>

context comparison
begin

lemma left_to_sort_ranges:
  assumes "left_to_sort a n ys p q" "ranges l ((a, n) # R)"
  shows "ranges l (p # q # R)" "snd p + snd q \<le> n" "n = 0 \<or> snd p + snd q < n"
proof -
  obtain b m c k where pq: "p = (b, m)" "q = (c, k)" by (metis surj_pair)
  have in_an: "a \<le> b" "b + m \<le> a + n" "a \<le> c" "c + k \<le> a + n" "b + m \<le> c \<or> c + k \<le> b" "m + k \<le> n" "n = 0 \<or> m + k < n"
    using assms(1) by (auto simp: left_to_sort_def pq)
  have "a' + n' \<le> l" "a + n \<le> a' \<or> a' + n' \<le> a" if "(a', n') \<in> set R" for a' n'
    using assms(2) that by (auto simp: ranges_def)
  then have "b + m \<le> a' \<or> a' + n' \<le> b" "c + k \<le> a' \<or> a' + n' \<le> c" if "(a', n') \<in> set R" for a' n'
    using that in_an by (meson le_trans)+
  then show "ranges l (p # q # R)" using assms(2) in_an by (auto simp: ranges_def pq)
  show "snd p + snd q \<le> n" "n = 0 \<or> snd p + snd q < n" using in_an pq by auto
qed

lemma left_to_sort_sorted:
  assumes "left_to_sort a n ys p q" "rearr a n xs ys" "in_order (p # q # R) ys zs" "ranges (length xs) ((a, n) # R)"
  shows "in_order ((a, n) # R) xs zs"
proof -
  have len: "length ys = length xs" "length zs = length xs" using assms by (auto simp: rearr_def in_order_def)
  have an: "a + n \<le> length xs" using assms(4) by (simp add: ranges_def)
  have out: "i < b \<or> b + m \<le> i" if "(b, m) \<in> set R" "a \<le> i" "i < a + n" for i b m
    using assms(4) that by (fastforce simp: ranges_def)
  have same: "zs ! i = ys ! i" if "a \<le> i" "i < a + n" "i < fst p \<or> fst p + snd p \<le> i" "i < fst q \<or> fst q + snd q \<le> i" for i
  proof -
    have "\<forall>(b, m) \<in> set (p # q # R). i < b \<or> b + m \<le> i"
      using that(3,4) out [OF _ that(1,2)] by (auto simp: case_prod_beta)
    moreover have "i < length ys" using that(2) an len by simp
    ultimately show ?thesis using assms(3) unfolding in_order_def by blast
  qed
  have pq: "mset (slice (fst p) (snd p) zs) = mset (slice (fst p) (snd p) ys) \<and> ascending (fst p) (snd p) zs"
    "mset (slice (fst q) (snd q) zs) = mset (slice (fst q) (snd q) ys) \<and> ascending (fst q) (snd q) zs"
    using assms(3) by (auto simp: in_order_def split: prod.splits)
  have "mset (slice a n zs) = mset (slice a n ys) \<and> ascending a n zs"
  proof (cases "ascending a n ys \<and> p = (a, 0) \<and> q = (a, 0)")
    case True
    then have z: "\<And>i. a \<le> i \<Longrightarrow> i < a + n \<Longrightarrow> zs ! i = ys ! i" using same by simp
    then have "slice a n zs = slice a n ys" using an len by (intro slice_cong) auto
    then show ?thesis using True ascending_cong [of a n zs ys] z by simp
  next
    case False
    then obtain v d r where 3: "three_parts cmp v a d r n ys" "d + r < n"
        "p = (a, d) \<and> q = (a + n - r, r) \<or> q = (a, d) \<and> p = (a + n - r, r)"
      using assms(1) by (auto simp: left_to_sort_def)
    have "\<forall>i. a + d \<le> i \<and> i < a + n - r \<longrightarrow> zs ! i = ys ! i" using 3(2,3) same by fastforce
    then show ?thesis using three_parts_sorted [OF 3(1), of zs] 3 pq an len by auto
  qed
  then have 1: "mset (slice a n zs) = mset (slice a n xs) \<and> ascending a n zs" using assms(2) by (simp add: rearr_def)
  have R: "mset (slice b m zs) = mset (slice b m xs) \<and> ascending b m zs" if m: "(b, m) \<in> set R" for b m
  proof -
    have "b + m \<le> length xs" "a + n \<le> b \<or> b + m \<le> a" using assms(4) m by (auto simp: ranges_def)
    then have "slice b m ys = slice b m xs" using assms(2) len by (intro slice_cong) (auto simp: rearr_def)
    then show ?thesis using assms(3) m by (auto simp: in_order_def)
  qed
  have "zs ! i = xs ! i" if i: "i < length xs" "i < a \<or> a + n \<le> i" "\<forall>(b, m) \<in> set R. i < b \<or> b + m \<le> i" for i
  proof -
    have "i < fst p \<or> fst p + snd p \<le> i" "i < fst q \<or> fst q + snd q \<le> i"
      using assms(1) i(2) by (auto simp: left_to_sort_def)
    then have "zs ! i = ys ! i" using assms(3) i len by (auto simp: in_order_def split: prod.splits)
    then show ?thesis using assms(2) i(1,2) by (auto simp: rearr_def)
  qed
  then show ?thesis unfolding in_order_def using 1 R len by auto
qed

lemma in_order_rearr: "in_order ((a, n) # R) xs ys \<Longrightarrow> R = [] \<Longrightarrow> rearr a n xs ys \<and> ascending a n ys"
  by (simp add: in_order_def rearr_def)

lemma qsort_loop_ok:
  assumes "ranges (length xs) ((a, n) # R)"
  shows "\<exists>ys. qsort_loop cmp R a n xs = Some ys \<and> in_order ((a, n) # R) xs ys"
  using assms
proof (induction "work ((a, n) # R)" arbitrary: a n R xs rule: less_induct)
  case less
  obtain ys b m p r where st: "qsort_step cmp a n xs = (ys, (b, m), (p, r))" by (metis surj_pair)
  have an: "a + n \<le> length xs" using less.prems by (simp add: ranges_def)
  have S: "rearr a n xs ys" "left_to_sort a n ys (b, m) (p, r)" using qsort_step_ok [OF an st] by auto
  have len: "length ys = length xs" using S by (simp add: rearr_def)
  have sw: "left_to_sort a n ys (p, r) (b, m)" using S(2) by (auto simp: left_to_sort_def)
  have rR: "ranges (length xs) ((p, r) # (b, m) # R)" "m + r \<le> n" "n = 0 \<or> m + r < n"
    using left_to_sort_ranges [OF sw less.prems] by auto
  then have rQ: "ranges (length xs) ((b, m) # R)" "ranges (length xs) [(p, r)]" "ranges (length xs) R"
    by (auto simp: ranges_def)
  have rest: "\<exists>zs. (if m > 1 then qsort_loop cmp R b m us
        else (case R of [] \<Rightarrow> Some us | (a, n) # R \<Rightarrow> qsort_loop cmp R a n us)) = Some zs \<and> in_order ((b, m) # R) us zs"
    if u: "length us = length xs" for us
  proof (cases "m > 1")
    case True
    then have "work ((b, m) # R) < work ((a, n) # R)" using rR by (auto simp: work_def)
    then show ?thesis using less.hyps [of b m R us] rQ(1) True u by simp
  next
    case small: False
    have "\<exists>zs. (case R of [] \<Rightarrow> Some us | (a, n) # R \<Rightarrow> qsort_loop cmp R a n us) = Some zs \<and> in_order R us zs"
    proof (cases R)
      case (Cons h R')
      then obtain c k where h: "R = (c, k) # R'" by (metis surj_pair)
      then have "work ((c, k) # R') < work ((a, n) # R)" by (simp add: work_def)
      then show ?thesis using less.hyps [of c k R' us] rQ(3) u h by simp
    qed (simp add: in_order_Nil)
    then show ?thesis using small in_order_Cons [of b m us us R] rQ(1) u by (auto simp: ascending_small)
  qed
  show ?case
  proof (cases "r > 1 \<and> length R < PARAMETER_STACK_LEVELS")
    case True
    then have "work ((p, r) # (b, m) # R) < work ((a, n) # R)" using rR by (auto simp: work_def)
    then obtain zs where z: "qsort_loop cmp ((b, m) # R) p r ys = Some zs" "in_order ((p, r) # (b, m) # R) ys zs"
      using less.hyps [of p r "(b, m) # R" ys] rR(1) len by auto
    have "qsort_loop cmp R a n xs = Some zs" using True z(1) by (subst qsort_loop.simps) (simp add: st)
    then show ?thesis using left_to_sort_sorted [OF sw S(1) z(2) less.prems] by blast
  next
    case False
    have "\<exists>us. (if r > 1 then qsort_loop cmp [] p r ys else Some ys) = Some us \<and> rearr p r ys us \<and> ascending p r us"
    proof (cases "r > 1")
      case True
      then have "work [(p, r)] < work ((a, n) # R)" using rR by (auto simp: work_def)
      then show ?thesis using less.hyps [of p r "[]" ys] rQ(2) len True in_order_rearr by fastforce
    qed (simp add: ascending_small)
    then obtain us where u: "(if r > 1 then qsort_loop cmp [] p r ys else Some ys) = Some us" "rearr p r ys us" "ascending p r us"
      by blast
    have lu: "length us = length xs" using u(2) len by (simp add: rearr_def)
    obtain zs where z: "(if m > 1 then qsort_loop cmp R b m us
        else (case R of [] \<Rightarrow> Some us | (a, n) # R \<Rightarrow> qsort_loop cmp R a n us)) = Some zs" "in_order ((b, m) # R) us zs"
      using rest [OF lu] by blast
    have "in_order ((p, r) # (b, m) # R) ys zs" using in_order_Cons [OF u(2,3) z(2)] rR(1) len by simp
    moreover have "qsort_loop cmp R a n xs = Some zs"
      using False u(1) z(1) by (subst qsort_loop.simps) (simp only: st Let_def prod.case if_False bind.bind_lunit)
    ultimately show ?thesis using left_to_sort_sorted [OF sw S(1) _ less.prems] by blast
  qed
qed

lemma qsort_ok:
  "\<exists>ys. qsort cmp xs = Some ys \<and> mset ys = mset xs \<and> sorted_wrt (\<lambda>x y. cmp x y \<le> 0) ys"
proof -
  have "ranges (length xs) [(0, length xs)]" by (simp add: ranges_def)
  then obtain ys where "qsort cmp xs = Some ys" "in_order [(0, length xs)] xs ys"
    using qsort_loop_ok unfolding qsort_def by blast
  moreover from this have "length ys = length xs" "mset (slice 0 (length xs) ys) = mset (slice 0 (length xs) xs)" "ascending 0 (length xs) ys"
    by (auto simp: in_order_def)
  ultimately show ?thesis by (intro exI [of _ ys]) (auto simp: slice_def ascending_def sorted_wrt_iff_nth_less)
qed

end

end
