(* ===== verification/GameList.thy ===== *)
theory GameList
  imports GameAssets GameInfo BnrCache QSort
begin

text \<open>
  Building the game list (patches/source/games.c): a directory is listed, the names are sorted, every
  image is recognised and its banner staged in ARAM, and the rest of the card is walked to fill the
  banner cache. The thread's state is a record; the sorted array of pointers is the list of what
  they point to, an entry of the list is named by its index. \<open>bb\<close> is the address of
  \<open>banner_buffer\<close>, \<open>small\<close> and \<open>hdr\<close> those of the buffers of \<open>get_game_info\<close>. The lock that asks
  the thread to stop is a function on the state of the environment. None is a call or a loop that
  does not return; a path that does not fit its 128 bytes is the error \<open>Path_Overrun\<close>, as what
  happens then is not defined by the code. Allocations are taken to succeed.
\<close>

section \<open>Names\<close>

definition strrchr :: "u8 \<Rightarrow> bytes \<Rightarrow> bytes option" where
  "strrchr c s = (if c \<in> set s then Some (c # rev (takeWhile (\<lambda>x. x \<noteq> c) (rev s))) else None)"

definition valid_game_exts :: "bytes list" where
  "valid_game_exts = map str_bytes [''.gcm'', ''.iso'', ''.fdi'']"

definition valid_prog_exts :: "bytes list" where
  "valid_prog_exts = map str_bytes [''.dol'', ''.dol+cli'']"

definition gm_get_file_type :: "bytes \<Rightarrow> gm_file_type" where
  "gm_get_file_type path =
     (case strrchr 0x2E path of
        None \<Rightarrow> GM_FILE_TYPE_UNKNOWN
      | Some ext \<Rightarrow>
          if list_ex (\<lambda>e. strcasecmp ext e = 0) valid_game_exts then GM_FILE_TYPE_GAME
          else if list_ex (\<lambda>e. strcasecmp ext e = 0) valid_prog_exts then GM_FILE_TYPE_PROGRAM
          else GM_FILE_TYPE_UNKNOWN)"

definition hidden_file_names :: "bytes list" where
  "hidden_file_names = map str_bytes
     [''$RECYCLE.BIN'', ''System Volume Information'', ''Recovery'', ''swiss'', ''MCBACKUP'']"

text \<open>For names of at least one character.\<close>

definition check_file_hidden :: "bytes \<Rightarrow> bool" where
  "check_file_hidden name \<longleftrightarrow> hd name = 0x2E \<or> hd name = 0x7E \<or> last name = 0x7E
     \<or> list_ex (\<lambda>h. strcasecmp name h = 0) hidden_file_names"

section \<open>State\<close>

record gm_path_entry =
  p_path :: bytes
  p_type :: gm_file_type

definition gm_cmp_path_entry :: "gm_path_entry \<Rightarrow> gm_path_entry \<Rightarrow> int" where
  "gm_cmp_path_entry a b = strcasecmp (p_path a) (p_path b)"

datatype list_error = Path_Overrun

record 'e enum_state =
  en_info :: "'e info_state"
  en_ent :: dir_entry
  en_cache :: bnr_cache
  en_port :: aram_port
  en_gm :: gm
  sorted_path_list :: "gm_path_entry list"
  game_backing_count :: nat
  number_of_lines :: int
  game_enum_path :: bytes
  game_enum_running :: bool
  warm_pending :: bool

definition en_env :: "'e enum_state \<Rightarrow> 'e" where "en_env s = gi_env (en_info s)"

definition set_env :: "'e \<Rightarrow> 'e enum_state \<Rightarrow> 'e enum_state" where
  "set_env e s = s\<lparr>en_info := en_info s\<lparr>gi_env := e\<rparr>\<rparr>"

section \<open>Listing a directory\<close>

definition FILE_ATTRIB_FLAG_HIDDEN :: u8 where "FILE_ATTRIB_FLAG_HIDDEN = 0x02"

text \<open>What an entry of the directory is listed as, if it is.\<close>

definition listed_type :: "dir_entry \<Rightarrow> gm_file_type" where
  "listed_type ent =
     (if de_attrib ent AND FILE_ATTRIB_FLAG_HIDDEN \<noteq> 0 then GM_FILE_TYPE_UNKNOWN
      else if check_file_hidden (de_name ent) then GM_FILE_TYPE_UNKNOWN
      else if de_type ent = FILE_ENTRY_TYPE_DIR then GM_FILE_TYPE_DIRECTORY
      else gm_get_file_type (de_name ent))"

definition MAX_PATHS :: nat where "MAX_PATHS = 1920"
definition PATH_SIZE :: nat where "PATH_SIZE = 128"

text \<open>The loop over the directory: the paths found, the last entry read and the environment.\<close>

partial_function (option) list_loop :: "'e drive \<Rightarrow> bytes \<Rightarrow> u32 \<Rightarrow> gm_path_entry list \<Rightarrow> dir_entry \<Rightarrow> 'e
    \<Rightarrow> (list_error + gm_path_entry list \<times> dir_entry \<times> 'e) option" where
  "list_loop D target_dir dir_fd paths ent e = do {
     (ret, ent, e) \<leftarrow> dr_readdir D e ent dir_fd;
     if ret \<noteq> 0 then None
     else if de_name ent = [] then Some (Inr (paths, ent, e))
     else if listed_type ent = GM_FILE_TYPE_UNKNOWN then list_loop D target_dir dir_fd paths ent e
     else let path = target_dir @ de_name ent
          in if length path \<ge> PATH_SIZE then Some (Inl Path_Overrun)
             else let paths = paths @ [\<lparr>p_path = path, p_type = listed_type ent\<rparr>]
                  in if length paths \<ge> MAX_PATHS then Some (Inr (paths, ent, e))
                     else list_loop D target_dir dir_fd paths ent e
   }"

text \<open>Whether the directory could be opened; the paths are in \<open>sorted_path_list\<close>.\<close>

definition gm_list_files :: "'e drive \<Rightarrow> bytes \<Rightarrow> 'e enum_state \<Rightarrow> (list_error + bool \<times> 'e enum_state) option" where
  "gm_list_files D target_dir s = do {
     (res, e) \<leftarrow> dr_open D (en_env s) target_dir FILE_ENTRY_TYPE_DIR 0;
     let s = set_env e s;
     if res \<noteq> 0 then Some (Inr (False, s))
     else do {
       (status, e) \<leftarrow> dr_status D e;
       let s = set_env e s;
       case status of
         None \<Rightarrow> Some (Inr (False, s))
       | Some st \<Rightarrow>
           if st_result st \<noteq> 0 then Some (Inr (False, s))
           else do {
             r \<leftarrow> list_loop D target_dir (ucast (st_fd st)) [] (en_ent s) e;
             case r of
               Inl err \<Rightarrow> Some (Inl err)
             | Inr (paths, ent, e) \<Rightarrow> do {
                 e \<leftarrow> dr_close D e (ucast (st_fd st));
                 Some (Inr (True, (set_env e s)\<lparr>en_ent := ent, sorted_path_list := paths\<rparr>))
               }
           }
     }
   }"

definition gm_sort_files :: "'e enum_state \<Rightarrow> 'e enum_state option" where
  "gm_sort_files s = map_option (\<lambda>ps. s\<lparr>sorted_path_list := ps\<rparr>) (qsort gm_cmp_path_entry (sorted_path_list s))"

section \<open>Loading a banner\<close>

definition gm_bnr_cache_key :: "bytes \<Rightarrow> u32" where
  "gm_bnr_cache_key path = tinf_crc32 path (of_nat (length path))"

definition BNR_PIXELS :: u32 where "BNR_PIXELS = 32"
definition BNR_DESC :: nat where "BNR_DESC = 6176"
definition BNR_DESC_SIZE :: nat where "BNR_DESC_SIZE = 320"
definition DESC_FULL_GAME_NAME :: nat where "DESC_FULL_GAME_NAME = 64"
definition DESC_DESCRIPTION :: nat where "DESC_DESCRIPTION = 192"

definition set_port :: "aram_port \<Rightarrow> 'e enum_state \<Rightarrow> 'e enum_state" where
  "set_port p s = s\<lparr>en_port := p\<rparr>"

definition write_ram :: "u32 \<Rightarrow> bytes \<Rightarrow> aram_port \<Rightarrow> aram_port" where
  "write_ram a data p = p\<lparr>ap_mem := (store_bytes a data (fst (ap_mem p)), snd (ap_mem p))\<rparr>"

definition read_ram :: "u32 \<Rightarrow> nat \<Rightarrow> aram_port \<Rightarrow> bytes" where
  "read_ram a n p = map (\<lambda>i. fst (ap_mem p) (a + of_nat i)) [0..<n]"

text \<open>The string that starts at a place of a description.\<close>

definition field_string :: "bytes \<Rightarrow> nat \<Rightarrow> bytes" where
  "field_string desc off = takeWhile (\<lambda>c. c \<noteq> 0) (drop off desc)"

definition enum_close :: "'e drive \<Rightarrow> u32 option \<Rightarrow> 'e enum_state \<Rightarrow> 'e enum_state option" where
  "enum_close D fd s = (case fd of None \<Rightarrow> Some s | Some fd \<Rightarrow> map_option (\<lambda>e. set_env e s) (dr_close D (en_env s) fd))"

definition enum_get :: "u32 \<Rightarrow> u32 \<Rightarrow> 'e enum_state \<Rightarrow> (bool \<times> 'e enum_state) option" where
  "enum_get bb key s = map_option (\<lambda>(found, p). (found, set_port p s)) (bnr_cache_get bnr_cache_load (en_cache s) key bb (en_port s))"

definition enum_put :: "u32 \<Rightarrow> u32 \<Rightarrow> 'e enum_state \<Rightarrow> 'e enum_state option" where
  "enum_put bb key s =
     map_option (\<lambda>(c, p). s\<lparr>en_cache := c, en_port := p\<rparr>) (bnr_cache_put bnr_cache_store (en_cache s) key bb (en_port s))"

text \<open>Reading a banner into the buffer at \<open>bb\<close>, and closing the file.\<close>

definition read_banner :: "'e drive \<Rightarrow> u32 \<Rightarrow> u32 \<Rightarrow> u32 \<Rightarrow> 'e enum_state \<Rightarrow> 'e enum_state option" where
  "read_banner D bb offset fd s = do {
     (r, data, e) \<leftarrow> dr_read D (en_env s) bb (of_nat BNR_SIZE) (ucast offset) fd;
     enum_close D (Some fd) (set_port (write_ram bb data (en_port s)) (set_env e s))
   }"

text \<open>From the label \<open>cached\<close> on; \<open>i\<close> is the index the entry gets.\<close>

definition stage_banner :: "u32 \<Rightarrow> nat \<Rightarrow> gm_file_entry \<Rightarrow> u32 \<Rightarrow> bool \<Rightarrow> 'e enum_state \<Rightarrow> bool \<times> gm_file_entry \<times> 'e enum_state" where
  "stage_banner bb i entry aram force_unload s =
     (let g = en_gm s; b = (e_banner entry)\<lparr>part_state := GM_LOAD_STATE_LOADING\<rparr>
      in case gm_get_banner_buf (banner_pool g) of
        None \<Rightarrow> (False, entry\<lparr>e_banner := b\<rparr>, s)
      | Some (buf, pool) \<Rightarrow>
          let port = write_ram (banner_data (banner_pool_addr g) (Some buf))
                (read_ram (bb + BNR_PIXELS) (unat BNR_PIXELDATA_LEN) (en_port s)) (en_port s);
              b = b\<lparr>part_buf := Some buf\<rparr>;
              (b, pool, r) = (if force_unload then gm_banner_setup_unload (banner_pool_addr g) aram b pool
                              else gm_banner_setup (banner_pool_addr g) aram b pool);
              desc = read_ram (bb + of_nat BNR_DESC) BNR_DESC_SIZE port
          in (True,
              entry\<lparr>e_banner := b, fullGameName := field_string desc DESC_FULL_GAME_NAME,
                description := field_string desc DESC_DESCRIPTION\<rparr>,
              s\<lparr>en_port := port,
                en_gm := g\<lparr>banner_pool := pool, posted := gm.posted g @ (case r of None \<Rightarrow> [] | Some r \<Rightarrow> [(i, Banner, r)])\<rparr>\<rparr>))"

definition gm_load_banner :: "'e drive \<Rightarrow> u32 \<Rightarrow> nat \<Rightarrow> gm_file_entry \<Rightarrow> u32 \<Rightarrow> bool \<Rightarrow> u32 option \<Rightarrow> 'e enum_state
    \<Rightarrow> (bool \<times> gm_file_entry \<times> 'e enum_state) option" where
  "gm_load_banner D bb i entry aram force_unload open_fd s =
     (if dvd_bnr_offset (extra entry) = 0
      then map_option (\<lambda>s. (False, entry, s)) (enum_close D open_fd s)
      else do {
        let bnr_key = gm_bnr_cache_key (e_path entry);
        (found, s) \<leftarrow> enum_get bb bnr_key s;
        if found then map_option (\<lambda>s. stage_banner bb i entry aram force_unload s) (enum_close D open_fd s)
        else do {
          (fd, s) \<leftarrow> (case open_fd of
             Some fd \<Rightarrow> Some (Some fd, s)
           | None \<Rightarrow> do {
               (r, e) \<leftarrow> dr_open D (en_env s) (e_path entry) FILE_ENTRY_TYPE_FILE
                  (IPC_FILE_FLAG_DISABLECACHE OR IPC_FILE_FLAG_DISABLESPEEDEMU);
               (status, e) \<leftarrow> dr_status D e;
               Some (case status of None \<Rightarrow> None | Some st \<Rightarrow> if st_result st \<noteq> 0 then None else Some (ucast (st_fd st)), set_env e s)
             });
          case fd of
            None \<Rightarrow> Some (False, entry, s)
          | Some fd \<Rightarrow> do {
              s \<leftarrow> read_banner D bb (dvd_bnr_offset (extra entry)) fd s;
              s \<leftarrow> enum_put bb bnr_key s;
              Some (stage_banner bb i entry aram force_unload s)
            }
        }
      })"

section \<open>Making the entries\<close>

definition no_part :: gm_part where
  "no_part = \<lparr>aram_offset = 0, schedule_free = False, part_state = GM_LOAD_STATE_NONE, part_buf = None\<rparr>"

definition empty_entry :: "bytes \<Rightarrow> gm_file_type \<Rightarrow> gm_file_entry" where
  "empty_entry path ty =
     \<lparr>e_path = path, fullGameName = [], description = [],
      extra = \<lparr>game_id = replicate 6 0, disc_num = 0, disc_ver = 0, dvd_bnr_type = 0, dvd_bnr_offset = 0, dvd_dol_offset = 0,
        dvd_fst_offset = 0, dvd_fst_size = 0, dvd_max_fst_size = 0\<rparr>,
      use_banner = False, e_icon = no_part, e_banner = no_part, e_type = ty, second = None\<rparr>"

definition game_entry :: "bytes \<Rightarrow> game_info \<Rightarrow> gm_file_entry" where
  "game_entry path info = (empty_entry path GM_FILE_TYPE_GAME)\<lparr>extra :=
     \<lparr>game_id = gi_game_id info, disc_num = gi_disc_num info, disc_ver = gi_disc_ver info, dvd_bnr_type = gi_bnr_type info,
      dvd_bnr_offset = gi_bnr_offset info, dvd_dol_offset = gi_dol_offset info, dvd_fst_offset = gi_fst_offset info,
      dvd_fst_size = gi_fst_size info, dvd_max_fst_size = gi_max_fst_size info\<rparr>\<rparr>"

text \<open>The paths of the list contain a slash, as that of the directory ends with one.\<close>

definition basename :: "bytes \<Rightarrow> bytes" where
  "basename path = (case strrchr 0x2F path of None \<Rightarrow> path | Some b \<Rightarrow> tl b)"

definition other_entry :: "gm_path_entry \<Rightarrow> gm_file_entry" where
  "other_entry p = (empty_entry (p_path p) (p_type p))\<lparr>fullGameName := basename (p_path p),
     description := (if p_type p = GM_FILE_TYPE_PROGRAM then str_bytes ''Homebrew Program'' else str_bytes ''Directory'')\<rparr>"

definition add_entry :: "gm_file_entry \<Rightarrow> 'e enum_state \<Rightarrow> 'e enum_state" where
  "add_entry entry s = s\<lparr>en_gm := (en_gm s)\<lparr>entry_backing := entry_backing (en_gm s) @ [entry]\<rparr>\<rparr>"

text \<open>The addresses of the static buffers.\<close>

record buffers =
  bb :: u32
  small_addr :: u32
  header_addr :: u32

definition enum_game_info :: "(u32 \<times> u32) list \<Rightarrow> 'e drive \<Rightarrow> buffers \<Rightarrow> bytes \<Rightarrow> 'e enum_state
    \<Rightarrow> (game_info \<times> u32 option \<times> 'e enum_state) option" where
  "enum_game_info table D B path s =
     map_option (\<lambda>(info, fd, i). (info, fd, s\<lparr>en_info := i\<rparr>)) (get_game_info table D True (header_addr B) (small_addr B) path (en_info s))"

text \<open>One path: the next free offset in ARAM and the state.\<close>

definition check_file :: "(u32 \<times> u32) list \<Rightarrow> 'e drive \<Rightarrow> buffers \<Rightarrow> bool \<Rightarrow> gm_path_entry \<Rightarrow> u32 \<Rightarrow> 'e enum_state
    \<Rightarrow> (u32 \<times> 'e enum_state) option" where
  "check_file table D B force_unload p aram s =
     (if p_type p = GM_FILE_TYPE_GAME then do {
        (info, game_fd, s) \<leftarrow> enum_game_info table D B (p_path p) s;
        if \<not> gi_valid info then Some (aram, s)
        else do {
          (loaded, backing, s) \<leftarrow> gm_load_banner D (bb B) (length (entry_backing (en_gm s))) (game_entry (p_path p) info) aram
             force_unload game_fd s;
          Some (aram + BNR_PIXELDATA_LEN + ICON_PIXELDATA_LEN, add_entry (backing\<lparr>use_banner := True\<rparr>) s)
        }
      }
      else if p_type p = GM_FILE_TYPE_PROGRAM \<or> p_type p = GM_FILE_TYPE_DIRECTORY
      then Some (aram + ICON_PIXELDATA_LEN, add_entry (other_entry p) s)
      else Some (aram, s))"

text \<open>\<open>top\<close> is the top line of the menu at the moment a path is looked at.\<close>

fun check_paths :: "(u32 \<times> u32) list \<Rightarrow> 'e drive \<Rightarrow> ('e \<Rightarrow> bool \<times> 'e) \<Rightarrow> buffers \<Rightarrow> ('e \<Rightarrow> int) \<Rightarrow> gm_path_entry list \<Rightarrow> u32
    \<Rightarrow> 'e enum_state \<Rightarrow> (u32 \<times> 'e enum_state) option" where
  "check_paths table D try_lock B top_line_num [] aram s = Some (aram, s)"
| "check_paths table D try_lock B top_line_num (p # ps) aram s =
     (let count = of_nat (length (entry_backing (en_gm s)));
          force_unload = count - word_of_int (top_line_num (en_env s) * int ASSETS_PER_LINE) > ASSETS_INITIAL_COUNT;
          (locked, e) = try_lock (en_env s); s = set_env e s
      in if \<not> locked then Some (aram, s)
         else do {
           (aram, s) \<leftarrow> check_file table D B force_unload p aram s;
           check_paths table D try_lock B top_line_num ps aram (s\<lparr>game_backing_count := length (entry_backing (en_gm s))\<rparr>)
         })"

text \<open>Discs of the same game refer to each other; the last match of the inner loop stays.\<close>

definition pair_disc :: "nat \<Rightarrow> nat \<Rightarrow> gm_file_entry list \<Rightarrow> gm_file_entry list" where
  "pair_disc i j es =
     (if e_type (es ! j) = GM_FILE_TYPE_GAME \<and> j \<noteq> i \<and> game_id (extra (es ! i)) = game_id (extra (es ! j))
         \<and> disc_num (extra (es ! i)) \<noteq> disc_num (extra (es ! j))
      then es[i := (es ! i)\<lparr>second := Some j\<rparr>, j := (es ! j)\<lparr>second := Some i\<rparr>] else es)"

definition pair_entry :: "nat \<Rightarrow> gm_file_entry list \<Rightarrow> gm_file_entry list" where
  "pair_entry i es =
     (if e_type (es ! i) \<noteq> GM_FILE_TYPE_GAME \<or> disc_num (extra (es ! i)) = 0 then es
      else foldl (\<lambda>es j. pair_disc i j es) es [0..<length es])"

definition pair_discs :: "gm_file_entry list \<Rightarrow> gm_file_entry list" where
  "pair_discs es = foldl (\<lambda>es i. pair_entry i es) es [0..<length es]"

definition gm_check_files :: "(u32 \<times> u32) list \<Rightarrow> 'e drive \<Rightarrow> ('e \<Rightarrow> bool \<times> 'e) \<Rightarrow> buffers \<Rightarrow> ('e \<Rightarrow> int) \<Rightarrow> 'e enum_state
    \<Rightarrow> 'e enum_state option" where
  "gm_check_files table D try_lock B top_line_num s =
     map_option (\<lambda>(aram, s). s\<lparr>en_gm := (en_gm s)\<lparr>entry_backing := pair_discs (entry_backing (en_gm s))\<rparr>\<rparr>)
       (check_paths table D try_lock B top_line_num (sorted_path_list s) (1 * 1024 * 1024) s)"

definition gm_setup_grid :: "nat \<Rightarrow> 'e enum_state \<Rightarrow> 'e enum_state" where
  "gm_setup_grid line_count s = s\<lparr>number_of_lines := (let n = (int line_count + 7) div 8 in if n < 4 then 4 else n)\<rparr>"

section \<open>Warming the cache\<close>

definition warm_file :: "(u32 \<times> u32) list \<Rightarrow> 'e drive \<Rightarrow> buffers \<Rightarrow> gm_path_entry \<Rightarrow> 'e enum_state \<Rightarrow> 'e enum_state option" where
  "warm_file table D B p s = do {
     (info, fd, s) \<leftarrow> enum_game_info table D B (p_path p) s;
     if \<not> gi_valid info then Some s
     else do {
       let bnr_key = gm_bnr_cache_key (p_path p);
       (found, s) \<leftarrow> (if gi_bnr_offset info = 0 then Some (True, s) else enum_get (bb B) bnr_key s);
       if found then enum_close D fd s
       else do {
         s \<leftarrow> read_banner D (bb B) (gi_bnr_offset info) (case fd of None \<Rightarrow> -1 | Some fd \<Rightarrow> fd) s;
         enum_put (bb B) bnr_key s
       }
     }
   }"

fun gm_warm_files :: "(u32 \<times> u32) list \<Rightarrow> 'e drive \<Rightarrow> ('e \<Rightarrow> bool \<times> 'e) \<Rightarrow> buffers \<Rightarrow> gm_path_entry list \<Rightarrow> 'e enum_state
    \<Rightarrow> (bool \<times> 'e enum_state) option" where
  "gm_warm_files table D try_lock B [] s = Some (True, s)"
| "gm_warm_files table D try_lock B (p # ps) s =
     (if p_type p \<noteq> GM_FILE_TYPE_GAME then gm_warm_files table D try_lock B ps s
      else let (locked, e) = try_lock (en_env s); s = set_env e s
           in if \<not> locked then Some (False, s)
              else do { s \<leftarrow> warm_file table D B p s; gm_warm_files table D try_lock B ps s })"

definition slash :: u8 where "slash = 0x2F"
definition MAX_DIRS :: nat where "MAX_DIRS = 100"

text \<open>The directories of a listing are put on the stack, the last one on top, while there is room.\<close>

fun push_dirs :: "gm_path_entry list \<Rightarrow> bytes list \<Rightarrow> list_error + bytes list" where
  "push_dirs [] stack = Inr stack"
| "push_dirs (p # ps) stack =
     (if p_type p \<noteq> GM_FILE_TYPE_DIRECTORY then push_dirs ps stack
      else let subdir_path = p_path p @ [slash]
           in if length subdir_path \<ge> PATH_SIZE then Inl Path_Overrun
              else push_dirs ps (if length stack < MAX_DIRS then subdir_path # stack else stack))"

partial_function (option) warm_dirs :: "(u32 \<times> u32) list \<Rightarrow> 'e drive \<Rightarrow> ('e \<Rightarrow> bool \<times> 'e) \<Rightarrow> buffers \<Rightarrow> bytes option
    \<Rightarrow> bytes list \<Rightarrow> 'e enum_state \<Rightarrow> (list_error + bool \<times> 'e enum_state) option" where
  "warm_dirs table D try_lock B skip_dir stack s =
     (case stack of
        [] \<Rightarrow> Some (Inr (True, s))
      | cur # stack \<Rightarrow>
          let (locked, e) = try_lock (en_env s); s = set_env e s
          in if \<not> locked then Some (Inr (False, s))
             else do {
               r \<leftarrow> gm_list_files D cur s;
               case r of
                 Inl err \<Rightarrow> Some (Inl err)
               | Inr (opened, s) \<Rightarrow>
                   if \<not> opened then warm_dirs table D try_lock B skip_dir stack s
                   else do {
                     (go_on, s) \<leftarrow> (if skip_dir \<noteq> Some cur
                        then gm_warm_files table D try_lock B (sorted_path_list s) s else Some (True, s));
                     if \<not> go_on then Some (Inr (False, s))
                     else case push_dirs (sorted_path_list s) stack of
                       Inl err \<Rightarrow> Some (Inl err)
                     | Inr stack \<Rightarrow> warm_dirs table D try_lock B skip_dir stack s
                   }
             })"

definition gm_warm_card :: "(u32 \<times> u32) list \<Rightarrow> 'e drive \<Rightarrow> ('e \<Rightarrow> bool \<times> 'e) \<Rightarrow> buffers \<Rightarrow> bytes option \<Rightarrow> 'e enum_state
    \<Rightarrow> (list_error + bool \<times> 'e enum_state) option" where
  "gm_warm_card table D try_lock B skip_dir s = warm_dirs table D try_lock B skip_dir [[slash]] s"

section \<open>The thread\<close>

definition gm_thread_worker :: "(u32 \<times> u32) list \<Rightarrow> 'e drive \<Rightarrow> ('e \<Rightarrow> bool \<times> 'e) \<Rightarrow> buffers \<Rightarrow> ('e \<Rightarrow> int) \<Rightarrow> 'e enum_state
    \<Rightarrow> (list_error + 'e enum_state) option" where
  "gm_thread_worker table D try_lock B top_line_num s =
     (let target = game_enum_path s
      in if target = [] then Some (Inr (s\<lparr>game_enum_running := False\<rparr>))
         else do {
           r \<leftarrow> gm_list_files D target s;
           case r of
             Inl err \<Rightarrow> Some (Inl err)
           | Inr (opened, s) \<Rightarrow>
               if \<not> opened then None
               else do {
                 s \<leftarrow> gm_sort_files (gm_setup_grid (length (sorted_path_list s)) s);
                 s \<leftarrow> gm_check_files table D try_lock B top_line_num s;
                 let s = gm_setup_grid (length (entry_backing (en_gm s))) s;
                 r \<leftarrow> (if warm_pending s then gm_warm_card table D try_lock B (Some target) s else Some (Inr (False, s)));
                 Some (case r of
                   Inl err \<Rightarrow> Inl err
                 | Inr (finished, s) \<Rightarrow> Inr (s\<lparr>warm_pending := warm_pending s \<and> \<not> finished, game_enum_running := False\<rparr>))
               }
         })"

definition dot_dot :: bytes where "dot_dot = str_bytes ''..''"

text \<open>The path without its last component; \<open>path\<close> ends with a slash.\<close>

definition parent_path :: "bytes \<Rightarrow> bytes" where
  "parent_path path =
     (let path = butlast path;
          path = (if slash \<in> set path then take (length path - length (the (strrchr slash path))) path else path)
      in if path = [] then [slash] else path)"

definition target_path :: "bytes \<Rightarrow> bytes \<Rightarrow> list_error + bytes" where
  "target_path current target =
     (if target = dot_dot \<and> current = [] then Inl Path_Overrun
      else let target = (if target = dot_dot then parent_path current else target);
               path = (if target \<noteq> [] \<and> last target = slash then target else target @ [slash])
           in if target = [] \<or> length path \<ge> PATH_SIZE then Inl Path_Overrun else Inr path)"

text \<open>Up to the start of the thread; \<open>cache_enable\<close> is the page cache's, on the environment. The entries
  are gone afterwards, their memory goes back to the heap.\<close>

definition gm_start_thread :: "('e \<Rightarrow> 'e) \<Rightarrow> bytes \<Rightarrow> 'e enum_state \<Rightarrow> list_error + 'e enum_state" where
  "gm_start_thread cache_enable target s =
     (if game_enum_running s then Inr s
      else case target_path (game_enum_path s) target of
        Inl err \<Rightarrow> Inl err
      | Inr path \<Rightarrow>
          let s = (set_env (cache_enable (en_env s)) s)\<lparr>game_enum_path := path, game_enum_running := True\<rparr>;
              g = en_gm s;
              g = foldl (\<lambda>g i. entry_free i g) g [0..<length (entry_backing g)]
          in Inr (s\<lparr>en_gm := g\<lparr>entry_backing := []\<rparr>, number_of_lines := 0, game_backing_count := 0\<rparr>))"


section \<open>The order of the list\<close>

lemma my_tolower_0: "my_tolower c = 0 \<longleftrightarrow> c = 0"
proof -
  have "c + 32 \<noteq> 0" if "c > 64" "c < 91"
  proof
    assume "c + 32 = 0"
    then have "c = - 32" by (simp add: eq_neg_iff_add_eq_0)
    then show False using that(2) by simp
  qed
  then show ?thesis by (auto simp: my_tolower_def)
qed

lemma my_tolower_zero [simp]: "my_tolower 0 = 0"
  by (simp add: my_tolower_def)

lemma uint_tolower: "uint (my_tolower c) = 0 \<longleftrightarrow> c = 0" "uint (my_tolower c) \<le> 0 \<longleftrightarrow> c = 0"
  using my_tolower_0 [of c] by (metis uint_0_iff, metis uint_0_iff uint_nonnegative order_antisym order_refl)

lemma tolower_eq: "my_tolower c = my_tolower d \<Longrightarrow> c = 0 \<longleftrightarrow> d = 0"
  by (metis my_tolower_0)

lemma strcasecmp_flip: "strcasecmp xs ys = - strcasecmp ys xs"
  by (induction xs ys rule: strcasecmp.induct) (auto simp: my_tolower_0 dest: tolower_eq)

lemma strcasecmp_trans: "strcasecmp xs ys \<le> 0 \<Longrightarrow> strcasecmp ys zs \<le> 0 \<Longrightarrow> strcasecmp xs zs \<le> 0"
proof (induction xs ys arbitrary: zs rule: strcasecmp.induct)
  case (4 c cs d ds)
  show ?case
  proof (cases zs)
    case Nil
    then have d: "d = 0" using "4.prems" by (simp add: uint_tolower)
    then have "c = 0" using "4.prems" by (cases "my_tolower c = 0") (auto simp: my_tolower_0 uint_tolower split: if_splits)
    then show ?thesis using Nil by simp
  next
    case (Cons e es)
    have le: "uint (my_tolower c) \<le> uint (my_tolower d)" "uint (my_tolower d) \<le> uint (my_tolower e)"
      using "4.prems" Cons by (auto split: if_splits)
    show ?thesis
    proof (cases "my_tolower c = my_tolower d \<and> my_tolower d = my_tolower e \<and> c \<noteq> 0")
      case True
      then have "d \<noteq> 0" using tolower_eq [of c d] by blast
      then have "strcasecmp cs es \<le> 0" using 4 True Cons by auto
      then show ?thesis using True Cons by simp
    next
      case False
      then show ?thesis using le Cons by (auto simp: word_uint_eq_iff [where a = "my_tolower _"])
    qed
  qed
next
  case (2 c cs)
  then show ?case by (cases zs) (auto simp: uint_tolower)
next
  case 1
  then show ?case by (cases zs) auto
next
  case (3 c cs)
  then have "c = 0" by (simp add: uint_tolower)
  then show ?case by (cases zs) auto
qed

interpretation path_order: comparison gm_cmp_path_entry
proof
  fix x y z :: gm_path_entry
  show "gm_cmp_path_entry x y < 0 \<longleftrightarrow> gm_cmp_path_entry y x > 0"
    using strcasecmp_flip [of "p_path x" "p_path y"] by (simp add: gm_cmp_path_entry_def)
  show "gm_cmp_path_entry x y \<le> 0 \<Longrightarrow> gm_cmp_path_entry y z \<le> 0 \<Longrightarrow> gm_cmp_path_entry x z \<le> 0"
    using strcasecmp_trans by (simp add: gm_cmp_path_entry_def)
qed

text \<open>
  C37. Sorting the listed paths returns, and puts the same paths in the order of their names without
  regard to case: no entry compares greater than a later one.
\<close>

theorem sort_files_sorts:
  "\<exists>ps. gm_sort_files s = Some (s\<lparr>sorted_path_list := ps\<rparr>) \<and> mset ps = mset (sorted_path_list s)
    \<and> sorted_wrt (\<lambda>x y. strcasecmp (p_path x) (p_path y) \<le> 0) ps"
  using path_order.qsort_ok [of "sorted_path_list s"] by (auto simp: gm_sort_files_def gm_cmp_path_entry_def)

end
