(* ===== verification/GameFiles.thy ===== *)
theory GameFiles
  imports GameList
begin

text \<open>
  The files the enumeration thread opens. \<open>logged\<close> is a drive that also writes down its calls; what
  is open after a sequence of calls is read off the log.
\<close>

section \<open>Logged calls\<close>

datatype call = Opened int | Status "file_status option" | Read u32 | Listed u32 | Closed u32

definition logged :: "'e drive \<Rightarrow> ('e \<times> call list) drive" where
  "logged D =
     \<lparr>dr_open = (\<lambda>(e, l) path ty flags. map_option (\<lambda>(r, e). (r, e, l @ [Opened r])) (dr_open D e path ty flags)),
      dr_status = (\<lambda>(e, l). map_option (\<lambda>(st, e). (st, e, l @ [Status st])) (dr_status D e)),
      dr_close = (\<lambda>(e, l) fd. map_option (\<lambda>e. (e, l @ [Closed fd])) (dr_close D e fd)),
      dr_readdir = (\<lambda>(e, l) ent fd. map_option (\<lambda>(r, ent, e). (r, ent, e, l @ [Listed fd])) (dr_readdir D e ent fd)),
      dr_read = (\<lambda>(e, l) dst len off fd. map_option (\<lambda>(r, data, e). (r, data, e, l @ [Read fd])) (dr_read D e dst len off fd))\<rparr>"

definition logged_lock :: "('e \<Rightarrow> bool \<times> 'e) \<Rightarrow> 'e \<times> call list \<Rightarrow> bool \<times> 'e \<times> call list" where
  "logged_lock try_lock = (\<lambda>(e, l). let (locked, e) = try_lock e in (locked, e, l))"

text \<open>\<open>Lost\<close>: the status call after an open failed, so its caller never learns the descriptor.\<close>

datatype files = Idle | Opening | Holding u32 | Lost | Misused

fun after_call :: "files \<Rightarrow> call \<Rightarrow> files" where
  "after_call Lost c = Lost"
| "after_call Idle (Opened r) = (if r = 0 then Opening else Idle)"
| "after_call Opening (Status (Some st)) = (if st_result st = 0 then Holding (ucast (st_fd st)) else Lost)"
| "after_call Opening (Status None) = Lost"
| "after_call (Holding fd) (Read fd') = (if fd' = fd then Holding fd else Misused)"
| "after_call (Holding fd) (Listed fd') = (if fd' = fd then Holding fd else Misused)"
| "after_call (Holding fd) (Closed fd') = (if fd' = fd then Idle else Misused)"
| "after_call _ _ = Misused"

definition files_after :: "call list \<Rightarrow> files" where
  "files_after l = foldl after_call Idle l"

lemma files_after_snoc [simp]: "files_after (l @ [c]) = after_call (files_after l) c"
  by (simp add: files_after_def)

definition held :: "u32 option \<Rightarrow> 'e \<times> call list \<Rightarrow> bool" where
  "held fd e \<longleftrightarrow> files_after (snd e) = Lost \<or> files_after (snd e) = (case fd of None \<Rightarrow> Idle | Some fd \<Rightarrow> Holding fd)"

section \<open>Every operation\<close>

lemma open_held:
  "dr_open (logged D) e path ty flags = Some (r, e') \<Longrightarrow> held None e \<Longrightarrow>
    r \<noteq> 0 \<and> held None e' \<or> r = 0 \<and> (files_after (snd e') = Lost \<or> files_after (snd e') = Opening)"
  by (auto simp: logged_def held_def split: prod.splits if_splits)

lemma status_held:
  "dr_status (logged D) e = Some (st, e') \<Longrightarrow> files_after (snd e) = Lost \<or> files_after (snd e) = Opening \<Longrightarrow>
    (st = None \<or> st_result (the st) \<noteq> 0) \<and> files_after (snd e') = Lost
    \<or> st \<noteq> None \<and> st_result (the st) = 0 \<and> held (Some (ucast (st_fd (the st)))) e'"
  by (cases st) (auto simp: logged_def held_def split: prod.splits if_splits)

lemma read_held: "dr_read (logged D) e dst len off fd = Some (r, data, e') \<Longrightarrow> held (Some fd) e \<Longrightarrow> held (Some fd) e'"
  by (auto simp: logged_def held_def split: prod.splits)

lemma readdir_held: "dr_readdir (logged D) e ent fd = Some (r, ent', e') \<Longrightarrow> held (Some fd) e \<Longrightarrow> held (Some fd) e'"
  by (auto simp: logged_def held_def split: prod.splits)

lemma close_held: "dr_close (logged D) e fd = Some e' \<Longrightarrow> held (Some fd) e \<Longrightarrow> held None e'"
  by (auto simp: logged_def held_def split: prod.splits)

lemma close_lost: "dr_close (logged D) e fd = Some e' \<Longrightarrow> files_after (snd e) = Lost \<Longrightarrow> held None e'"
  by (auto simp: logged_def held_def split: prod.splits)

lemma lock_held: "logged_lock lk e = (b, e') \<Longrightarrow> held fd e \<Longrightarrow> held fd e'"
  by (auto simp: logged_lock_def held_def Let_def split: prod.splits)

lemma read_small_held: "read_small (logged D) a off fd s = Some s' \<Longrightarrow> held (Some fd) (gi_env s) \<Longrightarrow> held (Some fd) (gi_env s')"
  by (auto simp: read_small_def dest: read_held)

lemma read_header_held: "read_header (logged D) a fd s = Some s' \<Longrightarrow> held (Some fd) (gi_env s) \<Longrightarrow> held (Some fd) (gi_env s')"
  by (auto simp: read_header_def dest: read_held)

lemma slow_held:
  "get_banner_offset_slow (logged D) fd s = Some (r, s') \<Longrightarrow> held (Some fd) (gi_env s) \<Longrightarrow> held (Some fd) (gi_env s')"
  by (auto simp: get_banner_offset_slow_def Let_def bind_eq_Some_conv split: if_splits dest: read_held)

lemma identify_held:
  assumes "identify_game table (logged D) True small fd s = Some (info, out, s')" "held (Some fd) (gi_env s)"
  shows "held out (gi_env s') \<and> (gi_valid info \<longleftrightarrow> out \<noteq> None)"
proof -
  have rej: "reject (logged D) fd t = Some (i, out, t') \<Longrightarrow> held (Some fd) (gi_env t) \<Longrightarrow> held out (gi_env t') \<and> (gi_valid i \<longleftrightarrow> out \<noteq> None)"
    for t i out t' by (auto simp: reject_def no_game_def dest: close_held)
  have over: "hand_over (logged D) True fd (game_of h m off) t = Some (i, out, t') \<Longrightarrow> held (Some fd) (gi_env t) \<Longrightarrow>
      held out (gi_env t') \<and> (gi_valid i \<longleftrightarrow> out \<noteq> None)" for t i out t' h m off
    by (auto simp: hand_over_def game_of_def)
  show ?thesis using assms
    by (auto simp: identify_game_def Let_def bind_eq_Some_conv split: if_splits prod.splits
        dest!: read_small_held slow_held dest: rej over)
qed


lemma get_game_info_held:
  assumes "get_game_info table (logged D) True hdr small path s = Some (info, out, s')" "held None (gi_env s)"
  shows "held out (gi_env s') \<and> (gi_valid info \<longleftrightarrow> out \<noteq> None)"
proof -
  obtain r e where o: "dr_open (logged D) (gi_env s) path FILE_ENTRY_TYPE_FILE (IPC_FILE_FLAG_DISABLECACHE OR IPC_FILE_FLAG_DISABLESPEEDEMU) = Some (r, e)"
    using assms(1) by (auto simp: get_game_info_def bind_eq_Some_conv)
  note oh = open_held [OF o assms(2)]
  show ?thesis
  proof (cases "r = 0")
    case False
    then show ?thesis using assms(1) o oh by (auto simp: get_game_info_def no_game_def)
  next
    case True
    then obtain st e' where st: "dr_status (logged D) e = Some (st, e')" using assms(1) o by (auto simp: get_game_info_def bind_eq_Some_conv)
    have sh: "(st = None \<or> st_result (the st) \<noteq> 0) \<and> files_after (snd e') = Lost
        \<or> st \<noteq> None \<and> st_result (the st) = 0 \<and> held (Some (ucast (st_fd (the st)))) e'"
      using status_held [OF st] oh True by blast
    show ?thesis
    proof (cases st)
      case None
      then show ?thesis using assms(1) o True st sh by (auto simp: get_game_info_def no_game_def held_def)
    next
      case (Some x)
      show ?thesis
      proof (cases "st_result x = 0")
        case False
        then show ?thesis using assms(1) o True st sh Some
          by (auto simp: get_game_info_def no_game_def reject_def dest!: close_lost)
      next
        case ok: True
        then have "held (Some (ucast (st_fd x))) e'" using sh Some by simp
        moreover obtain t where "read_header (logged D) hdr (ucast (st_fd x)) (s\<lparr>gi_env := e'\<rparr>) = Some t"
          "identify_game table (logged D) True small (ucast (st_fd x)) t = Some (info, out, s')"
          using assms(1) o True st Some ok by (auto simp: get_game_info_def bind_eq_Some_conv)
        ultimately show ?thesis using read_header_held identify_held by fastforce
      qed
    qed
  qed
qed

section \<open>The thread\<close>

lemma en_env_simps [simp]:
  "en_env (set_env e s) = e" "en_env (set_port p s) = en_env s" "en_env (s\<lparr>en_ent := x\<rparr>) = en_env s"
  "en_env (s\<lparr>sorted_path_list := x1\<rparr>) = en_env s" "en_env (s\<lparr>en_cache := x2\<rparr>) = en_env s" "en_env (s\<lparr>en_port := p\<rparr>) = en_env s"
  "en_env (s\<lparr>en_gm := x3\<rparr>) = en_env s" "en_env (s\<lparr>game_backing_count := n\<rparr>) = en_env s" "en_env (s\<lparr>number_of_lines := i\<rparr>) = en_env s"
  "en_env (s\<lparr>game_enum_running := b\<rparr>) = en_env s" "en_env (s\<lparr>warm_pending := b\<rparr>) = en_env s" "en_env (s\<lparr>en_info := j\<rparr>) = gi_env j"
  by (simp_all add: en_env_def set_env_def set_port_def)

lemma en_ent_set_env [simp]: "en_ent (set_env e s) = en_ent s"
  by (simp add: set_env_def)

lemma enum_get_env: "enum_get a key s = Some (b, s') \<Longrightarrow> en_env s' = en_env s"
  by (auto simp: enum_get_def)

lemma enum_put_env: "enum_put a key s = Some s' \<Longrightarrow> en_env s' = en_env s"
  by (auto simp: enum_put_def)

lemma enum_close_held: "enum_close (logged D) fd s = Some s' \<Longrightarrow> held fd (en_env s) \<Longrightarrow> held None (en_env s')"
  by (cases fd) (auto simp: enum_close_def dest: close_held)

lemma read_banner_held:
  "read_banner (logged D) a off fd s = Some s' \<Longrightarrow> held (Some fd) (en_env s) \<Longrightarrow> held None (en_env s')"
  by (auto simp: read_banner_def bind_eq_Some_conv dest!: read_held enum_close_held)

lemma stage_banner_env: "en_env (snd (snd (stage_banner a i entry aram f s))) = en_env s"
  by (simp add: stage_banner_def Let_def split: option.split prod.split)

lemma enum_game_info_held:
  "enum_game_info table (logged D) B path s = Some (info, fd, s') \<Longrightarrow> held None (en_env s) \<Longrightarrow>
    held fd (en_env s') \<and> (gi_valid info \<longleftrightarrow> fd \<noteq> None)"
  by (auto simp: enum_game_info_def en_env_def dest!: get_game_info_held)

lemma load_banner_held:
  assumes "gm_load_banner (logged D) a i entry aram f (Some fd) s = Some (b, entry', s')" "held (Some fd) (en_env s)"
  shows "held None (en_env s')"
proof (cases "dvd_bnr_offset (extra entry) = 0")
  case True
  then show ?thesis using assms by (auto simp: gm_load_banner_def dest: enum_close_held)
next
  case False
  let ?key = "gm_bnr_cache_key (e_path entry)"
  obtain found t where t: "enum_get a ?key s = Some (found, t)" using assms(1) False by (auto simp: gm_load_banner_def Let_def bind_eq_Some_conv)
  have th: "held (Some fd) (en_env t)" using enum_get_env [OF t] assms(2) by simp
  show ?thesis
  proof (cases found)
    case True
    then obtain u where "enum_close (logged D) (Some fd) t = Some u" "s' = snd (snd (stage_banner a i entry aram f u))"
      using assms(1) False t by (auto simp: gm_load_banner_def Let_def)
    then show ?thesis using enum_close_held th stage_banner_env by metis
  next
    case new: False
    then obtain u v where "read_banner (logged D) a (dvd_bnr_offset (extra entry)) fd t = Some u" "enum_put a ?key u = Some v"
      "s' = snd (snd (stage_banner a i entry aram f v))"
      using assms(1) False t by (auto simp: gm_load_banner_def Let_def bind_eq_Some_conv)
    then show ?thesis using read_banner_held th enum_put_env stage_banner_env by metis
  qed
qed

lemma check_file_closed:
  assumes "check_file table (logged D) B f p aram s = Some (aram', s')" "held None (en_env s)"
  shows "held None (en_env s')"
proof (cases "p_type p = GM_FILE_TYPE_GAME")
  case True
  obtain info fd t where t: "enum_game_info table (logged D) B (p_path p) s = Some (info, fd, t)"
    using assms(1) True by (auto simp: check_file_def bind_eq_Some_conv)
  note th = enum_game_info_held [OF t assms(2)]
  show ?thesis
  proof (cases "gi_valid info")
    case False
    then show ?thesis using assms(1) True t th by (auto simp: check_file_def)
  next
    case v: True
    then obtain d where d: "fd = Some d" using th by blast
    obtain l b u where "gm_load_banner (logged D) (bb B) (length (entry_backing (en_gm t))) (game_entry (p_path p) info) aram f fd t = Some (l, b, u)"
        "en_env s' = en_env u"
      using assms(1) True t v by (auto simp: check_file_def bind_eq_Some_conv add_entry_def)
    then show ?thesis using load_banner_held th d by metis
  qed
next
  case False
  then show ?thesis using assms by (auto simp: check_file_def add_entry_def split: if_splits)
qed

lemma check_paths_closed:
  "check_paths table (logged D) (logged_lock lk) B top_line ps aram s = Some (aram', s') \<Longrightarrow> held None (en_env s) \<Longrightarrow> held None (en_env s')"
proof (induction ps arbitrary: aram s)
  case (Cons p ps)
  obtain locked e where l: "logged_lock lk (en_env s) = (locked, e)" by (metis surj_pair)
  have e: "held None (en_env (set_env e s))" using lock_held [OF l Cons.prems(2)] by simp
  show ?case
  proof (cases locked)
    case True
    then obtain f a t where f: "check_file table (logged D) B f p aram (set_env e s) = Some (a, t)"
      "check_paths table (logged D) (logged_lock lk) B top_line ps a (t\<lparr>game_backing_count := length (entry_backing (en_gm t))\<rparr>) = Some (aram', s')"
      using Cons.prems(1) l by (auto simp: Let_def bind_eq_Some_conv)
    show ?thesis using Cons.IH [OF f(2)] check_file_closed [OF f(1) e] by simp
  qed (use Cons.prems(1) l e in \<open>auto simp: Let_def\<close>)
qed simp

lemma check_files_closed:
  "gm_check_files table (logged D) (logged_lock lk) B top_line s = Some s' \<Longrightarrow> held None (en_env s) \<Longrightarrow> held None (en_env s')"
  by (auto simp: gm_check_files_def dest: check_paths_closed)

lemma warm_file_closed:
  assumes "warm_file table (logged D) B p s = Some s'" "held None (en_env s)"
  shows "held None (en_env s')"
proof -
  obtain info fd t where t: "enum_game_info table (logged D) B (p_path p) s = Some (info, fd, t)"
    using assms(1) by (auto simp: warm_file_def bind_eq_Some_conv)
  note th = enum_game_info_held [OF t assms(2)]
  show ?thesis
  proof (cases "gi_valid info")
    case True
    then obtain d where d: "fd = Some d" using th by blast
    let ?r = "if gi_bnr_offset info = 0 then Some (True, t) else enum_get (bb B) (gm_bnr_cache_key (p_path p)) t"
    obtain found u where u: "?r = Some (found, u)" using assms(1) t True by (auto simp: warm_file_def Let_def bind_eq_Some_conv)
    then have uh: "held (Some d) (en_env u)" using th d by (auto split: if_splits dest!: enum_get_env)
    show ?thesis
    proof (cases found)
      case True
      then have "enum_close (logged D) fd u = Some s'" using assms(1) t \<open>gi_valid info\<close> u by (auto simp: warm_file_def)
      then show ?thesis using enum_close_held uh d by blast
    next
      case False
      then obtain v where "read_banner (logged D) (bb B) (gi_bnr_offset info) d u = Some v"
          "enum_put (bb B) (gm_bnr_cache_key (p_path p)) v = Some s'"
        using assms(1) t \<open>gi_valid info\<close> u d by (auto simp: warm_file_def bind_eq_Some_conv)
      then show ?thesis using read_banner_held uh enum_put_env by metis
    qed
  qed (use assms(1) t th in \<open>auto simp: warm_file_def\<close>)
qed

lemma warm_files_closed:
  "gm_warm_files table (logged D) (logged_lock lk) B ps s = Some (b, s') \<Longrightarrow> held None (en_env s) \<Longrightarrow> held None (en_env s')"
proof (induction ps arbitrary: s)
  case (Cons p ps)
  obtain locked e where l: "logged_lock lk (en_env s) = (locked, e)" by (metis surj_pair)
  have e: "held None (en_env (set_env e s))" using lock_held [OF l Cons.prems(2)] by simp
  show ?case
  proof (cases "p_type p = GM_FILE_TYPE_GAME \<and> locked")
    case True
    then obtain t where t: "warm_file table (logged D) B p (set_env e s) = Some t"
      "gm_warm_files table (logged D) (logged_lock lk) B ps t = Some (b, s')"
      using Cons.prems(1) l by (auto simp: Let_def bind_eq_Some_conv)
    show ?thesis using Cons.IH [OF t(2) warm_file_closed [OF t(1) e]] .
  qed (use Cons l e in \<open>auto simp: Let_def split: if_splits\<close>)
qed simp


text \<open>What a call leaves that returned: no file is open, or its result is an error.\<close>

definition all_closed :: "(list_error + 'a \<times> ('e \<times> call list) enum_state) \<Rightarrow> bool" where
  "all_closed r \<longleftrightarrow> (case r of Inl err \<Rightarrow> True | Inr (b, s) \<Rightarrow> held None (en_env s))"

lemma all_closed_simps [simp]: "all_closed (Inl err)" "all_closed (Inr (b, s)) \<longleftrightarrow> held None (en_env s)"
  by (simp_all add: all_closed_def)

lemma list_loop_held:
  fixes D :: "'e drive"
  shows "list_loop (logged D) dir fd paths ent e = Some r \<Longrightarrow> held (Some fd) e \<Longrightarrow>
    case r of Inl err \<Rightarrow> True | Inr (ps, ent, e) \<Rightarrow> held (Some fd) e"
proof (rule list_loop.raw_induct [where P = "\<lambda>D' dir fd paths ent e r. D' = logged D \<longrightarrow> held (Some fd) e \<longrightarrow>
    (case r of Inl err \<Rightarrow> True | Inr (ps, ent, e) \<Rightarrow> held (Some fd) e)", rule_format])
  fix list_loop :: "('e \<times> call list) drive \<Rightarrow> bytes \<Rightarrow> u32 \<Rightarrow> gm_path_entry list \<Rightarrow> dir_entry \<Rightarrow> 'e \<times> call list \<Rightarrow>
      (list_error + gm_path_entry list \<times> dir_entry \<times> 'e \<times> call list) option" and D' dir fd paths ent r and e :: "'e \<times> call list"
  assume IH: "\<And>D' dir fd paths ent (e :: 'e \<times> call list) r. list_loop D' dir fd paths ent e = Some r \<Longrightarrow> D' = logged D \<Longrightarrow> held (Some fd) e \<Longrightarrow>
      case r of Inl err \<Rightarrow> True | Inr (ps, ent, e) \<Rightarrow> held (Some fd) e"
    and D: "D' = logged D" and h: "held (Some fd) e"
  assume run: "do { (ret, ent, e) \<leftarrow> dr_readdir D' e ent fd;
     if ret \<noteq> 0 then None
     else if de_name ent = [] then Some (Inr (paths, ent, e))
     else if listed_type ent = GM_FILE_TYPE_UNKNOWN then list_loop D' dir fd paths ent e
     else let path = dir @ de_name ent
          in if PATH_SIZE \<le> length path then Some (Inl Path_Overrun)
             else let paths = paths @ [\<lparr>p_path = path, p_type = listed_type ent\<rparr>]
                  in if MAX_PATHS \<le> length paths then Some (Inr (paths, ent, e)) else list_loop D' dir fd paths ent e } = Some r"
  then obtain ret ent' e' where r: "dr_readdir D' e ent fd = Some (ret, ent', e')" by (auto simp: bind_eq_Some_conv)
  then have h': "held (Some fd) e'" using readdir_held h D by metis
  show "case r of Inl err \<Rightarrow> True | Inr (ps, ent, e) \<Rightarrow> held (Some fd) e"
    using run r h' IH [OF _ D h'] by (auto simp: Let_def split: if_splits)
qed simp_all

lemma list_files_closed:
  assumes "gm_list_files (logged D) dir s = Some r" "held None (en_env s)"
  shows "all_closed r"
proof -
  obtain res e where o: "dr_open (logged D) (en_env s) dir FILE_ENTRY_TYPE_DIR 0 = Some (res, e)"
    using assms(1) by (auto simp: gm_list_files_def bind_eq_Some_conv)
  note oh = open_held [OF o assms(2)]
  show ?thesis
  proof (cases "res = 0")
    case False
    then show ?thesis using assms(1) o oh by (auto simp: gm_list_files_def all_closed_def)
  next
    case True
    then obtain st e' where st: "dr_status (logged D) e = Some (st, e')" using assms(1) o by (auto simp: gm_list_files_def bind_eq_Some_conv)
    have sh: "(st = None \<or> st_result (the st) \<noteq> 0) \<and> files_after (snd e') = Lost
        \<or> st \<noteq> None \<and> st_result (the st) = 0 \<and> held (Some (ucast (st_fd (the st)))) e'"
      using status_held [OF st] oh True by blast
    show ?thesis
    proof (cases "st = None \<or> st_result (the st) \<noteq> 0")
      case bad: True
      then show ?thesis using assms(1) o True st sh by (cases st) (auto simp: gm_list_files_def held_def all_closed_def Let_def)
    next
      case False
      then obtain x where x: "st = Some x" "st_result x = 0" by auto
      then have h: "held (Some (ucast (st_fd x))) e'" using sh by simp
      obtain q where q: "list_loop (logged D) dir (ucast (st_fd x)) [] (en_ent s) e' = Some q"
        using assms(1) o True st x by (auto simp: gm_list_files_def bind_eq_Some_conv set_env_def)
      note qh = list_loop_held [OF q h]
      show ?thesis
      proof (cases q)
        case (Inl err)
        then show ?thesis using assms(1) o True st x q by (auto simp: gm_list_files_def all_closed_def set_env_def)
      next
        case (Inr z)
        obtain ps ent e2 where z: "z = (ps, ent, e2)" by (metis prod_cases3)
        then obtain e3 t where e3: "dr_close (logged D) e2 (ucast (st_fd x)) = Some e3" "r = Inr (True, t)" "en_env t = e3"
          using assms(1) o True st x q Inr by (auto simp: gm_list_files_def Let_def bind_eq_Some_conv)
        have "held (Some (ucast (st_fd x))) e2" using qh Inr z by simp
        then have "held None e3" using close_held [OF e3(1)] by simp
        then show ?thesis using e3 by (simp add: all_closed_def)
      qed
    qed
  qed
qed

lemma warm_dirs_closed:
  fixes D :: "'e drive"
  shows "warm_dirs table (logged D) (logged_lock lk) B skip stack s = Some r \<Longrightarrow> held None (en_env s) \<Longrightarrow> all_closed r"
proof (rule warm_dirs.raw_induct [where P = "\<lambda>table D' lk' B skip stack s r. D' = logged D \<longrightarrow> lk' = logged_lock lk \<longrightarrow>
    held None (en_env s) \<longrightarrow> all_closed r", rule_format])
  fix warm_dirs :: "(u32 \<times> u32) list \<Rightarrow> ('e \<times> call list) drive \<Rightarrow> ('e \<times> call list \<Rightarrow> bool \<times> 'e \<times> call list) \<Rightarrow> buffers \<Rightarrow>
      bytes option \<Rightarrow> bytes list \<Rightarrow> ('e \<times> call list) enum_state \<Rightarrow> (list_error + bool \<times> ('e \<times> call list) enum_state) option"
    and table D' lk' B skip stack r and s :: "('e \<times> call list) enum_state"
  assume IH: "\<And>table D' lk' B skip stack (s :: ('e \<times> call list) enum_state) r. warm_dirs table D' lk' B skip stack s = Some r \<Longrightarrow> D' = logged D \<Longrightarrow>
      lk' = logged_lock lk \<Longrightarrow> held None (en_env s) \<Longrightarrow> all_closed r"
    and D: "D' = logged D" and L: "lk' = logged_lock lk" and h: "held None (en_env s)"
  assume run: "(case stack of
        [] \<Rightarrow> Some (Inr (True, s))
      | cur # stack \<Rightarrow>
          let (locked, e) = lk' (en_env s); s = set_env e s
          in if \<not> locked then Some (Inr (False, s))
             else do {
               r \<leftarrow> gm_list_files D' cur s;
               case r of
                 Inl err \<Rightarrow> Some (Inl err)
               | Inr (opened, s) \<Rightarrow>
                   if \<not> opened then warm_dirs table D' lk' B skip stack s
                   else do {
                     (go_on, s) \<leftarrow> (if skip \<noteq> Some cur
                        then gm_warm_files table D' lk' B (sorted_path_list s) s else Some (True, s));
                     if \<not> go_on then Some (Inr (False, s))
                     else case push_dirs (sorted_path_list s) stack of
                       Inl err \<Rightarrow> Some (Inl err)
                     | Inr stack \<Rightarrow> warm_dirs table D' lk' B skip stack s
                   }
             }) = Some r"
  show "all_closed r"
  proof (cases stack)
    case Nil
    then show ?thesis using run h by (auto simp: all_closed_def)
  next
    case (Cons cur stack')
    obtain locked e where l: "lk' (en_env s) = (locked, e)" by (metis surj_pair)
    have e: "held None (en_env (set_env e s))" using lock_held l L h by fastforce
    show ?thesis
    proof (cases locked)
      case False
      then show ?thesis using run Cons l e by (auto simp: all_closed_def)
    next
      case True
      then obtain q where q: "gm_list_files D' cur (set_env e s) = Some q" using run Cons l by (auto simp: bind_eq_Some_conv)
      then have qc: "all_closed q" using list_files_closed D e by blast
      show ?thesis
      proof (cases q)
        case (Inl err)
        then show ?thesis using run Cons l True q by (auto simp: all_closed_def)
      next
        case (Inr z)
        obtain opened t where z: "z = (opened, t)" by fastforce
        then have th: "held None (en_env t)" using qc Inr by (simp add: all_closed_def)
        show ?thesis
        proof (cases opened)
          case False
          then show ?thesis using run Cons l True q Inr z IH [OF _ D L th] by auto
        next
          case op: True
          let ?w = "if skip \<noteq> Some cur then gm_warm_files table D' lk' B (sorted_path_list t) t else Some (True, t)"
          obtain go u where w: "?w = Some (go, u)" using run Cons l True q Inr z op by (auto simp: bind_eq_Some_conv)
          then have uh: "held None (en_env u)" using th warm_files_closed D L by (auto split: if_splits)
          show ?thesis using run Cons l True q Inr z op w uh IH [OF _ D L uh]
            by (auto split: if_splits sum.splits)
        qed
      qed
    qed
  qed
qed simp_all

lemma sort_files_env: "gm_sort_files s = Some s' \<Longrightarrow> en_env s' = en_env s"
  by (auto simp: gm_sort_files_def)

lemma setup_grid_env [simp]: "en_env (gm_setup_grid n s) = en_env s"
  by (simp add: gm_setup_grid_def)


section \<open>Property\<close>

text \<open>
  C35. The enumeration thread gives back every file it opens. Whatever the storage answers, when a run
  of the thread returns, each open that succeeded was followed by calls on the descriptor it got and
  by exactly one close of it before the next open, unless the status call that asks for the
  descriptor failed; from there on nothing is claimed.
\<close>

theorem thread_closes_its_files:
  assumes "gm_thread_worker table (logged D) (logged_lock lk) B top_line s = Some (Inr s')"
    and "files_after (snd (en_env s)) = Idle"
  shows "files_after (snd (en_env s')) \<in> {Idle, Lost}"
proof -
  let ?D = "logged D" and ?lk = "logged_lock lk"
  have h: "held None (en_env s)" using assms(2) by (simp add: held_def)
  have "held None (en_env s')"
  proof (cases "game_enum_path s = []")
    case True
    then show ?thesis using assms(1) h by (auto simp: gm_thread_worker_def)
  next
    case False
    obtain q where q: "gm_list_files ?D (game_enum_path s) s = Some q"
      using assms(1) False by (auto simp: gm_thread_worker_def bind_eq_Some_conv Let_def)
    note qc = list_files_closed [OF q h]
    obtain t where t: "q = Inr (True, t)"
      using assms(1) False q by (cases q) (auto simp: gm_thread_worker_def split: if_splits)
    then have th: "held None (en_env t)" using qc by (simp add: all_closed_def)
    obtain u where u: "gm_sort_files (gm_setup_grid (length (sorted_path_list t)) t) = Some u"
      using assms(1) False q t by (auto simp: gm_thread_worker_def bind_eq_Some_conv)
    have uh: "held None (en_env u)" using sort_files_env [OF u] th by simp
    obtain v where v: "gm_check_files table ?D ?lk B top_line u = Some v"
      using assms(1) False q t u by (auto simp: gm_thread_worker_def bind_eq_Some_conv)
    let ?v = "gm_setup_grid (length (entry_backing (en_gm v))) v"
    have vh: "held None (en_env ?v)" using check_files_closed [OF v uh] by simp
    let ?w = "if warm_pending ?v then gm_warm_card table ?D ?lk B (Some (game_enum_path s)) ?v else Some (Inr (False, ?v))"
    obtain y where y: "?w = Some y"
      using assms(1) False q t u v by (auto simp: gm_thread_worker_def bind_eq_Some_conv Let_def)
    obtain fin w where w: "?w = Some (Inr (fin, w))" "en_env s' = en_env w"
      using assms(1) False q t u v y by (cases y) (auto simp: gm_thread_worker_def Let_def)
    have "all_closed (Inr (fin, w) :: list_error + bool \<times> _)"
    proof (cases "warm_pending ?v")
      case True
      then have "warm_dirs table ?D ?lk B (Some (game_enum_path s)) [[slash]] ?v = Some (Inr (fin, w))"
        using w(1) by (simp add: gm_warm_card_def)
      then show ?thesis using vh by (rule warm_dirs_closed)
    next
      case False
      then show ?thesis using w(1) vh by (simp add: all_closed_def)
    qed
    then show ?thesis using w(2) by (simp add: all_closed_def)
  qed
  then show ?thesis by (auto simp: held_def)
qed


text \<open>A card with one file in its root directory, an image without a banner; the state of this drive
  counts the directory entries handed out.\<close>

definition one_file_drive :: "nat drive" where
  "one_file_drive =
     \<lparr>dr_open = (\<lambda>n path ty flags. Some (0, if ty = FILE_ENTRY_TYPE_DIR then 0 else n)),
      dr_status = (\<lambda>n. Some (Some \<lparr>st_result = 0, st_fsize = 0, st_fd = 7\<rparr>, n)),
      dr_close = (\<lambda>n fd. Some n),
      dr_readdir = (\<lambda>n ent fd. Some (0, \<lparr>de_name = (if n = 0 then str_bytes ''a.iso'' else []), de_type = 0, de_size = 0, de_attrib = 0\<rparr>, n + 1)),
      dr_read = (\<lambda>n dst len off fd. Some (0, [], n))\<rparr>"

definition fresh_enum :: "bytes \<Rightarrow> (nat \<times> call list) enum_state" where
  "fresh_enum path =
     \<lparr>en_info = \<lparr>gi_env = (0, []), gi_header = replicate 1088 0, gi_small = replicate 32 0, gi_ram = (\<lambda>_. 0)\<rparr>,
      en_ent = \<lparr>de_name = [], de_type = 0, de_size = 0, de_attrib = 0\<rparr>, en_cache = empty_cache, en_port = quiet_port,
      en_gm = \<lparr>entry_backing = [], icon_pool = replicate ASSET_BUFFER_COUNT 0, banner_pool = replicate ASSET_BUFFER_COUNT 0,
        icon_pool_addr = 0x81600000, banner_pool_addr = 0x81640000, posted = []\<rparr>,
      sorted_path_list = [], game_backing_count = 0, number_of_lines = 4, game_enum_path = path, game_enum_running = True,
      warm_pending = True\<rparr>"

definition demo_buffers :: buffers where
  "demo_buffers = \<lparr>bb = 0x81500000, small_addr = 0x81504000, header_addr = 0x81504100\<rparr>"


abbreviation LD :: "(nat \<times> call list) drive" where "LD \<equiv> logged one_file_drive"
abbreviation LK :: "nat \<times> call list \<Rightarrow> bool \<times> nat \<times> call list" where "LK \<equiv> logged_lock (Pair True)"

definition P1 :: gm_path_entry where
  "P1 = \<lparr>p_path = slash # str_bytes ''a.iso'', p_type = GM_FILE_TYPE_GAME\<rparr>"

lemma logged_one_file [simp]:
  "dr_open LD (n, l) path ty flags = Some (0, if ty = FILE_ENTRY_TYPE_DIR then 0 else n, l @ [Opened 0])"
  "dr_status LD (n, l) = Some (Some \<lparr>st_result = 0, st_fsize = 0, st_fd = 7\<rparr>, n, l @ [Status (Some \<lparr>st_result = 0, st_fsize = 0, st_fd = 7\<rparr>)])"
  "dr_close LD (n, l) fd = Some (n, l @ [Closed fd])"
  "dr_readdir LD (n, l) ent fd = Some (0, \<lparr>de_name = (if n = 0 then str_bytes ''a.iso'' else []), de_type = 0, de_size = 0, de_attrib = 0\<rparr>, n + 1, l @ [Listed fd])"
  "dr_read LD (n, l) dst len off fd = Some (0, [], n, l @ [Read fd])"
  by (simp_all add: logged_def one_file_drive_def)

lemma a_iso: "listed_type \<lparr>de_name = str_bytes ''a.iso'', de_type = 0, de_size = 0, de_attrib = 0\<rparr> = GM_FILE_TYPE_GAME"
  "str_bytes ''a.iso'' \<noteq> []" "length (str_bytes ''a.iso'') = 5"
  by code_simp+

lemma list_one: "list_loop LD [slash] fd [] ent (0, l) =
    Some (Inr ([P1], \<lparr>de_name = [], de_type = 0, de_size = 0, de_attrib = 0\<rparr>, 2, l @ [Listed fd, Listed fd]))"
proof -
  have "list_loop LD [slash] fd [P1] ent (1, l) = Some (Inr ([P1], \<lparr>de_name = [], de_type = 0, de_size = 0, de_attrib = 0\<rparr>, 2, l @ [Listed fd]))" for ent l
    by (subst list_loop.simps) simp
  then show ?thesis
    by (subst list_loop.simps) (simp add: a_iso P1_def PATH_SIZE_def MAX_PATHS_def Let_def)
qed

definition st7 :: call where "st7 = Status (Some \<lparr>st_result = 0, st_fsize = 0, st_fd = 7\<rparr>)"
definition dir_log :: "call list" where "dir_log = [Opened 0, st7, Listed 7, Listed 7, Closed 7]"
definition game_log :: "call list" where "game_log = [Opened 0, st7, Read 7, Read 7, Closed 7]"

lemma info_one:
  assumes "en_env s = (n, l)" "gi_header (en_info s) = replicate 1088 0" "gi_ram (en_info s) = (\<lambda>_. 0)"
  shows "enum_game_info [] LD B path s = Some (no_game, None, set_env (n, l @ game_log) s)"
proof -
  have h: "en_info s = \<lparr>gi_env = (n, l), gi_header = replicate 1088 0, gi_small = gi_small (en_info s), gi_ram = (\<lambda>_. 0)\<rparr>"
    using assms by (cases "en_info s") (simp add: en_env_def)
  show ?thesis
    unfolding enum_game_info_def set_env_def by (subst (1 2) h)
     (simp add: get_game_info_def read_header_def identify_game_def get_banner_offset_fast_def hdr_DOLOffset_def
       hdr_FSTSize_def be32_def get_banner_offset_slow_def mem_be32_def store_bytes_def reject_def Let_def FILE_ENTRY_TYPE_FILE_def
       FILE_ENTRY_TYPE_DIR_def FST_ADDR_def game_log_def st7_def)
qed


lemma list_files_any:
  assumes "en_env s = (n, l)"
  shows "\<exists>t. gm_list_files LD [slash] s = Some (Inr (True, t)) \<and> en_env t = (2, l @ dir_log) \<and> sorted_path_list t = [P1]
    \<and> warm_pending t = warm_pending s \<and> entry_backing (en_gm t) = entry_backing (en_gm s)
    \<and> gi_header (en_info t) = gi_header (en_info s) \<and> gi_ram (en_info t) = gi_ram (en_info s)"
  using assms by (simp add: gm_list_files_def list_one Let_def set_env_def dir_log_def st7_def en_env_def)

lemma check_one:
  assumes "en_env s = (n, l)" "gi_header (en_info s) = replicate 1088 0" "gi_ram (en_info s) = (\<lambda>_. 0)"
    "sorted_path_list s = [P1]" "entry_backing (en_gm s) = []"
  shows "\<exists>t. gm_check_files [] LD LK B (\<lambda>_. 0) s = Some t \<and> en_env t = (n, l @ game_log) \<and> warm_pending t = warm_pending s"
proof -
  have "enum_game_info [] LD B path (set_env (n, l) s) = Some (no_game, None, set_env (n, l @ game_log) (set_env (n, l) s))" for path
    using assms by (intro info_one) (simp_all add: set_env_def)
  then have "check_file [] LD B f P1 aram (set_env (n, l) s) = Some (aram, set_env (n, l @ game_log) (set_env (n, l) s))" for f aram
    by (simp add: check_file_def P1_def no_game_def)
  then show ?thesis using assms by (simp add: gm_check_files_def Let_def logged_lock_def) (simp add: set_env_def en_env_def)
qed

lemma warm_one:
  assumes "en_env s = (n, l)"
  shows "\<exists>t. gm_warm_card [] LD LK B (Some [slash]) s = Some (Inr (True, t)) \<and> en_env t = (2, l @ dir_log)"
proof -
  obtain t where t: "gm_list_files LD [slash] (set_env (n, l) s) = Some (Inr (True, t))" "en_env t = (2, l @ dir_log)" "sorted_path_list t = [P1]"
    using list_files_any [of "set_env (n, l) s" n l] by auto
  have "warm_dirs [] LD LK B (Some [slash]) [] t = Some (Inr (True, t))" by (subst warm_dirs.simps) simp
  then show ?thesis using t assms
    unfolding gm_warm_card_def by (subst warm_dirs.simps) (simp add: logged_lock_def P1_def)
qed

lemma one_file_run:
  "\<exists>t. gm_thread_worker [] LD LK B (\<lambda>_. 0) (fresh_enum [slash]) = Some (Inr t) \<and> snd (en_env t) = dir_log @ game_log @ dir_log"
proof -
  obtain t where t: "gm_list_files LD [slash] (fresh_enum [slash]) = Some (Inr (True, t))" "en_env t = (2, dir_log)" "sorted_path_list t = [P1]"
    "warm_pending t" "entry_backing (en_gm t) = []" "gi_header (en_info t) = replicate 1088 0" "gi_ram (en_info t) = (\<lambda>_. 0)"
    using list_files_any [of "fresh_enum [slash]" 0 "[]"] by (auto simp: fresh_enum_def en_env_def)
  let ?t = "(gm_setup_grid (Suc 0) t)\<lparr>sorted_path_list := [P1]\<rparr>"
  have "qsort gm_cmp_path_entry [P1] = Some [P1]" by (simp add: qsort_def qsort_loop.simps qsort_step_def insertion_sort_def)
  then have s: "gm_sort_files (gm_setup_grid (Suc 0) t) = Some ?t" using t(3) by (simp add: gm_sort_files_def gm_setup_grid_def)
  obtain u where u: "gm_check_files [] LD LK B (\<lambda>_. 0) ?t = Some u" "en_env u = (2, dir_log @ game_log)" "warm_pending u"
    using check_one [of ?t 2 dir_log B] t by (auto simp: gm_setup_grid_def en_env_def)
  obtain v where v: "gm_warm_card [] LD LK B (Some [slash]) (gm_setup_grid (length (entry_backing (en_gm u))) u) = Some (Inr (True, v))"
    "en_env v = (2, dir_log @ game_log @ dir_log)"
    using warm_one [of "gm_setup_grid (length (entry_backing (en_gm u))) u" 2 "dir_log @ game_log" B] u by auto
  have "warm_pending (gm_setup_grid (length (entry_backing (en_gm u))) u)" using u(3) by (simp add: gm_setup_grid_def)
  then show ?thesis using t(1,3) s u(1) v by (simp add: gm_thread_worker_def fresh_enum_def)
qed

theorem thread_closes_its_files_witness:
  "\<exists>s'. gm_thread_worker [] LD LK demo_buffers (\<lambda>_. 0) (fresh_enum [slash]) = Some (Inr s') \<and>
     files_after (snd (en_env s')) \<in> {Idle, Lost} \<and> length (snd (en_env s')) = 15"
proof -
  obtain s' where s: "gm_thread_worker [] LD LK demo_buffers (\<lambda>_. 0) (fresh_enum [slash]) = Some (Inr s')"
      "snd (en_env s') = dir_log @ game_log @ dir_log"
    using one_file_run by blast
  have "files_after (snd (en_env (fresh_enum [slash]))) = Idle" by (simp add: fresh_enum_def en_env_def files_after_def)
  from thread_closes_its_files [OF s(1) this] s show ?thesis by (auto simp: dir_log_def game_log_def)
qed

end
