(* ===== verification/GameListProps.thy ===== *)
theory GameListProps
  imports GameFiles
begin

text \<open>
  What the enumeration produces: the paths of a listing, the areas of ARAM the pictures get, the way
  into a directory and back, and what happens when an image cannot be read.
\<close>

section \<open>Listing\<close>

definition path_ok :: "bytes \<Rightarrow> gm_path_entry \<Rightarrow> bool" where
  "path_ok dir p \<longleftrightarrow> length (p_path p) < PATH_SIZE \<and> p_type p \<noteq> GM_FILE_TYPE_UNKNOWN
     \<and> (\<exists>name. p_path p = dir @ name \<and> \<not> check_file_hidden name)"

definition listing_ok :: "bytes \<Rightarrow> gm_path_entry list \<Rightarrow> list_error + gm_path_entry list \<times> dir_entry \<times> 'e \<Rightarrow> bool" where
  "listing_ok dir paths r \<longleftrightarrow> (case r of Inl err \<Rightarrow> True | Inr (ps, ent, e) \<Rightarrow> length ps \<le> MAX_PATHS \<and> (\<exists>qs. ps = paths @ qs \<and> (\<forall>p \<in> set qs. path_ok dir p)))"

lemma listing_ok_simps [simp]: "listing_ok dir paths (Inl err)"
  "listing_ok dir paths (Inr (ps, ent, e)) \<longleftrightarrow> length ps \<le> MAX_PATHS \<and> (\<exists>qs. ps = paths @ qs \<and> (\<forall>p \<in> set qs. path_ok dir p))"
  by (simp_all add: listing_ok_def)

lemma path_ok_listed:
  "listed_type ent \<noteq> GM_FILE_TYPE_UNKNOWN \<Longrightarrow> length (dir @ de_name ent) < PATH_SIZE \<Longrightarrow> path_ok dir \<lparr>p_path = dir @ de_name ent, p_type = listed_type ent\<rparr>"
  by (auto simp: path_ok_def listed_type_def split: if_splits)

lemma listing_ok_step: "listing_ok dir (paths @ [p]) r \<Longrightarrow> path_ok dir p \<Longrightarrow> listing_ok dir paths r"
  by (cases r) fastforce+

lemma list_loop_ok:
  "list_loop D dir fd paths ent e = Some r \<Longrightarrow> length paths < MAX_PATHS \<Longrightarrow> listing_ok dir paths r"
proof (rule list_loop.raw_induct [where P = "\<lambda>D dir fd paths ent e r. length paths < MAX_PATHS \<longrightarrow> listing_ok dir paths r", rule_format])
  fix list_loop :: "'a drive \<Rightarrow> bytes \<Rightarrow> u32 \<Rightarrow> gm_path_entry list \<Rightarrow> dir_entry \<Rightarrow> 'a \<Rightarrow>
      (list_error + gm_path_entry list \<times> dir_entry \<times> 'a) option" and D dir fd ent e r and paths :: "gm_path_entry list"
  assume IH: "\<And>D dir fd paths ent e r. list_loop D dir fd paths ent e = Some r \<Longrightarrow> length paths < MAX_PATHS \<Longrightarrow> listing_ok dir paths r"
    and len: "length paths < MAX_PATHS"
  assume run: "do { (ret, ent, e) \<leftarrow> dr_readdir D e ent fd;
     if ret \<noteq> 0 then None
     else if de_name ent = [] then Some (Inr (paths, ent, e))
     else if listed_type ent = GM_FILE_TYPE_UNKNOWN then list_loop D dir fd paths ent e
     else let path = dir @ de_name ent
          in if PATH_SIZE \<le> length path then Some (Inl Path_Overrun)
             else let paths = paths @ [\<lparr>p_path = path, p_type = listed_type ent\<rparr>]
                  in if MAX_PATHS \<le> length paths then Some (Inr (paths, ent, e)) else list_loop D dir fd paths ent e } = Some r"
  obtain ret ent1 e1 where d: "dr_readdir D e ent fd = Some (ret, ent1, e1)" using run by (auto simp: bind_eq_Some_conv)
  let ?p = "\<lparr>p_path = dir @ de_name ent1, p_type = listed_type ent1\<rparr>"
  consider "r = Inr (paths, ent1, e1)" | "r = Inl Path_Overrun"
    | "listed_type ent1 = GM_FILE_TYPE_UNKNOWN" "list_loop D dir fd paths ent1 e1 = Some r"
    | "path_ok dir ?p" "r = Inr (paths @ [?p], ent1, e1)"
    | "path_ok dir ?p" "length (paths @ [?p]) < MAX_PATHS" "list_loop D dir fd (paths @ [?p]) ent1 e1 = Some r"
    using run d path_ok_listed [of ent1 dir] by (auto simp: Let_def not_le split: if_splits)
  then show "listing_ok dir paths r"
  proof cases
    case 3
    show ?thesis by (rule IH [OF 3(2) len])
  next
    case 4
    then show ?thesis using len by auto
  next
    case 5
    show ?thesis by (rule listing_ok_step [OF IH [OF 5(3,2)] 5(1)])
  qed (use len in auto)
qed simp_all




section \<open>Areas of ARAM\<close>

definition banner_offsets :: "gm_file_entry list \<Rightarrow> nat list" where
  "banner_offsets es = map (\<lambda>e. unat (aram_offset (e_banner e))) es"

text \<open>The areas that were given out lie between the 1 MB mark and \<open>limit\<close>, in the order of the entries.
  An entry whose banner was not staged has the offset 0.\<close>

definition areas_ok :: "nat \<Rightarrow> nat list \<Rightarrow> bool" where
  "areas_ok limit offs \<longleftrightarrow> (\<forall>i < length offs. offs ! i \<noteq> 0 \<longrightarrow> 0x100000 \<le> offs ! i \<and> offs ! i + 6144 \<le> limit
     \<and> (\<forall>j < length offs. i < j \<longrightarrow> offs ! j \<noteq> 0 \<longrightarrow> offs ! i + 6144 \<le> offs ! j))"

lemma areas_ok_mono: "areas_ok l offs \<Longrightarrow> l \<le> l' \<Longrightarrow> areas_ok l' offs"
  by (fastforce simp: areas_ok_def)

lemma areas_ok_skip: "areas_ok l offs \<Longrightarrow> areas_ok l (offs @ [0])"
  by (auto simp: areas_ok_def nth_append)

lemma areas_ok_add:
  assumes "areas_ok l offs" "0x100000 \<le> l"
  shows "areas_ok (l + 8192) (offs @ [l])"
  unfolding areas_ok_def
proof (intro allI impI)
  fix i assume i: "i < length (offs @ [l])" "(offs @ [l]) ! i \<noteq> 0"
  show "0x100000 \<le> (offs @ [l]) ! i \<and> (offs @ [l]) ! i + 6144 \<le> l + 8192 \<and>
      (\<forall>j<length (offs @ [l]). i < j \<longrightarrow> (offs @ [l]) ! j \<noteq> 0 \<longrightarrow> (offs @ [l]) ! i + 6144 \<le> (offs @ [l]) ! j)"
  proof (cases "i < length offs")
    case True
    then have "0x100000 \<le> offs ! i" "offs ! i + 6144 \<le> l" "\<forall>j<length offs. i < j \<longrightarrow> offs ! j \<noteq> 0 \<longrightarrow> offs ! i + 6144 \<le> offs ! j"
      using assms(1) i by (auto simp: areas_ok_def nth_append)
    then show ?thesis using True by (auto simp: nth_append less_Suc_eq)
  next
    case False
    then show ?thesis using i assms(2) by (auto simp: nth_append less_Suc_eq)
  qed
qed

lemma load_banner_area:
  assumes "gm_load_banner D a i entry aram f fd s = Some (b, entry', s')" "aram_offset (e_banner entry) = 0"
  shows "entry_backing (en_gm s') = entry_backing (en_gm s) \<and> aram_offset (e_banner entry') \<in> {0, aram}"
proof -
  have st: "entry_backing (en_gm t') = entry_backing (en_gm t) \<and> aram_offset (e_banner e') \<in> {0, aram}"
    if "stage_banner a i entry aram f t = (b, e', t')" for t b e' t'
    using that assms(2) by (auto simp: stage_banner_def Let_def gm_banner_setup_def gm_banner_setup_unload_def split: option.splits if_splits)
  have cl: "en_gm t' = en_gm t" if "enum_close D fd t = Some t'" for fd t t'
    using that by (auto simp: enum_close_def set_env_def split: option.splits)
  have g: "en_gm t' = en_gm t" if "enum_get a k t = Some (x, t')" for k x t t' using that by (auto simp: enum_get_def set_port_def)
  have p: "en_gm t' = en_gm t" if "enum_put a k t = Some t'" for k t t' using that by (auto simp: enum_put_def)
  have r: "en_gm t' = en_gm t" if "read_banner D a off fd t = Some t'" for off fd t t'
    using that by (auto simp: read_banner_def bind_eq_Some_conv set_env_def set_port_def dest!: cl)
  show ?thesis
  proof (cases "dvd_bnr_offset (extra entry) = 0")
    case True
    then show ?thesis using assms by (auto simp: gm_load_banner_def dest: cl)
  next
    case False
    let ?k = "gm_bnr_cache_key (e_path entry)"
    obtain found t where t: "enum_get a ?k s = Some (found, t)" using assms(1) False by (auto simp: gm_load_banner_def Let_def bind_eq_Some_conv)
    show ?thesis
    proof (cases found)
      case True
      then obtain u where "enum_close D fd t = Some u" "stage_banner a i entry aram f u = (b, entry', s')"
        using assms(1) False t by (auto simp: gm_load_banner_def Let_def)
      then show ?thesis using cl st g [OF t] by metis
    next
      case new: False
      let ?o = "case fd of Some fd \<Rightarrow> Some (Some fd, t)
           | None \<Rightarrow> do {
               (r, e) \<leftarrow> dr_open D (en_env t) (e_path entry) FILE_ENTRY_TYPE_FILE
                  (IPC_FILE_FLAG_DISABLECACHE OR IPC_FILE_FLAG_DISABLESPEEDEMU);
               (status, e) \<leftarrow> dr_status D e;
               Some (case status of None \<Rightarrow> None | Some st \<Rightarrow> if st_result st \<noteq> 0 then None else Some (ucast (st_fd st)), set_env e t)
             }"
      obtain fd' u where u: "?o = Some (fd', u)" using assms(1) False t new by (auto simp: gm_load_banner_def Let_def bind_eq_Some_conv)
      then have ug: "en_gm u = en_gm t" by (auto simp: bind_eq_Some_conv set_env_def split: option.splits)
      show ?thesis
      proof (cases fd')
        case None
        then show ?thesis using assms False t new u ug g [OF t] by (auto simp: gm_load_banner_def Let_def)
      next
        case (Some d)
        then obtain v w where "read_banner D a (dvd_bnr_offset (extra entry)) d u = Some v" "enum_put a ?k v = Some w"
          "stage_banner a i entry aram f w = (b, entry', s')"
          using assms False t new u by (auto simp: gm_load_banner_def Let_def bind_eq_Some_conv)
        then show ?thesis using r p st ug g [OF t] by metis
      qed
    qed
  qed
qed


abbreviation offsets :: "'e enum_state \<Rightarrow> nat list" where
  "offsets s \<equiv> banner_offsets (entry_backing (en_gm s))"

lemma check_file_area:
  assumes "check_file table D B f p aram s = Some (aram', s')" "areas_ok (unat aram) (offsets s)"
    "0x100000 \<le> unat aram" "unat aram < 0x1000000"
  shows "areas_ok (unat aram') (offsets s') \<and> unat aram \<le> unat aram' \<and> unat aram' \<le> unat aram + 8192"
proof -
  have n: "unat (aram + 8192) = unat aram + 8192" "unat (aram + 2048) = unat aram + 2048"
    using assms(4) by (simp_all add: unat_word_ariths)
  have eq: "aram + BNR_PIXELDATA_LEN + ICON_PIXELDATA_LEN = aram + 8192" "aram + ICON_PIXELDATA_LEN = aram + 2048"
    by (simp_all add: BNR_PIXELDATA_LEN_def ICON_PIXELDATA_LEN_def)
  consider "aram' = aram" "offsets s' = offsets s" | "aram' = aram + 2048" "offsets s' = offsets s @ [0]"
    | "aram' = aram + 8192" "offsets s' = offsets s @ [0]" | "aram' = aram + 8192" "offsets s' = offsets s @ [unat aram]"
  proof (cases "p_type p = GM_FILE_TYPE_GAME")
    case True
    obtain info fd t where t: "enum_game_info table D B (p_path p) s = Some (info, fd, t)"
      using assms(1) True by (auto simp: check_file_def bind_eq_Some_conv)
    then have tg: "en_gm t = en_gm s" by (auto simp: enum_game_info_def)
    show ?thesis
    proof (cases "gi_valid info")
      case False
      then show ?thesis using that(1) assms(1) True t tg by (auto simp: check_file_def)
    next
      case v: True
      obtain l e u where u: "gm_load_banner D (bb B) (length (entry_backing (en_gm t))) (game_entry (p_path p) info) aram f fd t = Some (l, e, u)"
          "aram' = aram + 8192" "s' = add_entry (e\<lparr>use_banner := True\<rparr>) u"
        using assms(1) True t v eq by (auto simp: check_file_def bind_eq_Some_conv)
      have "aram_offset (e_banner (game_entry (p_path p) info)) = 0" by (simp add: game_entry_def empty_entry_def no_part_def)
      from load_banner_area [OF u(1) this] show ?thesis using that(3,4) u tg by (auto simp: add_entry_def banner_offsets_def)
    qed
  next
    case False
    then show ?thesis using that(1,2) assms(1) eq
      by (auto simp: check_file_def add_entry_def other_entry_def empty_entry_def no_part_def banner_offsets_def split: if_splits)
  qed
  then show ?thesis
    using assms(2,3) n areas_ok_add [of "unat aram" "offsets s"] areas_ok_skip [of "unat aram" "offsets s"] areas_ok_mono [of "unat aram" "offsets s @ [0]"]
    by cases auto
qed

lemma check_paths_areas:
  assumes "check_paths table D lk B top_line ps aram s = Some (aram', s')" "areas_ok (unat aram) (offsets s)"
    "0x100000 \<le> unat aram" "unat aram + 8192 * length ps \<le> 0x1000000"
  shows "areas_ok (unat aram + 8192 * length ps) (offsets s')"
  using assms
proof (induction ps arbitrary: aram s)
  case (Cons p ps)
  obtain locked e where l: "lk (en_env s) = (locked, e)" by (metis surj_pair)
  have o: "offsets (set_env e s) = offsets s" by (simp add: set_env_def)
  show ?case
  proof (cases locked)
    case False
    then show ?thesis using Cons.prems l o areas_ok_mono [of "unat aram" "offsets s"] by (auto simp: Let_def)
  next
    case True
    then obtain f a t where f: "check_file table D B f p aram (set_env e s) = Some (a, t)"
      "check_paths table D lk B top_line ps a (t\<lparr>game_backing_count := length (entry_backing (en_gm t))\<rparr>) = Some (aram', s')"
      using Cons.prems(1) l by (auto simp: Let_def bind_eq_Some_conv)
    have a: "areas_ok (unat a) (offsets t)" "unat aram \<le> unat a" "unat a \<le> unat aram + 8192"
      using check_file_area [OF f(1)] Cons.prems o by auto
    have "areas_ok (unat a + 8192 * length ps) (offsets s')"
      using Cons.IH [OF f(2)] a Cons.prems(3,4) by simp
    then show ?thesis by (rule areas_ok_mono) (use a in simp)
  qed
qed simp

lemma pair_disc_offsets: "banner_offsets (pair_disc i j es) = banner_offsets es"
proof -
  have u: "(map f es)[k := f (es ! k)] = map f es" for f :: "gm_file_entry \<Rightarrow> nat" and k es
    by (cases "k < length es") (auto intro!: nth_equalityI simp: nth_list_update list_update_beyond)
  show ?thesis by (simp add: pair_disc_def banner_offsets_def map_update u [of "\<lambda>e. unat (aram_offset (e_banner e))"])
qed

lemma pair_discs_offsets: "banner_offsets (pair_discs es) = banner_offsets es"
proof -
  have "banner_offsets (foldl (\<lambda>es j. pair_disc i j es) es js) = banner_offsets es" for i js es
    by (induction js arbitrary: es) (simp_all add: pair_disc_offsets)
  then have "banner_offsets (pair_entry i es) = banner_offsets es" for i es by (simp add: pair_entry_def)
  then have "banner_offsets (foldl (\<lambda>es i. pair_entry i es) es js) = banner_offsets es" for js es
    by (induction js arbitrary: es) simp_all
  then show ?thesis by (simp add: pair_discs_def)
qed

text \<open>
  C36. The areas of ARAM the banners are staged in do not overlap: for a directory of at most 908 paths,
  whatever the storage answers, every staged banner has 6144 bytes of its own between the 1 MB mark
  and the lowest of the 1024 slots of the banner cache, and an entry's area ends before that of any
  later entry begins.
\<close>

theorem staged_banners_apart:
  assumes "gm_check_files table D lk B top_line s = Some s'" "entry_backing (en_gm s) = []"
    and "length (sorted_path_list s) \<le> 908"
    and "i < length (entry_backing (en_gm s'))" "offsets s' ! i \<noteq> 0"
  shows "0x100000 \<le> offsets s' ! i
    \<and> (\<forall>k < of_nat BNR_CACHE_SIZE. offsets s' ! i + 6144 \<le> unat (slot_offset k))
    \<and> (\<forall>j < length (entry_backing (en_gm s')). i < j \<longrightarrow> offsets s' ! j \<noteq> 0 \<longrightarrow> offsets s' ! i + 6144 \<le> offsets s' ! j)"
proof -
  obtain aram t where t: "check_paths table D lk B top_line (sorted_path_list s) 0x100000 s = Some (aram, t)"
    "offsets s' = offsets t"
    using assms(1) by (auto simp: gm_check_files_def pair_discs_offsets)
  have "areas_ok (unat (0x100000 :: u32)) (offsets s)" using assms(2) by (simp add: areas_ok_def banner_offsets_def)
  then have "areas_ok (0x100000 + 8192 * length (sorted_path_list s)) (offsets s')"
    using check_paths_areas [OF t(1)] assms(3) t(2) by simp
  then have a: "areas_ok 0x818000 (offsets s')" by (rule areas_ok_mono) (use assms(3) in simp)
  have "0x818000 \<le> unat (slot_offset k)" if "k < of_nat BNR_CACHE_SIZE" for k
    using unat_slot_offset [OF that] that by (simp add: BNR_CACHE_SIZE_def word_less_nat_alt)
  then show ?thesis using a assms(4,5) by (fastforce simp: areas_ok_def banner_offsets_def)
qed


text \<open>An image whose header is known to the table of banner offsets, and that has a banner there.\<close>

definition banner_drive :: "nat drive" where
  "banner_drive = one_file_drive\<lparr>dr_read := (\<lambda>n dst len off fd. Some (0, if len = 32 then [0x42, 0x4E, 0x52, 0x31] else [], n))\<rparr>"

definition known_header :: bytes where
  "known_header = (replicate 1088 0)[0x423 := 1]"

definition known_table :: "(u32 \<times> u32) list" where
  "known_table = [(tinf_crc32 known_header DISK_HEADER_SIZE, 0x2000)]"

definition one_game_enum :: "nat enum_state" where
  "one_game_enum =
     \<lparr>en_info = \<lparr>gi_env = 0, gi_header = known_header, gi_small = replicate 32 0, gi_ram = (\<lambda>_. 0)\<rparr>,
      en_ent = \<lparr>de_name = [], de_type = 0, de_size = 0, de_attrib = 0\<rparr>, en_cache = empty_cache, en_port = quiet_port,
      en_gm = \<lparr>entry_backing = [], icon_pool = replicate ASSET_BUFFER_COUNT 0, banner_pool = replicate ASSET_BUFFER_COUNT 0,
        icon_pool_addr = 0x81600000, banner_pool_addr = 0x81640000, posted = []\<rparr>,
      sorted_path_list = [P1], game_backing_count = 0, number_of_lines = 4, game_enum_path = [slash], game_enum_running = True,
      warm_pending = True\<rparr>"

definition known_game :: game_info where
  "known_game = game_of known_header BANNER_MAGIC_1 0x2000"

lemma banner_info:
  "enum_game_info known_table banner_drive demo_buffers (p_path P1) one_game_enum =
     Some (known_game, Some 7, one_game_enum\<lparr>en_info := (en_info one_game_enum)\<lparr>gi_small := [0x42, 0x4E, 0x52, 0x31] @ replicate 28 0\<rparr>\<rparr>)"
proof -
  have "hdr_DOLOffset known_header = 1" by (simp add: hdr_DOLOffset_def known_header_def be32_def)
  moreover have "be32 ([0x42, 0x4E, 0x52, 0x31] @ replicate 28 0) 0 = BANNER_MAGIC_1" by (simp add: be32_def BANNER_MAGIC_1_def)
  moreover have "blit (replicate 32 0) 0 [0x42, 0x4E, 0x52, 0x31] = [0x42, 0x4E, 0x52, 0x31] @ replicate 28 (0 :: u8)" by (simp add: blit_def)
  ultimately show ?thesis
    by (simp add: enum_game_info_def get_game_info_def read_header_def read_small_def identify_game_def get_banner_offset_fast_def
       known_table_def banner_drive_def one_file_drive_def one_game_enum_def hand_over_def is_banner_def known_game_def Let_def
       FILE_ENTRY_TYPE_FILE_def FILE_ENTRY_TYPE_DIR_def DISK_HEADER_SIZE_def)
qed


lemma find_entry_empty: "find_entry key (entries empty_cache) = None"
proof -
  have "find_entry key (replicate n \<lparr>ce_key = 0, ce_offset = 0, ce_valid = False\<rparr>) = None" for n
    by (induction n) auto
  then show ?thesis by (simp add: empty_cache_def)
qed

lemma banner_load:
  assumes "en_cache s = empty_cache" "port_idle (en_port s)" "banner_pool (en_gm s) = replicate ASSET_BUFFER_COUNT 0"
    "entry_backing (en_gm s) = []" "dvd_bnr_offset (extra entry) \<noteq> 0"
  shows "\<exists>e t. gm_load_banner banner_drive a i entry aram False (Some 7) s = Some (True, e, t)
    \<and> entry_backing (en_gm t) = [] \<and> aram_offset (e_banner e) = aram"
proof -
  let ?key = "gm_bnr_cache_key (e_path entry)"
  have g: "enum_get a ?key s = Some (False, s)"
    using assms(1) find_entry_empty by (simp add: enum_get_def bnr_cache_get_def set_port_def)
  obtain u where u: "read_banner banner_drive a (dvd_bnr_offset (extra entry)) 7 s = Some u" "en_cache u = empty_cache"
    "port_idle (en_port u)" "en_gm u = en_gm s"
    using assms(1,2) by (auto simp: read_banner_def banner_drive_def one_file_drive_def enum_close_def set_env_def set_port_def write_ram_def
      port_idle_def)
  have "slot_offset (next_index empty_cache) \<in> slots" unfolding slots_def by (rule imageI) (simp add: empty_cache_def BNR_CACHE_SIZE_def)
  from store_copies [OF u(3) this, of a] obtain v where v: "enum_put a ?key u = Some v" "en_gm v = en_gm s"
    using u(2,4) find_entry_empty by (auto simp: enum_put_def bnr_cache_put_def Let_def)
  have "free_slot (banner_pool (en_gm v)) = Some 0" using v(2) assms(3) by (simp add: ASSET_BUFFER_COUNT_def numeral_eq_Suc)
  then have "\<exists>e t. stage_banner a i entry aram False v = (True, e, t) \<and> entry_backing (en_gm t) = [] \<and> aram_offset (e_banner e) = aram"
    using v(2) assms(4) by (simp add: stage_banner_def gm_get_banner_buf_def gm_banner_setup_def Let_def)
  then show ?thesis using g u(1) v(1) assms(5) by (simp add: gm_load_banner_def)
qed

lemma one_game_run:
  "\<exists>s'. gm_check_files known_table banner_drive (Pair True) demo_buffers (\<lambda>_. 0) one_game_enum = Some s' \<and> offsets s' = [0x100000]"
proof -
  let ?t = "one_game_enum\<lparr>en_info := (en_info one_game_enum)\<lparr>gi_small := [0x42, 0x4E, 0x52, 0x31] @ replicate 28 0\<rparr>\<rparr>"
  have e: "set_env (en_env one_game_enum) one_game_enum = one_game_enum" by (simp add: set_env_def en_env_def)
  obtain ent u where u: "gm_load_banner banner_drive (bb demo_buffers) 0 (game_entry (p_path P1) known_game) 0x100000 False (Some 7) ?t = Some (True, ent, u)"
    "entry_backing (en_gm u) = []" "aram_offset (e_banner ent) = 0x100000"
    using banner_load [of ?t "game_entry (p_path P1) known_game" "bb demo_buffers" 0 "0x100000"] quiet_port_idle
    by (auto simp: one_game_enum_def game_entry_def known_game_def game_of_def)
  have "gi_valid known_game" by (simp add: known_game_def game_of_def)
  moreover have "entry_backing (en_gm ?t) = []" "entry_backing (en_gm one_game_enum) = []" "sorted_path_list one_game_enum = [P1]" "p_type P1 = GM_FILE_TYPE_GAME"
    by (simp_all add: one_game_enum_def P1_def)
  moreover have "banner_offsets (pair_discs [ent\<lparr>use_banner := True\<rparr>]) = [0x100000]"
    unfolding pair_discs_offsets using u(3) by (simp add: banner_offsets_def)
  ultimately show ?thesis using banner_info u e
    by (simp add: gm_check_files_def check_file_def Let_def ASSETS_INITIAL_COUNT_def add_entry_def)
qed

lemma staged_banners_apart_witness:
  "\<exists>s'. gm_check_files known_table banner_drive (Pair True) demo_buffers (\<lambda>_. 0) one_game_enum = Some s'
    \<and> offsets s' = [0x100000] \<and> offsets s' ! 0 + 6144 \<le> unat (slot_offset 1023)"
proof -
  obtain s' where s: "gm_check_files known_table banner_drive (Pair True) demo_buffers (\<lambda>_. 0) one_game_enum = Some s'"
      "offsets s' = [0x100000]"
    using one_game_run by blast
  have "entry_backing (en_gm one_game_enum) = []" "length (sorted_path_list one_game_enum) \<le> 908" by (simp_all add: one_game_enum_def)
  moreover have "0 < length (entry_backing (en_gm s'))" "offsets s' ! 0 \<noteq> 0" using s(2) by (auto simp: banner_offsets_def)
  ultimately show ?thesis using staged_banners_apart [OF s(1), of 0] s by (simp add: BNR_CACHE_SIZE_def)
qed


section \<open>Into a directory and back\<close>

lemma strrchr_last: "c \<notin> set name \<Longrightarrow> strrchr c (d @ [c] @ name) = Some (c # name)"
  by (simp add: strrchr_def takeWhile_append)

lemma enter_path:
  assumes "slash \<notin> set name" "name \<noteq> []" "length (d @ [slash] @ name @ [slash]) < PATH_SIZE"
  shows "target_path cur (d @ [slash] @ name) = Inr (d @ [slash] @ name @ [slash])"
proof -
  have "slash \<notin> set dot_dot" by code_simp
  then have "d @ [slash] @ name \<noteq> dot_dot" by (metis in_set_conv_decomp append_Cons append_Nil)
  moreover have "last (d @ [slash] @ name) \<noteq> slash" using assms(1,2) last_in_set [of name] by (metis append_is_Nil_conv last_appendR)
  ultimately show ?thesis using assms(3) by (simp add: target_path_def Let_def)
qed

lemma leave_path:
  assumes "slash \<notin> set name" "name \<noteq> []" "d = [] \<or> last d \<noteq> slash" "length (d @ [slash]) < PATH_SIZE"
  shows "target_path (d @ [slash] @ name @ [slash]) dot_dot = Inr (d @ [slash])"
proof -
  have b: "butlast (d @ [slash] @ name @ [slash]) = d @ [slash] @ name" by (simp add: butlast_append)
  have "parent_path (d @ [slash] @ name @ [slash]) = (if d = [] then [slash] else d)"
    unfolding parent_path_def b by (simp add: strrchr_last [OF assms(1), simplified] Let_def)
  then show ?thesis using assms(3,4) by (auto simp: target_path_def Let_def)
qed



section \<open>An image that cannot be read\<close>

lemma identify_valid:
  assumes "identify_game table D keep small fd s = Some (info, out, s')" "gi_valid info"
  shows "info = game_of (gi_header s') (be32 (gi_small s') 0) (gi_bnr_offset info) \<and> is_banner (be32 (gi_small s') 0)"
proof -
  have rej: "\<not> gi_valid i" if "reject D fd t = Some (i, out, t')" for t i out t'
    using that by (auto simp: reject_def no_game_def)
  have over: "i = game_of (gi_header t') (be32 (gi_small t') 0) (gi_bnr_offset i) \<and> gi_small t' = gi_small t"
    if "hand_over D keep fd (game_of (gi_header t) (be32 (gi_small t) 0) off) t = Some (i, out, t')" for t i out t' off
    using that by (auto simp: hand_over_def game_of_def split: if_splits)
  show ?thesis using assms
    by (auto simp: identify_game_def Let_def bind_eq_Some_conv split: if_splits prod.splits dest: rej dest!: over)
qed


lemma get_game_info_valid:
  assumes "get_game_info table D keep h small path s = Some (info, out, s')" "gi_valid info"
  shows "info = game_of (gi_header s') (be32 (gi_small s') 0) (gi_bnr_offset info) \<and> is_banner (be32 (gi_small s') 0)"
proof -
  have rej: "\<not> gi_valid i" if "reject D fd t = Some (i, out, t')" for t i out t' fd
    using that by (auto simp: reject_def no_game_def)
  have n: "\<not> gi_valid no_game" by (simp add: no_game_def)
  obtain e st e' where o: "dr_open D (gi_env s) path FILE_ENTRY_TYPE_FILE (IPC_FILE_FLAG_DISABLECACHE OR IPC_FILE_FLAG_DISABLESPEEDEMU) = Some (0, e)"
    "dr_status D e = Some (st, e')"
    using assms n by (auto simp: get_game_info_def bind_eq_Some_conv Let_def split: if_splits)
  obtain x where x: "st = Some x" "st_result x = 0"
    using assms n o rej by (cases st) (auto simp: get_game_info_def Let_def split: if_splits)
  have "\<exists>fd t. identify_game table D keep small fd t = Some (info, out, s')"
    using assms(1) o x by (auto simp: get_game_info_def bind_eq_Some_conv)
  then show ?thesis using identify_valid assms(2) by blast
qed

text \<open>
  C40. Reads that fail are not noticed. After a game was recognised by the table of banner offsets, an
  image that opens but of which neither the header nor the banner can be read is taken for that
  game once more, as the static buffers still hold its header and its banner's magic.
\<close>

theorem unreadable_image_is_last_game:
  assumes "get_game_info table D keep h small p s = Some (info, out, s1)" "gi_valid info"
    and "gi_bnr_offset info = get_banner_offset_fast table (gi_header s1)" "gi_bnr_offset info \<noteq> 0"
    and "dr_open D (gi_env s1) q FILE_ENTRY_TYPE_FILE (IPC_FILE_FLAG_DISABLECACHE OR IPC_FILE_FLAG_DISABLESPEEDEMU) = Some (0, e1)"
    and "dr_status D e1 = Some (Some st, e2)" "st_result st = 0"
    and "dr_read D e2 h DISK_HEADER_SIZE 0 (ucast (st_fd st)) = Some (r1, [], e3)" "r1 \<noteq> 0"
    and "dr_read D e3 small 32 (ucast (gi_bnr_offset info)) (ucast (st_fd st)) = Some (r2, [], e4)" "r2 \<noteq> 0"
  shows "get_game_info table D True h small q s1 = Some (info, Some (ucast (st_fd st)), s1\<lparr>gi_env := e4\<rparr>)"
proof -
  have i: "info = game_of (gi_header s1) (be32 (gi_small s1) 0) (gi_bnr_offset info)" "is_banner (be32 (gi_small s1) 0)"
    using get_game_info_valid [OF assms(1,2)] by auto
  define off where "off = gi_bnr_offset info"
  have "identify_game table D True small (ucast (st_fd st)) (s1\<lparr>gi_env := e3\<rparr>) = Some (game_of (gi_header s1) (be32 (gi_small s1) 0) off, Some (ucast (st_fd st)), s1\<lparr>gi_env := e4\<rparr>)"
    using assms(3,4,10) i(2) by (simp add: identify_game_def read_small_def hand_over_def Let_def off_def)
  then show ?thesis using assms(5-8) i(1) by (simp add: get_game_info_def read_header_def off_def)
qed

text \<open>A medium that is taken out after the first file: later opens still work, reads do not.\<close>

definition removed_drive :: "nat drive" where
  "removed_drive = one_file_drive\<lparr>dr_open := (\<lambda>n path ty flags. Some (0, n + 1)),
     dr_read := (\<lambda>n dst len off fd. Some (if n = 1 then (0, if len = 32 then [0x42, 0x4E, 0x52, 0x31] else known_header, n) else (1, [], n)))\<rparr>"

lemma unreadable_image_is_last_game_witness:
  "\<exists>s1. get_game_info known_table removed_drive True 0x81504100 0x81504000 (str_bytes ''/a.iso'') (en_info one_game_enum)
       = Some (known_game, Some 7, s1)
    \<and> get_game_info known_table removed_drive True 0x81504100 0x81504000 (str_bytes ''/b.iso'') s1 = Some (known_game, Some 7, s1\<lparr>gi_env := 2\<rparr>)"
proof -
  let ?s1 = "(en_info one_game_enum)\<lparr>gi_env := 1, gi_small := [0x42, 0x4E, 0x52, 0x31] @ replicate 28 0\<rparr>"
  have o: "hdr_DOLOffset known_header = 1" by (simp add: hdr_DOLOffset_def known_header_def be32_def)
  have b: "be32 ([0x42, 0x4E, 0x52, 0x31] @ replicate 28 0) 0 = BANNER_MAGIC_1" by (simp add: be32_def BANNER_MAGIC_1_def)
  have bl: "blit (replicate 32 0) 0 [0x42, 0x4E, 0x52, 0x31] = [0x42, 0x4E, 0x52, 0x31] @ replicate 28 (0 :: u8)" by (simp add: blit_def)
  have kh: "blit known_header 0 known_header = known_header" by (simp add: blit_def)
  have f: "get_banner_offset_fast known_table known_header = 0x2000" using o by (simp add: get_banner_offset_fast_def known_table_def)
  have 1: "get_game_info known_table removed_drive True 0x81504100 0x81504000 (str_bytes ''/a.iso'') (en_info one_game_enum) = Some (known_game, Some 7, ?s1)"
    using b bl kh f
    by (simp add: get_game_info_def read_header_def read_small_def identify_game_def removed_drive_def one_file_drive_def one_game_enum_def
       hand_over_def is_banner_def known_game_def Let_def DISK_HEADER_SIZE_def)
  have g: "gi_valid known_game" "gi_bnr_offset known_game = 0x2000" by (simp_all add: known_game_def game_of_def)
  have "gi_bnr_offset known_game = get_banner_offset_fast known_table (gi_header ?s1)" using f g by (simp add: one_game_enum_def)
  from unreadable_image_is_last_game [OF 1 g(1) this, of "str_bytes ''/b.iso''" 2 "\<lparr>st_result = 0, st_fsize = 0, st_fd = 7\<rparr>" 2 1 2 1 2]
  show ?thesis using 1 g by (simp add: removed_drive_def one_file_drive_def DISK_HEADER_SIZE_def)
qed

end
