(* ===== verification/GameWindow.thy ===== *)
theory GameWindow
  imports GameAssets
begin

text \<open>
  The banners of the lines near the screen. Every banner that is being loaded or is loaded has a
  buffer of its own and every buffer in use has an owner; a buffer is always found while fewer than
  128 banners have one. Scrolling by one line loads the line that comes within reach and releases
  the one that leaves it, so that the lines loaded are always the same window around the screen.
\<close>

section \<open>Which asset owns which buffer\<close>

abbreviation bstate :: "gm \<Rightarrow> nat \<Rightarrow> gm_load_state" where "bstate g i \<equiv> part_state (e_banner (entry_backing g ! i))"
abbreviation bbuf :: "gm \<Rightarrow> nat \<Rightarrow> nat option" where "bbuf g i \<equiv> part_buf (e_banner (entry_backing g ! i))"
abbreviation count :: "gm \<Rightarrow> nat" where "count g \<equiv> length (entry_backing g)"

text \<open>\<open>A\<close> are the entries whose banner has a buffer, \<open>Q\<close> the transfers that have not ended.\<close>

definition assets_ok :: "gm \<Rightarrow> nat set \<Rightarrow> (nat \<times> gm_kind \<times> gm_request) list \<Rightarrow> bool" where
  "assets_ok g A Q =
     (length (banner_pool g) = 128 \<and> A \<subseteq> {..<count g}
      \<and> (\<forall>i<count g. part_state (e_icon (entry_backing g ! i)) = GM_LOAD_STATE_NONE)
      \<and> (\<forall>i<count g. if i \<in> A then bstate g i \<in> {GM_LOAD_STATE_LOADED, GM_LOAD_STATE_LOADING} \<and> (\<exists>b<128. bbuf g i = Some b)
            else bstate g i \<in> {GM_LOAD_STATE_NONE, GM_LOAD_STATE_UNLOADED})
      \<and> inj_on (bbuf g) A
      \<and> (\<forall>b<128. banner_pool g ! b \<noteq> 0 \<longleftrightarrow> Some b \<in> bbuf g ` A)
      \<and> fst ` set Q = {i. i < count g \<and> bstate g i = GM_LOAD_STATE_LOADING} \<and> distinct (map fst Q)
      \<and> (\<forall>t\<in>set Q. fst (snd t) = Banner \<and> rq_callback (snd (snd t)) = Callback_Load))"

lemma resident:
  assumes "assets_ok g A Q" "i \<in> A"
  shows "i < count g \<and> (\<exists>b<128. bbuf g i = Some b)"
proof -
  have "i < count g" using assms by (auto simp: assets_ok_def)
  then show ?thesis using assms unfolding assets_ok_def by simp
qed

lemma free_slot_Some: "free_slot us = Some b \<Longrightarrow> b < length us \<and> us ! b = 0"
  by (induction us arbitrary: b) (auto split: if_splits)

lemma free_slot_None: "free_slot us = None \<Longrightarrow> \<forall>b<length us. us ! b \<noteq> 0"
  by (induction us) (auto split: if_splits simp: nth_Cons split: nat.splits)

text \<open>While fewer than 128 banners are resident a buffer is found.\<close>

lemma buffer_found:
  assumes a: "assets_ok g A Q" and c: "card A < 128"
  obtains b where "free_slot (banner_pool g) = Some b" "b < 128" "banner_pool g ! b = 0" "Some b \<notin> bbuf g ` A"
proof (cases "free_slot (banner_pool g)")
  case None
  then have all: "\<forall>b<128. Some b \<in> bbuf g ` A"
    using free_slot_None [OF None] a by (auto simp: assets_ok_def)
  have fin: "finite A" using a finite_subset [of A "{..<count g}"] by (auto simp: assets_ok_def)
  have "Some ` {..<128} \<subseteq> bbuf g ` A" using all by auto
  then have "card (Some ` {..<128 :: nat}) \<le> card (bbuf g ` A)" using fin by (intro card_mono) auto
  also have "\<dots> \<le> card A" using fin by (rule card_image_le)
  finally have "128 \<le> card A" by (simp add: card_image)
  then show ?thesis using c by simp
next
  case (Some b)
  have "length (banner_pool g) = 128" using a by (simp add: assets_ok_def)
  then show ?thesis using that Some free_slot_Some [OF Some] a by (auto simp: assets_ok_def)
qed

lemma on_icon_none:
  "part_state (e_icon (entry_backing g ! i)) = GM_LOAD_STATE_NONE \<Longrightarrow> i < count g \<Longrightarrow> on_icon i (gm_icon_load b) g = g"
  "part_state (e_icon (entry_backing g ! i)) = GM_LOAD_STATE_NONE \<Longrightarrow> i < count g \<Longrightarrow> on_icon i gm_icon_free g = g"
  by (simp_all add: on_icon_def gm_icon_load_def gm_icon_free_def)

lemma entry_load_step:
  assumes a: "assets_ok g A (posted g)" and i: "i < count g" and nl: "bstate g i \<noteq> GM_LOAD_STATE_LOADING"
    and u: "e_type (entry_backing g ! i) = GM_FILE_TYPE_GAME \<or> bstate g i = GM_LOAD_STATE_NONE" and c: "card A < 128"
  defines "g' \<equiv> entry_load i g"
  shows "\<exists>A'. assets_ok g' A' (posted g') \<and> A \<subseteq> A' \<and> A' \<subseteq> insert i A \<and> bstate g' i \<noteq> GM_LOAD_STATE_UNLOADED
    \<and> count g' = count g \<and> (\<forall>j. j \<noteq> i \<longrightarrow> entry_backing g' ! j = entry_backing g ! j) 
    \<and> e_type (entry_backing g' ! i) = e_type (entry_backing g ! i) \<and> (bstate g i = GM_LOAD_STATE_NONE \<longrightarrow> g' = g)"
proof -
  have icon: "on_icon i (gm_icon_load (icon_pool_addr g)) g = g"
    using on_icon_none(1) a i by (auto simp: assets_ok_def)
  show ?thesis
  proof (cases "bstate g i = GM_LOAD_STATE_UNLOADED")
    case False
    then have "bstate g i \<in> {GM_LOAD_STATE_NONE, GM_LOAD_STATE_LOADED}" using a i nl by (auto simp: assets_ok_def split: if_splits)
    then have "g' = g" unfolding g'_def entry_load_def by (auto simp: icon on_banner_def gm_banner_load_def i)
    then show ?thesis using a False by auto
  next
    case True
    then have ni: "i \<notin> A" and game: "e_type (entry_backing g ! i) = GM_FILE_TYPE_GAME"
      using a i u by (auto simp: assets_ok_def)
    obtain b where b: "free_slot (banner_pool g) = Some b" "b < 128" "banner_pool g ! b = 0" "Some b \<notin> bbuf g ` A"
      using buffer_found [OF a c] .
    define p where "p = (e_banner (entry_backing g ! i))\<lparr>part_state := GM_LOAD_STATE_LOADING, part_buf := Some b\<rparr>"
    obtain r where r: "g' = g\<lparr>entry_backing := (entry_backing g)[i := (entry_backing g ! i)\<lparr>e_banner := p\<rparr>],
        banner_pool := (banner_pool g)[b := 1], posted := posted g @ [(i, Banner, r)]\<rparr>" "rq_callback r = Callback_Load"
      unfolding g'_def entry_load_def
      by (simp add: icon game on_banner_def gm_banner_load_def True gm_get_banner_buf_def b Let_def p_def)
    have at: "entry_backing g' ! j = (if j = i then (entry_backing g ! i)\<lparr>e_banner := p\<rparr> else entry_backing g ! j)" if "j < count g" for j
      using i that by (simp add: r)
    have buf: "bbuf g' i = Some b" "\<And>j. j \<in> A \<Longrightarrow> bbuf g' j = bbuf g j"
      using at i ni a by (auto simp: p_def assets_ok_def)
    have "inj_on (bbuf g') A = inj_on (bbuf g) A" using buf(2) by (intro inj_on_cong) auto
    moreover have "bbuf g' ` A = bbuf g ` A" using buf(2) by (intro image_cong) auto
    ultimately have inj: "inj_on (bbuf g') (insert i A)" and img: "bbuf g' ` insert i A = insert (Some b) (bbuf g ` A)"
      using a b(4) buf(1) ni by (auto simp: assets_ok_def)
    have pool: "\<forall>c<128. banner_pool g' ! c \<noteq> 0 \<longleftrightarrow> Some c \<in> bbuf g' ` insert i A"
      unfolding img using a b(2) by (auto simp: r nth_list_update assets_ok_def)
    have loading: "{j. j < count g' \<and> bstate g' j = GM_LOAD_STATE_LOADING} = insert i {j. j < count g \<and> bstate g j = GM_LOAD_STATE_LOADING}"
      using i by (auto simp: r p_def nth_list_update split: if_splits)
    have states: "\<forall>j<count g'. if j \<in> insert i A then bstate g' j \<in> {GM_LOAD_STATE_LOADED, GM_LOAD_STATE_LOADING} \<and> (\<exists>c<128. bbuf g' j = Some c)
            else bstate g' j \<in> {GM_LOAD_STATE_NONE, GM_LOAD_STATE_UNLOADED}"
      using a i b(2) by (auto simp: r p_def nth_list_update assets_ok_def)
    have icons: "\<forall>j<count g'. part_state (e_icon (entry_backing g' ! j)) = GM_LOAD_STATE_NONE"
      using a i by (auto simp: r nth_list_update assets_ok_def)
    have fresh: "i \<notin> fst ` set (posted g)" using a True by (auto simp: assets_ok_def)
    have "assets_ok g' (insert i A) (posted g')"
      unfolding assets_ok_def loading
      using inj pool states icons fresh a i r(2) by (auto simp: r(1) assets_ok_def)
    then show ?thesis using r i True by (auto simp: p_def intro!: exI [of _ "insert i A"])
  qed
qed

lemma entry_free_step:
  assumes a: "assets_ok g A (posted g)" and i: "i < count g" 
    and st: "bstate g i = GM_LOAD_STATE_NONE \<or> bstate g i = GM_LOAD_STATE_LOADED"
    and u: "e_type (entry_backing g ! i) = GM_FILE_TYPE_GAME \<or> bstate g i = GM_LOAD_STATE_NONE"
  defines "g' \<equiv> entry_free i g"
  shows "assets_ok g' (A - {i}) (posted g') \<and> count g' = count g \<and> posted g' = posted g
    \<and> (\<forall>j. j \<noteq> i \<longrightarrow> entry_backing g' ! j = entry_backing g ! j)
    \<and> e_type (entry_backing g' ! i) = e_type (entry_backing g ! i) \<and> (bstate g i = GM_LOAD_STATE_NONE \<longrightarrow> g' = g)"
proof -
  have icon: "on_icon i gm_icon_free g = g" using on_icon_none(2) a i by (auto simp: assets_ok_def)
  show ?thesis
  proof (cases "bstate g i = GM_LOAD_STATE_NONE")
    case True
    then have "g' = g" unfolding g'_def entry_free_def by (auto simp: icon on_banner_def gm_banner_free_def i)
    moreover have "A - {i} = A" using a i True by (auto simp: assets_ok_def)
    ultimately show ?thesis using a by simp
  next
    case False
    then have ld: "bstate g i = GM_LOAD_STATE_LOADED" and game: "e_type (entry_backing g ! i) = GM_FILE_TYPE_GAME"
      using st u by auto
    then have iA: "i \<in> A" using a i by (auto simp: assets_ok_def split: if_splits)
    then obtain b where b: "b < 128" "bbuf g i = Some b" using resident [OF a] by blast
    define p where "p = (e_banner (entry_backing g ! i))\<lparr>part_buf := None, part_state := GM_LOAD_STATE_UNLOADED\<rparr>"
    have r: "g' = g\<lparr>entry_backing := (entry_backing g)[i := (entry_backing g ! i)\<lparr>e_banner := p\<rparr>],
        banner_pool := (banner_pool g)[b := 0]\<rparr>"
      unfolding g'_def entry_free_def
      by (simp add: icon game on_banner_def gm_banner_free_def ld gm_free_banner_buf_def b Let_def p_def)
    have buf: "\<And>j. j \<in> A - {i} \<Longrightarrow> bbuf g' j = bbuf g j" using a by (auto simp: r nth_list_update assets_ok_def)
    have inj0: "inj_on (bbuf g) A" using a by (simp add: assets_ok_def)
    have "inj_on (bbuf g') (A - {i}) = inj_on (bbuf g) (A - {i})" using buf by (intro inj_on_cong) auto
    then have inj: "inj_on (bbuf g') (A - {i})" using inj0 by (auto intro: inj_on_subset)
    have "bbuf g' ` (A - {i}) = bbuf g ` (A - {i})" using buf by (intro image_cong) auto
    also have "\<dots> = bbuf g ` A - {Some b}" using inj_on_image_set_diff [OF inj0, of A "{i}"] iA b by auto
    finally have img: "bbuf g' ` (A - {i}) = bbuf g ` A - {Some b}" .
    have pool: "\<forall>c<128. banner_pool g' ! c \<noteq> 0 \<longleftrightarrow> Some c \<in> bbuf g' ` (A - {i})"
      unfolding img using a b(1) by (auto simp: r nth_list_update assets_ok_def)
    have loading: "{j. j < count g' \<and> bstate g' j = GM_LOAD_STATE_LOADING} = {j. j < count g \<and> bstate g j = GM_LOAD_STATE_LOADING}"
      using i ld by (auto simp: r p_def nth_list_update split: if_splits)
    have states: "\<forall>j<count g'. if j \<in> A - {i} then bstate g' j \<in> {GM_LOAD_STATE_LOADED, GM_LOAD_STATE_LOADING} \<and> (\<exists>c<128. bbuf g' j = Some c)
            else bstate g' j \<in> {GM_LOAD_STATE_NONE, GM_LOAD_STATE_UNLOADED}"
      using a i by (auto simp: r p_def nth_list_update assets_ok_def)
    have icons: "\<forall>j<count g'. part_state (e_icon (entry_backing g' ! j)) = GM_LOAD_STATE_NONE"
      using a i by (auto simp: r nth_list_update assets_ok_def)
    have "assets_ok g' (A - {i}) (posted g')"
      unfolding assets_ok_def loading using inj pool states icons a by (auto simp: r assets_ok_def)
    then show ?thesis using i False by (auto simp: r)
  qed
qed

lemma complete_step:
  assumes a: "assets_ok g A (t # Q)"
  shows "assets_ok (complete t g) A Q \<and> count (complete t g) = count g \<and> posted (complete t g) = posted g
    \<and> (\<forall>j<count g. bstate (complete t g) j = GM_LOAD_STATE_UNLOADED \<longleftrightarrow> bstate g j = GM_LOAD_STATE_UNLOADED)
    \<and> (\<forall>j<count g. bstate (complete t g) j = GM_LOAD_STATE_NONE \<longleftrightarrow> bstate g j = GM_LOAD_STATE_NONE)
    \<and> (\<forall>j<count g. e_type (entry_backing (complete t g) ! j) = e_type (entry_backing g ! j))"
proof -
  obtain i r where t: "t = (i, Banner, r)" "rq_callback r = Callback_Load" 
    using a by (cases t) (auto simp: assets_ok_def)
  have i: "i < count g" "bstate g i = GM_LOAD_STATE_LOADING" "i \<notin> fst ` set Q" using a t by (auto simp: assets_ok_def)
  define p where "p = (e_banner (entry_backing g ! i))\<lparr>part_state := GM_LOAD_STATE_LOADED\<rparr>"
  define g' where "g' = complete t g"
  have r: "g' = g\<lparr>entry_backing := (entry_backing g)[i := (entry_backing g ! i)\<lparr>e_banner := p\<rparr>]\<rparr>"
    by (simp add: g'_def t on_banner_def arq_banner_callback_load_def p_def Let_def)
  have buf: "bbuf g' j = bbuf g j" for j using i by (cases "j = i") (auto simp: r p_def)
  have loading: "{j. j < count g' \<and> bstate g' j = GM_LOAD_STATE_LOADING} = {j. j < count g \<and> bstate g j = GM_LOAD_STATE_LOADING} - {i}"
    using i by (auto simp: r p_def nth_list_update split: if_splits)
  have states: "\<forall>j<count g'. if j \<in> A then bstate g' j \<in> {GM_LOAD_STATE_LOADED, GM_LOAD_STATE_LOADING} \<and> (\<exists>c<128. bbuf g' j = Some c)
          else bstate g' j \<in> {GM_LOAD_STATE_NONE, GM_LOAD_STATE_UNLOADED}"
    using a i by (auto simp: r p_def nth_list_update assets_ok_def split: if_splits)
  have icons: "\<forall>j<count g'. part_state (e_icon (entry_backing g' ! j)) = GM_LOAD_STATE_NONE"
    using a i by (auto simp: r nth_list_update assets_ok_def)
  have q: "fst ` set Q = {j. j < count g \<and> bstate g j = GM_LOAD_STATE_LOADING} - {i}"
    using a i(3) by (auto simp: assets_ok_def t)
  have "assets_ok g' A Q"
    unfolding assets_ok_def loading buf q [symmetric] using states icons a by (auto simp: r assets_ok_def buf)
  then show ?thesis unfolding g'_def [symmetric] using i by (auto simp: r p_def nth_list_update)
qed

section \<open>Lines\<close>

text \<open>Only games have a banner.\<close>

definition only_games :: "gm \<Rightarrow> bool" where
  "only_games g = (\<forall>i<count g. e_type (entry_backing g ! i) = GM_FILE_TYPE_GAME \<or> bstate g i = GM_LOAD_STATE_NONE)"

lemma load_entries:
  assumes "assets_ok g A (posted g)" "only_games g" "distinct js" "\<forall>i\<in>set js. i < count g \<and> bstate g i \<noteq> GM_LOAD_STATE_LOADING"
    "finite A" "card A + length js \<le> 128"
  defines "g' \<equiv> foldl (\<lambda>g i. entry_load i g) g js"
  shows "\<exists>A'. assets_ok g' A' (posted g') \<and> A \<subseteq> A' \<and> A' \<subseteq> A \<union> set js \<and> (\<forall>i\<in>set js. bstate g' i \<noteq> GM_LOAD_STATE_UNLOADED)
    \<and> count g' = count g \<and> (\<forall>j. j \<notin> set js \<longrightarrow> entry_backing g' ! j = entry_backing g ! j) \<and> only_games g'"
  using assms(1-6) unfolding g'_def
proof (induction "js" arbitrary: g A)
  case Nil
  then show ?case by auto
next
  case (Cons i js)
  let ?h = "entry_load i g"
  have "e_type (entry_backing g ! i) = GM_FILE_TYPE_GAME \<or> bstate g i = GM_LOAD_STATE_NONE"
    using Cons.prems(2,4) by (simp add: only_games_def)
  from entry_load_step [OF Cons.prems(1) _ _ this] Cons.prems(4,6) obtain A1 where
    s: "assets_ok ?h A1 (posted ?h)" "A \<subseteq> A1" "A1 \<subseteq> insert i A" "bstate ?h i \<noteq> GM_LOAD_STATE_UNLOADED" "count ?h = count g"
      "\<forall>j. j \<noteq> i \<longrightarrow> entry_backing ?h ! j = entry_backing g ! j" "e_type (entry_backing ?h ! i) = e_type (entry_backing g ! i)"
      "bstate g i = GM_LOAD_STATE_NONE \<longrightarrow> ?h = g"
    by auto
  have og: "only_games ?h" unfolding only_games_def
  proof (intro allI impI)
    fix j assume "j < count ?h"
    then show "e_type (entry_backing ?h ! j) = GM_FILE_TYPE_GAME \<or> bstate ?h j = GM_LOAD_STATE_NONE"
      using Cons.prems(2) s(5-8) by (cases "j = i") (auto simp: only_games_def)
  qed
  have fin: "finite A1" using s(3) Cons.prems(5) by (rule finite_subset [OF _ finite.insertI])
  have "card A1 \<le> Suc (card A)" using card_mono [OF finite.insertI [OF Cons.prems(5)] s(3)] card_insert_le_m1 [of "Suc (card A)" A i]
    Cons.prems(5) by (auto simp: card_insert_if split: if_splits)
  then have cd: "card A1 + length js \<le> 128" using Cons.prems(6) by simp
  have rest: "\<forall>k\<in>set js. k < count ?h \<and> bstate ?h k \<noteq> GM_LOAD_STATE_LOADING"
    using Cons.prems(3,4) s(5,6) by auto
  from Cons.IH [OF s(1) og _ rest fin cd] Cons.prems(3) obtain A' where
    h: "assets_ok (foldl (\<lambda>g i. entry_load i g) ?h js) A' (posted (foldl (\<lambda>g i. entry_load i g) ?h js))"
      "A1 \<subseteq> A'" "A' \<subseteq> A1 \<union> set js" "\<forall>i\<in>set js. bstate (foldl (\<lambda>g i. entry_load i g) ?h js) i \<noteq> GM_LOAD_STATE_UNLOADED"
      "count (foldl (\<lambda>g i. entry_load i g) ?h js) = count ?h"
      "\<forall>j. j \<notin> set js \<longrightarrow> entry_backing (foldl (\<lambda>g i. entry_load i g) ?h js) ! j = entry_backing ?h ! j"
      "only_games (foldl (\<lambda>g i. entry_load i g) ?h js)" by auto
  show ?case
    by (rule exI [of _ A']) (use h s Cons.prems(3) in auto)
qed

lemma free_entries:
  assumes "assets_ok g A (posted g)" "only_games g" "distinct js"
    "\<forall>i\<in>set js. i < count g \<and> (bstate g i = GM_LOAD_STATE_NONE \<or> bstate g i = GM_LOAD_STATE_LOADED)"
  defines "g' \<equiv> foldl (\<lambda>g i. entry_free i g) g js"
  shows "assets_ok g' (A - set js) (posted g') \<and> count g' = count g \<and> posted g' = posted g
    \<and> (\<forall>j. j \<notin> set js \<longrightarrow> entry_backing g' ! j = entry_backing g ! j) \<and> only_games g'"
  using assms(1-4) unfolding g'_def
proof (induction "js" arbitrary: g A)
  case Nil
  then show ?case by auto
next
  case (Cons i js)
  let ?h = "entry_free i g"
  have "e_type (entry_backing g ! i) = GM_FILE_TYPE_GAME \<or> bstate g i = GM_LOAD_STATE_NONE"
    using Cons.prems(2,4) by (simp add: only_games_def)
  from entry_free_step [OF Cons.prems(1) _ _ this] Cons.prems(4) have
    s: "assets_ok ?h (A - {i}) (posted ?h)" "count ?h = count g" "posted ?h = posted g"
      "\<forall>j. j \<noteq> i \<longrightarrow> entry_backing ?h ! j = entry_backing g ! j" "e_type (entry_backing ?h ! i) = e_type (entry_backing g ! i)"
      "bstate g i = GM_LOAD_STATE_NONE \<longrightarrow> ?h = g" by auto
  have og: "only_games ?h" unfolding only_games_def
  proof (intro allI impI)
    fix j assume "j < count ?h"
    then show "e_type (entry_backing ?h ! j) = GM_FILE_TYPE_GAME \<or> bstate ?h j = GM_LOAD_STATE_NONE"
      using Cons.prems(2) s(2,4-6) by (cases "j = i") (auto simp: only_games_def)
  qed
  have rest: "\<forall>k\<in>set js. k < count ?h \<and> (bstate ?h k = GM_LOAD_STATE_NONE \<or> bstate ?h k = GM_LOAD_STATE_LOADED)"
  proof
    fix k assume k: "k \<in> set js"
    then have "entry_backing ?h ! k = entry_backing g ! k" using Cons.prems(3) s(4) by auto
    then show "k < count ?h \<and> (bstate ?h k = GM_LOAD_STATE_NONE \<or> bstate ?h k = GM_LOAD_STATE_LOADED)"
      using Cons.prems(4) k s(2) by simp
  qed
  have "A - {i} - set js = A - set (i # js)" by auto
  then show ?case using Cons.IH [OF s(1) og _ rest] Cons.prems(3) s by auto
qed

lemma assets_ok_posted: "assets_ok (g\<lparr>posted := q\<rparr>) A Q = assets_ok g A Q"
  unfolding assets_ok_def by simp

lemma transfers_end_ok:
  assumes "assets_ok g A (posted g)" "only_games g"
  defines "g' \<equiv> transfers_end g"
  shows "assets_ok g' A [] \<and> count g' = count g \<and> posted g' = [] \<and> only_games g'
    \<and> (\<forall>j<count g. bstate g' j = GM_LOAD_STATE_UNLOADED \<longleftrightarrow> bstate g j = GM_LOAD_STATE_UNLOADED)"
proof -
  have "assets_ok g A Q \<Longrightarrow> only_games g \<Longrightarrow> let g' = foldl (\<lambda>g t. complete t g) g Q in
    assets_ok g' A [] \<and> count g' = count g \<and> posted g' = posted g \<and> only_games g'
    \<and> (\<forall>j<count g. bstate g' j = GM_LOAD_STATE_UNLOADED \<longleftrightarrow> bstate g j = GM_LOAD_STATE_UNLOADED)" for g Q
  proof (induction Q arbitrary: g)
    case Nil
    then show ?case by simp
  next
    case (Cons t Q)
    note c = complete_step [OF Cons.prems(1)]
    then have "only_games (complete t g)" using Cons.prems(2) by (auto simp: only_games_def)
    with Cons.IH [of "complete t g"] c show ?case by (simp add: Let_def)
  qed
  moreover have "assets_ok (g\<lparr>posted := []\<rparr>) A (posted g)" "only_games (g\<lparr>posted := []\<rparr>)"
    using assms(1,2) by (simp_all add: assets_ok_posted only_games_def)
  ultimately have "let g' = foldl (\<lambda>g t. complete t g) (g\<lparr>posted := []\<rparr>) (posted g) in
    assets_ok g' A [] \<and> count g' = count g \<and> posted g' = [] \<and> only_games g'
    \<and> (\<forall>j<count g. bstate g' j = GM_LOAD_STATE_UNLOADED \<longleftrightarrow> bstate g j = GM_LOAD_STATE_UNLOADED)"
    by fastforce
  then show ?thesis unfolding g'_def transfers_end_def Let_def .
qed

section \<open>The window of lines that are loaded\<close>

text \<open>No transfer is running, and the banners of the lines of \<open>W\<close> are loaded; outside of them at most
  the entry that the first enumeration loads in excess has a buffer.\<close>

definition settled :: "nat set \<Rightarrow> gm \<Rightarrow> bool" where
  "settled W g =
     (only_games g \<and> posted g = [] \<and> (\<exists>A. assets_ok g A [] \<and> A \<subseteq> {i. i div 8 \<in> W} \<union> {48})
      \<and> (\<forall>i<count g. i div 8 \<in> W \<longrightarrow> bstate g i \<noteq> GM_LOAD_STATE_UNLOADED))"

lemma takeWhile_less_upt: "takeWhile (\<lambda>i. i < c) [a..<b] = [a..<min b c]" for c :: nat
proof (induction b)
  case (Suc b)
  show ?case
  proof (cases "a \<le> b \<and> c \<le> b")
    case True
    then show ?thesis using Suc by (simp add: takeWhile_tail min_absorb2)
  next
    case False
    then show ?thesis by (cases "a \<le> b") (auto simp: takeWhile_eq_all_conv min_def intro!: takeWhile_append2)
  qed
qed simp

lemma line_entries_upt: "line_entries c l = [8 * l..<min (8 * l + 8) c]"
proof -
  have "map (\<lambda>i. l * ASSETS_PER_LINE + i) [0..<ASSETS_PER_LINE] = [8 * l..<8 * l + 8]"
    using map_add_upt [of "8 * l" 8] by (simp add: ASSETS_PER_LINE_def ac_simps)
  then show ?thesis by (simp only: line_entries_def takeWhile_less_upt)
qed

lemma set_line_entries: "set (line_entries c l) = {i. i < c \<and> i div 8 = l}"
  by (auto simp: line_entries_upt)

lemma lines_card:
  assumes "finite W" "card W \<le> 7" "A \<subseteq> {i :: nat. i div 8 \<in> W} \<union> {48}"
  shows "finite A" "card A \<le> 57"
proof -
  have e: "{i :: nat. i div 8 \<in> W} = (\<Union>l\<in>W. {8 * l..<8 * l + 8})"
  proof (intro equalityI subsetI)
    fix i assume "i \<in> (\<Union>l\<in>W. {8 * l..<8 * l + 8})"
    then obtain l where "l \<in> W" "8 * l \<le> i" "i < 8 * l + 8" by auto
    moreover from this(2,3) have "i div 8 = l" by (intro div_nat_eqI) simp_all
    ultimately show "i \<in> {i. i div 8 \<in> W}" by simp
  next
    fix i :: nat assume "i \<in> {i. i div 8 \<in> W}"
    then have "i div 8 \<in> W" "i \<in> {8 * (i div 8)..<8 * (i div 8) + 8}" by auto
    then show "i \<in> (\<Union>l\<in>W. {8 * l..<8 * l + 8})" by blast
  qed
  have "card (\<Union>l\<in>W. {8 * l..<8 * l + 8}) \<le> (\<Sum>l\<in>W. card {8 * l..<8 * l + 8})"
    using assms(1) by (rule card_UN_le)
  also have "\<dots> \<le> 56" using assms(2) by simp
  finally have c: "card {i :: nat. i div 8 \<in> W} \<le> 56" by (simp add: e)
  have f: "finite {i :: nat. i div 8 \<in> W}" unfolding e using assms(1) by auto
  show "finite A" using f by (intro finite_subset [OF assms(3)]) simp
  have "card A \<le> card ({i :: nat. i div 8 \<in> W} \<union> {48})" using assms(3) f by (intro card_mono) auto
  also have "\<dots> \<le> 57" using card_Un_le [of "{i :: nat. i div 8 \<in> W}" "{48}"] c by simp
  finally show "card A \<le> 57" .
qed

lemma load_line_settled:
  fixes l g
  assumes s: "settled W g" "finite W" "card W \<le> 7"
  defines "g' \<equiv> gm_line_load l g"
  shows "\<exists>A. assets_ok g' A (posted g') \<and> A \<subseteq> {i. i div 8 \<in> insert l W} \<union> {48} \<and> count g' = count g \<and> only_games g'
    \<and> (\<forall>i<count g. i div 8 \<in> insert l W \<longrightarrow> bstate g' i \<noteq> GM_LOAD_STATE_UNLOADED)
    \<and> (\<forall>i. i div 8 \<noteq> l \<longrightarrow> entry_backing g' ! i = entry_backing g ! i)"
proof -
  obtain A where A: "assets_ok g A (posted g)" "A \<subseteq> {i. i div 8 \<in> W} \<union> {48}" using s(1) by (auto simp: settled_def)
  note c = lines_card [OF s(2,3) A(2)]
  have q: "posted g = []" using s(1) by (simp add: settled_def)
  let ?is = "line_entries (count g) l"
  have nl: "bstate g i \<noteq> GM_LOAD_STATE_LOADING" if "i < count g" for i
    using A(1) that unfolding assets_ok_def q by auto
  have "distinct ?is" "length ?is \<le> 8" by (simp_all add: line_entries_upt)
  moreover have "\<forall>i\<in>set ?is. i < count g \<and> bstate g i \<noteq> GM_LOAD_STATE_LOADING" using nl by (auto simp: set_line_entries)
  moreover have "only_games g" using s(1) by (simp add: settled_def)
  ultimately obtain A' where h: "assets_ok g' A' (posted g')" "A' \<subseteq> A \<union> set ?is" "\<forall>i\<in>set ?is. bstate g' i \<noteq> GM_LOAD_STATE_UNLOADED"
      "count g' = count g" "\<forall>j. j \<notin> set ?is \<longrightarrow> entry_backing g' ! j = entry_backing g ! j" "only_games g'"
  proof -
    assume a: "distinct ?is" "length ?is \<le> 8" "\<forall>i\<in>set ?is. i < count g \<and> bstate g i \<noteq> GM_LOAD_STATE_LOADING" "only_games g"
      and t: "\<And>A'. assets_ok g' A' (posted g') \<Longrightarrow> A' \<subseteq> A \<union> set ?is \<Longrightarrow> \<forall>i\<in>set ?is. bstate g' i \<noteq> GM_LOAD_STATE_UNLOADED
        \<Longrightarrow> count g' = count g \<Longrightarrow> \<forall>j. j \<notin> set ?is \<longrightarrow> entry_backing g' ! j = entry_backing g ! j \<Longrightarrow> only_games g' \<Longrightarrow> thesis"
    have "card A + length ?is \<le> 128" using c(2) a(2) by simp
    from load_entries [OF A(1) a(4,1,3) c(1) this] show thesis
      unfolding gm_line_load_def [symmetric] g'_def [symmetric] using t by blast
  qed
  have "bstate g' i \<noteq> GM_LOAD_STATE_UNLOADED" if "i < count g" "i div 8 \<in> insert l W" for i
  proof (cases "i \<in> set ?is")
    case False
    then show ?thesis using h(5) that s(1) by (auto simp: settled_def set_line_entries)
  qed (use h(3) in blast)
  moreover have "A' \<subseteq> {i. i div 8 \<in> insert l W} \<union> {48}" using h(2) A(2) by (auto simp: set_line_entries)
  moreover have "\<forall>i. i div 8 \<noteq> l \<longrightarrow> entry_backing g' ! i = entry_backing g ! i" using h(5) by (simp add: set_line_entries)
  ultimately show ?thesis using h(1,4,6) by blast
qed

definition load_opt :: "nat option \<Rightarrow> gm \<Rightarrow> gm" where
  "load_opt x g = (case x of None \<Rightarrow> g | Some l \<Rightarrow> gm_line_load l g)"

definition free_opt :: "nat option \<Rightarrow> gm \<Rightarrow> gm" where
  "free_opt y g = (case y of None \<Rightarrow> g | Some l \<Rightarrow> gm_line_free l g)"

lemma load_opt_settled:
  assumes s: "settled W g" "finite W" "card W \<le> 7"
  shows "\<exists>A. assets_ok (load_opt x g) A (posted (load_opt x g)) \<and> A \<subseteq> {i. i div 8 \<in> W \<union> set_option x} \<union> {48}
    \<and> count (load_opt x g) = count g \<and> only_games (load_opt x g)
    \<and> (\<forall>i<count g. i div 8 \<in> W \<union> set_option x \<longrightarrow> bstate (load_opt x g) i \<noteq> GM_LOAD_STATE_UNLOADED)
    \<and> (\<forall>i. Some (i div 8) \<noteq> x \<longrightarrow> entry_backing (load_opt x g) ! i = entry_backing g ! i)"
proof (cases x)
  case None
  then show ?thesis using s(1) by (auto simp: load_opt_def settled_def)
next
  case (Some l)
  then show ?thesis using load_line_settled [OF s, of l] by (simp add: load_opt_def)
qed

lemma move_settled:
  assumes s: "settled W g" "finite W" "card W \<le> 7" and y: "\<forall>l. y = Some l \<longrightarrow> l \<in> W \<and> x \<noteq> y"
  shows "settled ((W \<union> set_option x) - set_option y) (transfers_end (free_opt y (load_opt x g)))"
proof -
  obtain A where A: "assets_ok (load_opt x g) A (posted (load_opt x g))" "A \<subseteq> {i. i div 8 \<in> W \<union> set_option x} \<union> {48}"
      "count (load_opt x g) = count g" "only_games (load_opt x g)"
      "\<forall>i<count g. i div 8 \<in> W \<union> set_option x \<longrightarrow> bstate (load_opt x g) i \<noteq> GM_LOAD_STATE_UNLOADED"
      "\<forall>i. Some (i div 8) \<noteq> x \<longrightarrow> entry_backing (load_opt x g) ! i = entry_backing g ! i"
    using load_opt_settled [OF s] by blast
  define g2 where "g2 = free_opt y (load_opt x g)"
  define A2 where "A2 = A - {i. i < count g \<and> Some (i div 8) = y}"
  have "assets_ok g2 A2 (posted g2) \<and> count g2 = count g \<and> only_games g2
      \<and> (\<forall>i. i < count g \<longrightarrow> Some (i div 8) \<noteq> y \<longrightarrow> entry_backing g2 ! i = entry_backing (load_opt x g) ! i)"
  proof (cases y)
    case None
    then show ?thesis using A by (simp add: g2_def A2_def free_opt_def)
  next
    case (Some l)
    let ?is = "line_entries (count g) l"
    have "\<forall>i\<in>set ?is. i < count (load_opt x g) \<and> (bstate (load_opt x g) i = GM_LOAD_STATE_NONE \<or> bstate (load_opt x g) i = GM_LOAD_STATE_LOADED)"
    proof
      fix i assume "i \<in> set ?is"
      then have i: "i < count g" "i div 8 = l" by (auto simp: set_line_entries)
      then have "entry_backing (load_opt x g) ! i = entry_backing g ! i" using A(6) y Some by auto
      moreover have "bstate g i \<noteq> GM_LOAD_STATE_UNLOADED" using s(1) y Some i by (auto simp: settled_def)
      moreover have "bstate g i \<noteq> GM_LOAD_STATE_LOADING \<and> bstate g i \<noteq> GM_LOAD_STATE_SETUP \<and> bstate g i \<noteq> GM_LOAD_STATE_UNLOADING"
      proof -
        obtain B where "assets_ok g B []" using s(1) by (auto simp: settled_def)
        then show ?thesis using i(1) unfolding assets_ok_def by (cases "i \<in> B") auto
      qed
      ultimately show "i < count (load_opt x g) \<and> (bstate (load_opt x g) i = GM_LOAD_STATE_NONE \<or> bstate (load_opt x g) i = GM_LOAD_STATE_LOADED)"
        using A(3) i(1) by (cases "bstate g i") auto
    qed
    moreover have "distinct ?is" by (simp add: line_entries_upt)
    ultimately have "assets_ok g2 (A - set ?is) (posted g2) \<and> count g2 = count g \<and> only_games g2
      \<and> (\<forall>j. j \<notin> set ?is \<longrightarrow> entry_backing g2 ! j = entry_backing (load_opt x g) ! j)"
    proof -
      assume "\<forall>i\<in>set ?is. i < count (load_opt x g) \<and> (bstate (load_opt x g) i = GM_LOAD_STATE_NONE \<or> bstate (load_opt x g) i = GM_LOAD_STATE_LOADED)"
        "distinct ?is"
      note fe = free_entries [OF A(1,4) this(2,1)]
      have "g2 = foldl (\<lambda>g i. entry_free i g) (load_opt x g) ?is"
        by (simp add: g2_def free_opt_def gm_line_free_def Some A(3))
      then show ?thesis using fe A(3) by metis
    qed
    moreover have "A - set ?is = A2" by (auto simp: A2_def Some set_line_entries)
    ultimately show ?thesis using Some by (auto simp: set_line_entries)
  qed
  note f = this
  define g3 where "g3 = transfers_end g2"
  have e: "assets_ok g3 A2 [] \<and> count g3 = count g2 \<and> posted g3 = [] \<and> only_games g3
      \<and> (\<forall>j<count g2. bstate g3 j = GM_LOAD_STATE_UNLOADED \<longleftrightarrow> bstate g2 j = GM_LOAD_STATE_UNLOADED)"
    using transfers_end_ok [of g2 A2] f unfolding g3_def by blast
  have sub: "A2 \<subseteq> {i. i div 8 \<in> (W \<union> set_option x) - set_option y} \<union> {48}"
  proof
    fix i assume i: "i \<in> A2"
    then have "i < count g" using f by (auto simp: assets_ok_def)
    then show "i \<in> {i. i div 8 \<in> (W \<union> set_option x) - set_option y} \<union> {48}"
      using i A(2) by (cases y) (auto simp: A2_def)
  qed
  have "bstate g3 i \<noteq> GM_LOAD_STATE_UNLOADED" if "i < count g3" "i div 8 \<in> (W \<union> set_option x) - set_option y" for i
    using that e f A(5) by (cases y) auto
  then show ?thesis using e sub unfolding settled_def g3_def g2_def by blast
qed

definition window :: "int \<Rightarrow> int \<Rightarrow> nat set" where
  "window lines row = {l. row - 1 \<le> int l \<and> int l \<le> row + 5 \<and> int l < lines}"

lemma window_small: "finite (window lines row)" "card (window lines row) \<le> 7"
proof -
  have s: "window lines row \<subseteq> nat ` {row - 1..row + 5}"
  proof
    fix l assume "l \<in> window lines row"
    then have "int l \<in> {row - 1..row + 5}" by (simp add: window_def)
    then show "l \<in> nat ` {row - 1..row + 5}" by (metis image_eqI nat_int)
  qed
  then show "finite (window lines row)" by (rule finite_subset) simp
  have "card (window lines row) \<le> card (nat ` {row - 1..row + 5})" using s by (intro card_mono) auto
  also have "\<dots> \<le> card {row - 1..row + 5}" by (rule card_image_le) simp
  finally show "card (window lines row) \<le> 7" by simp
qed

lemma gm_line_changed_down:
  assumes "settled (window lines row) g" "0 \<le> row" "row + 1 \<le> lines - 4"
  shows "settled (window lines (row + 1)) (transfers_end (gm_line_changed lines row 1 g))"
proof -
  define x where "x = (if row + 6 < lines then Some (nat (row + 6)) else None)"
  define y where "y = (if row - 1 \<ge> 0 then Some (nat (row - 1)) else None)"
  have "gm_line_changed lines row 1 g = free_opt y (load_opt x g)"
    by (simp add: gm_line_changed_def PRELOAD_LINE_COUNT_def DRAW_TOTAL_ROWS_def free_opt_def load_opt_def x_def y_def Let_def add.commute)
  moreover have "\<forall>l. y = Some l \<longrightarrow> l \<in> window lines row \<and> x \<noteq> y" using assms(2,3) by (auto simp: x_def y_def window_def split: if_splits)
  moreover have "window lines (row + 1) = (window lines row \<union> set_option x) - set_option y"
    using assms(2,3) by (auto simp: x_def y_def window_def split: if_splits)
  ultimately show ?thesis using move_settled [OF assms(1) window_small] by simp
qed

lemma gm_line_changed_up:
  assumes "settled (window lines row) g" "0 < row" "row \<le> lines - 4"
  shows "settled (window lines (row - 1)) (transfers_end (gm_line_changed lines row (- 1) g))"
proof -
  define x where "x = (if row - 2 \<ge> 0 then Some (nat (row - 2)) else None)"
  define y where "y = (if row + 5 < lines then Some (nat (row + 5)) else None)"
  have "gm_line_changed lines row (- 1) g = free_opt y (load_opt x g)"
    by (simp add: gm_line_changed_def PRELOAD_LINE_COUNT_def DRAW_TOTAL_ROWS_def free_opt_def load_opt_def x_def y_def Let_def add.commute)
  moreover have "\<forall>l. y = Some l \<longrightarrow> l \<in> window lines row \<and> x \<noteq> y" using assms(2,3) by (auto simp: x_def y_def window_def split: if_splits)
  moreover have "window lines (row - 1) = (window lines row \<union> set_option x) - set_option y"
    using assms(2,3) by (auto simp: x_def y_def window_def split: if_splits)
  ultimately show ?thesis using move_settled [OF assms(1) window_small] by simp
qed
end
