(* ===== verification/GameGrid.thy ===== *)
theory GameGrid
  imports GameWindow Complex_Main
begin

text \<open>
  The rows of the game list on the screen (patches/source/grid.c): every line has a position and an
  animation towards where it is going. Positions are rational numbers here, 32-bit floats in the
  code; rounding is not modelled. A line is named by its index in \<open>browser_lines\<close>.
\<close>

section \<open>State\<close>

definition DRAW_BOUND_TOP :: rat where "DRAW_BOUND_TOP = 104"
definition DRAW_BOUND_BOTTOM :: rat where "DRAW_BOUND_BOTTOM = 328"
definition offset_y :: rat where "offset_y = 56"
definition MAX_ANIMS :: int where "MAX_ANIMS = 100000"
definition MAX_LINES :: nat where "MAX_LINES = 240"

lemmas grid_consts = DRAW_BOUND_TOP_def DRAW_BOUND_BOTTOM_def offset_y_def MAX_ANIMS_def

datatype anim_direction = ANIM_DIRECTION_UP | ANIM_DIRECTION_DOWN

record line_backing =
  pending_count :: int
  direction :: anim_direction
  remaining :: rat
  raw_position_y :: rat
  transparency :: rat
  moving_out :: bool
  moving_in :: bool

definition get_position_after :: "line_backing \<Rightarrow> rat" where
  "get_position_after l =
     (if direction l = ANIM_DIRECTION_UP then raw_position_y l - remaining l else raw_position_y l + remaining l)"

section \<open>Setting up\<close>

definition no_line :: line_backing where
  "no_line = \<lparr>pending_count = 0, direction = ANIM_DIRECTION_UP, remaining = 0, raw_position_y = 0, transparency = 0,
     moving_out = False, moving_in = False\<rparr>"

definition first_line :: "nat \<Rightarrow> line_backing" where
  "first_line line_num = no_line\<lparr>raw_position_y := DRAW_BOUND_TOP + of_nat line_num * offset_y,
     transparency := (if int line_num \<ge> DRAW_TOTAL_ROWS then 0 else 1)\<rparr>"

text \<open>The lines after the set-up; the selected slot and the top line are 0 then.\<close>

definition grid_setup_lines :: "int \<Rightarrow> line_backing list" where
  "grid_setup_lines number_of_lines = map first_line [0..<nat number_of_lines] @ replicate (MAX_LINES - nat number_of_lines) no_line"

section \<open>Moving\<close>

definition grid_add_anim :: "anim_direction \<Rightarrow> rat \<Rightarrow> line_backing \<Rightarrow> line_backing" where
  "grid_add_anim dir distance l =
     (let l = (if pending_count l > 0 \<and> direction l \<noteq> dir then l\<lparr>pending_count := 0\<rparr> else l)
      in if pending_count l < MAX_ANIMS
         then l\<lparr>pending_count := pending_count l + 1, remaining := remaining l + distance, direction := dir\<rparr> else l)"

definition in_bounds :: "rat \<Rightarrow> bool" where
  "in_bounds p \<longleftrightarrow> p < DRAW_BOUND_BOTTOM + offset_y - 10 \<and> p \<ge> DRAW_BOUND_TOP - offset_y + 10"

text \<open>One line of a move up; the flags say whether a line was found that moves in or out.\<close>

definition up_moved :: "bool \<Rightarrow> line_backing \<Rightarrow> bool \<times> line_backing" where
  "up_moved found_in l =
     (let p = get_position_after l
      in if \<not> found_in \<and> p + offset_y + 10 \<ge> DRAW_BOUND_TOP \<and> p - 10 < DRAW_BOUND_TOP
         then let d = offset_y * 0.5
              in (True, grid_add_anim ANIM_DIRECTION_DOWN d
                   (l\<lparr>raw_position_y := DRAW_BOUND_TOP - d, transparency := 0.25, moving_in := True, moving_out := False\<rparr>))
         else if in_bounds p then (found_in, grid_add_anim ANIM_DIRECTION_DOWN offset_y l)
         else (found_in, l\<lparr>raw_position_y := raw_position_y l + offset_y\<rparr>))"

definition up_line :: "bool \<Rightarrow> bool \<Rightarrow> line_backing \<Rightarrow> bool \<times> bool \<times> line_backing" where
  "up_line found_in found_out l =
     (let (found_in, l) = up_moved found_in l;
          q = get_position_after l
      in if \<not> found_out \<and> q + 10 \<ge> DRAW_BOUND_BOTTOM \<and> q - offset_y < DRAW_BOUND_BOTTOM
         then (found_in, True, l\<lparr>transparency := 0.999, moving_out := True, moving_in := False\<rparr>)
         else (found_in, found_out, l))"

fun up_lines :: "bool \<Rightarrow> bool \<Rightarrow> line_backing list \<Rightarrow> line_backing list" where
  "up_lines found_in found_out [] = []"
| "up_lines found_in found_out (l # ls) =
     (let (found_in, found_out, l) = up_line found_in found_out l in l # up_lines found_in found_out ls)"

definition down_moved :: "bool \<Rightarrow> line_backing \<Rightarrow> bool \<times> line_backing" where
  "down_moved found_in l =
     (let p = get_position_after l
      in if \<not> found_in \<and> p + 10 \<ge> DRAW_BOUND_BOTTOM \<and> p - offset_y - 10 < DRAW_BOUND_BOTTOM
         then let d = offset_y * 0.5
              in (True, grid_add_anim ANIM_DIRECTION_UP d
                   (l\<lparr>raw_position_y := DRAW_BOUND_BOTTOM - d, transparency := 0.25, moving_in := True, moving_out := False\<rparr>))
         else if in_bounds p then (found_in, grid_add_anim ANIM_DIRECTION_UP offset_y l)
         else (found_in, l\<lparr>raw_position_y := raw_position_y l - offset_y\<rparr>))"

definition down_line :: "bool \<Rightarrow> bool \<Rightarrow> line_backing \<Rightarrow> bool \<times> bool \<times> line_backing" where
  "down_line found_in found_out l =
     (let (found_in, l) = down_moved found_in l;
          q = get_position_after l
      in if \<not> found_out \<and> q + offset_y + 10 \<ge> DRAW_BOUND_TOP \<and> q < DRAW_BOUND_TOP
         then (found_in, True, l\<lparr>transparency := 0.999, moving_out := True, moving_in := False\<rparr>)
         else (found_in, found_out, l))"

fun down_lines :: "bool \<Rightarrow> bool \<Rightarrow> line_backing list \<Rightarrow> line_backing list" where
  "down_lines found_in found_out [] = []"
| "down_lines found_in found_out (l # ls) =
     (let (found_in, found_out, l) = down_line found_in found_out l in l # down_lines found_in found_out ls)"

definition pending :: "anim_direction \<Rightarrow> line_backing \<Rightarrow> bool" where
  "pending dir l \<longleftrightarrow> pending_count l > 0 \<and> direction l = dir"

text \<open>None is \<open>GRID_MOVE_FAIL\<close>.\<close>

definition grid_dispatch_navigate_up :: "int \<Rightarrow> line_backing list \<Rightarrow> line_backing list option" where
  "grid_dispatch_navigate_up number_of_lines lines =
     (let n = nat number_of_lines
      in if list_ex (pending ANIM_DIRECTION_UP) (take n lines) then None
         else Some (up_lines False False (take n lines) @ drop n lines))"

definition fade_out :: "line_backing \<Rightarrow> line_backing" where
  "fade_out l = (if moving_out l then l\<lparr>transparency := transparency l * 0.1\<rparr> else l)"

definition grid_dispatch_navigate_down :: "int \<Rightarrow> line_backing list \<Rightarrow> line_backing list option" where
  "grid_dispatch_navigate_down number_of_lines lines =
     (let n = nat number_of_lines
      in if list_ex (pending ANIM_DIRECTION_DOWN) (take n lines) then None
         else Some (down_lines False False (map fade_out (take n lines)) @ drop n lines))"

section \<open>A frame\<close>

definition update_transparency :: "rat \<Rightarrow> line_backing \<Rightarrow> line_backing" where
  "update_transparency multiplier l =
     (if transparency l < 1
      then let delta = 0.01 * multiplier;
               l = (if moving_in l then l\<lparr>transparency := min 1 (transparency l + delta * 0.4)\<rparr> else l)
           in if moving_out l
              then let t = transparency l - delta * 0.8
                   in if t < 0 then l\<lparr>transparency := 0, moving_out := False\<rparr> else l\<lparr>transparency := t\<rparr>
              else l
      else l)"

definition update_position :: "rat \<Rightarrow> line_backing \<Rightarrow> line_backing" where
  "update_position multiplier l =
     (if pending_count l \<noteq> 0
      then let delta = min (offset_y * 0.01 * multiplier / 1.5) (remaining l);
               l = l\<lparr>remaining := remaining l - delta,
                    raw_position_y := (if direction l = ANIM_DIRECTION_UP then raw_position_y l - delta else raw_position_y l + delta)\<rparr>
           in if remaining l < 0.1 then l\<lparr>pending_count := pending_count l - 1, remaining := 0\<rparr> else l
      else l)"

definition update_line :: "line_backing \<Rightarrow> line_backing" where
  "update_line l =
     (let multiplier = (if pending_count l \<noteq> 0 then min 8 (6 + of_int (pending_count l)) else 6)
      in update_position multiplier (update_transparency multiplier l))"

definition grid_update_icon_positions :: "bool \<Rightarrow> int \<Rightarrow> line_backing list \<Rightarrow> line_backing list" where
  "grid_update_icon_positions grid_setup_done number_of_lines lines =
     (if \<not> grid_setup_done then lines
      else let n = nat number_of_lines in map update_line (take n lines) @ drop n lines)"

section \<open>Where the lines are\<close>

text \<open>A frame moves a line by 7 or 8 of these steps, and a row is 150 of them apart from the next.\<close>

definition step :: rat where "step = 28 / 75"

text \<open>The line is in row \<open>r\<close> of the screen, or on its way there. An animation upwards ends no lower
  than row 3, one downwards no higher than row 0.\<close>

definition line_ok :: "int \<Rightarrow> line_backing \<Rightarrow> bool" where
  "line_ok r l \<longleftrightarrow> get_position_after l = 104 + 56 * of_int r \<and> (\<exists>k :: nat. remaining l = step * of_nat k)
     \<and> 0 \<le> pending_count l \<and> (pending_count l = 0 \<longrightarrow> remaining l = 0)
     \<and> (pending ANIM_DIRECTION_UP l \<longrightarrow> pending_count l \<le> 5 \<and> pending_count l + r \<le> 4)
     \<and> (pending ANIM_DIRECTION_DOWN l \<longrightarrow> pending_count l \<le> 6 \<and> pending_count l \<le> r + 1)"

lemma line_ok_cong:
  "pending_count l' = pending_count l \<Longrightarrow> direction l' = direction l \<Longrightarrow> remaining l' = remaining l \<Longrightarrow>
    raw_position_y l' = raw_position_y l \<Longrightarrow> line_ok r l' = line_ok r l"
  by (simp add: line_ok_def pending_def get_position_after_def)

lemma first_line_ok: "line_ok (int n) (first_line n)"
  by (simp add: line_ok_def first_line_def no_line_def pending_def get_position_after_def grid_consts)

lemma step_sub: "k \<ge> m \<Longrightarrow> step * of_nat k - step * of_nat m = step * of_nat (k - m)"
  by (simp add: of_nat_diff right_diff_distrib)

lemma update_position_ok:
  assumes "line_ok r l" "pending_count l \<noteq> 0" "0 < (j :: nat)"
  shows "line_ok r (update_position (of_nat j) l)"
proof -
  obtain k :: nat where k: "remaining l = step * of_nat k" using assms(1) by (auto simp: line_ok_def)
  define d where "d = min j k"
  have m: "min (offset_y * 0.01 * of_nat j / 1.5) (remaining l) = step * of_nat d"
    unfolding k d_def by (simp add: offset_y_def step_def min_def)
  let ?l = "l\<lparr>remaining := step * of_nat (k - d),
      raw_position_y := (if direction l = ANIM_DIRECTION_UP then raw_position_y l - step * of_nat d else raw_position_y l + step * of_nat d)\<rparr>"
  have s: "remaining l - step * of_nat d = step * of_nat (k - d)" unfolding k by (rule step_sub) (simp add: d_def)
  have u: "update_position (of_nat j) l = (if step * of_nat (k - d) < 0.1 then ?l\<lparr>pending_count := pending_count l - 1, remaining := 0\<rparr> else ?l)"
    unfolding update_position_def m using assms(2) s by (simp add: Let_def)
  have p: "get_position_after ?l = get_position_after l"
    using s by (auto simp: get_position_after_def k of_nat_diff right_diff_distrib d_def)
  show ?thesis
  proof (cases "k - d = 0")
    case True
    then have "line_ok r (?l\<lparr>pending_count := pending_count l - 1, remaining := 0\<rparr>)"
      using assms(1,2) p by (auto simp: line_ok_def pending_def get_position_after_def intro: exI [of _ 0])
    then show ?thesis unfolding u using True by simp
  next
    case False
    then have "1 \<le> (of_nat (k - d) :: rat)" by (metis One_nat_def Suc_leI not_gr_zero of_nat_1 of_nat_le_iff)
    then have "\<not> step * of_nat (k - d) < 0.1" by (simp add: step_def)
    moreover have "line_ok r ?l" using assms(1,2) p by (auto simp: line_ok_def pending_def)
    ultimately show ?thesis unfolding u by (simp only: if_False)
  qed
qed

lemma update_line_ok:
  assumes "line_ok r l"
  shows "line_ok r (update_line l)"
proof -
  define m where "m = (if pending_count l \<noteq> 0 then min 8 (6 + of_int (pending_count l)) else (6 :: rat))"
  let ?l = "update_transparency m l"
  have same: "pending_count ?l = pending_count l" "direction ?l = direction l" "remaining ?l = remaining l"
    "raw_position_y ?l = raw_position_y l"
    by (simp_all add: update_transparency_def Let_def)
  then have ok: "line_ok r ?l" using assms line_ok_cong by metis
  have u: "update_line l = update_position m ?l" by (simp add: update_line_def m_def Let_def)
  show ?thesis
  proof (cases "pending_count l = 0")
    case True
    then show ?thesis using ok same by (simp add: u update_position_def)
  next
    case False
    then have pos: "pending_count l \<ge> 1" using assms by (simp add: line_ok_def)
    have "m = of_nat (nat (min 8 (6 + pending_count l)))" using False pos by (simp add: m_def min_def)
    moreover have "0 < nat (min 8 (6 + pending_count l))" using pos by simp
    ultimately show ?thesis using update_position_ok [OF ok] False same u by metis
  qed
qed

section \<open>Moving by a row\<close>

text \<open>All lines of the list, the first of which has the index \<open>n\<close>, when line \<open>top\<close> is in row 0.\<close>

fun lines_ok :: "int \<Rightarrow> line_backing list \<Rightarrow> bool" where
  "lines_ok r [] = True"
| "lines_ok r (l # ls) \<longleftrightarrow> line_ok r l \<and> lines_ok (r + 1) ls"

lemma lines_ok_nth: "lines_ok r ls \<longleftrightarrow> (\<forall>i < length ls. line_ok (r + int i) (ls ! i))"
proof (induction ls arbitrary: r)
  case (Cons l ls)
  have "(\<forall>i < length (l # ls). line_ok (r + int i) ((l # ls) ! i)) \<longleftrightarrow> line_ok r l \<and> (\<forall>i < length ls. line_ok (r + 1 + int i) (ls ! i))"
    by (auto simp: all_conj_distrib less_Suc_eq_0_disj add.commute add.left_commute)
  then show ?case using Cons.IH [of "r + 1"] by simp
qed simp

lemma lines_ok_map: "(\<And>r l. line_ok r l \<Longrightarrow> line_ok r (f l)) \<Longrightarrow> lines_ok r ls \<Longrightarrow> lines_ok r (map f ls)"
  by (induction ls arbitrary: r) auto

lemma line_okI:
  assumes "get_position_after l = 104 + 56 * of_int r" "remaining l = step * of_nat (k :: nat)" "0 < pending_count l"
    "direction l = ANIM_DIRECTION_UP \<Longrightarrow> pending_count l \<le> 5 \<and> pending_count l + r \<le> 4"
    "direction l = ANIM_DIRECTION_DOWN \<Longrightarrow> pending_count l \<le> 6 \<and> pending_count l \<le> r + 1"
  shows "line_ok r l"
  using assms by (auto simp: line_ok_def pending_def)

lemma add_up_ok:
  assumes "line_ok r l" "\<not> pending ANIM_DIRECTION_DOWN l" "0 \<le> r" "r \<le> 3"
  shows "line_ok (r - 1) (grid_add_anim ANIM_DIRECTION_UP offset_y l)"
proof -
  obtain k :: nat where k: "remaining l = step * of_nat k" using assms(1) by (auto simp: line_ok_def)
  have c: "0 \<le> pending_count l" "pending_count l \<le> 5" "pending_count l + r \<le> 4"
    using assms by (auto simp: line_ok_def pending_def) (cases "direction l"; force)+
  have "remaining l + 56 = step * of_nat (k + 150)" by (simp add: k step_def algebra_simps)
  moreover have p: "get_position_after (l\<lparr>pending_count := pending_count l + 1, remaining := remaining l + 56, direction := ANIM_DIRECTION_UP\<rparr>)
      = get_position_after l - 56"
    using assms(1,2) c(1) by (cases "direction l") (auto simp: get_position_after_def line_ok_def pending_def)
  moreover have "grid_add_anim ANIM_DIRECTION_UP offset_y l
      = l\<lparr>pending_count := pending_count l + 1, remaining := remaining l + 56, direction := ANIM_DIRECTION_UP\<rparr>"
    using assms(2) c by (cases "direction l") (auto simp: grid_add_anim_def Let_def pending_def MAX_ANIMS_def offset_y_def)
  ultimately show ?thesis using assms(1,3) c
    by (intro line_okI [where k = "k + 150"]) (auto simp: line_ok_def algebra_simps)
qed

lemma add_down_ok:
  assumes "line_ok r l" "\<not> pending ANIM_DIRECTION_UP l" "0 \<le> r" "r \<le> 4"
  shows "line_ok (r + 1) (grid_add_anim ANIM_DIRECTION_DOWN offset_y l)"
proof -
  obtain k :: nat where k: "remaining l = step * of_nat k" using assms(1) by (auto simp: line_ok_def)
  have c: "0 \<le> pending_count l" "pending_count l \<le> r + 1"
    using assms by (auto simp: line_ok_def pending_def) (cases "direction l"; force)+
  have "remaining l + 56 = step * of_nat (k + 150)" by (simp add: k step_def algebra_simps)
  moreover have p: "get_position_after (l\<lparr>pending_count := pending_count l + 1, remaining := remaining l + 56, direction := ANIM_DIRECTION_DOWN\<rparr>)
      = get_position_after l + 56"
    using assms(1,2) c(1) by (cases "direction l") (auto simp: get_position_after_def line_ok_def pending_def)
  moreover have "grid_add_anim ANIM_DIRECTION_DOWN offset_y l
      = l\<lparr>pending_count := pending_count l + 1, remaining := remaining l + 56, direction := ANIM_DIRECTION_DOWN\<rparr>"
    using assms(2,4) c by (cases "direction l") (auto simp: grid_add_anim_def Let_def pending_def MAX_ANIMS_def offset_y_def)
  ultimately show ?thesis using assms(1,4) c
    by (intro line_okI [where k = "k + 150"]) (auto simp: line_ok_def algebra_simps)
qed

lemma row_bounds:
  fixes r :: int
  defines "p \<equiv> 104 + 56 * (of_int r :: rat)"
  shows "in_bounds p \<longleftrightarrow> 0 \<le> r \<and> r \<le> 4"
    "p + 10 \<ge> DRAW_BOUND_BOTTOM \<longleftrightarrow> 4 \<le> r" "p - offset_y - 10 < DRAW_BOUND_BOTTOM \<longleftrightarrow> r \<le> 5"
    "p + offset_y + 10 \<ge> DRAW_BOUND_TOP \<longleftrightarrow> - 1 \<le> r" "p - 10 < DRAW_BOUND_TOP \<longleftrightarrow> r \<le> 0"
proof -
  have i: "p = of_int (104 + 56 * r)" by (simp add: p_def)
  have "p < 374 \<longleftrightarrow> 104 + 56 * r < 374" "p \<ge> 58 \<longleftrightarrow> 104 + 56 * r \<ge> 58" "p \<ge> 318 \<longleftrightarrow> 104 + 56 * r \<ge> 318"
    "p < 394 \<longleftrightarrow> 104 + 56 * r < 394" "p \<ge> 38 \<longleftrightarrow> 104 + 56 * r \<ge> 38" "p < 114 \<longleftrightarrow> 104 + 56 * r < 114"
    unfolding i by (simp_all only: of_int_less_numeral_iff of_int_numeral_le_iff)
  then show "in_bounds p \<longleftrightarrow> 0 \<le> r \<and> r \<le> 4" "p + 10 \<ge> DRAW_BOUND_BOTTOM \<longleftrightarrow> 4 \<le> r" "p - offset_y - 10 < DRAW_BOUND_BOTTOM \<longleftrightarrow> r \<le> 5"
    "p + offset_y + 10 \<ge> DRAW_BOUND_TOP \<longleftrightarrow> - 1 \<le> r" "p - 10 < DRAW_BOUND_TOP \<longleftrightarrow> r \<le> 0"
    unfolding in_bounds_def grid_consts by linarith+
qed


lemma shift_ok:
  assumes "line_ok r l"
  shows "r \<le> - 1 \<or> 5 \<le> r \<Longrightarrow> \<not> pending ANIM_DIRECTION_DOWN l \<Longrightarrow> line_ok (r - 1) (l\<lparr>raw_position_y := raw_position_y l - offset_y\<rparr>)"
    and "r \<le> - 2 \<or> 5 \<le> r \<Longrightarrow> \<not> pending ANIM_DIRECTION_UP l \<Longrightarrow> line_ok (r + 1) (l\<lparr>raw_position_y := raw_position_y l + offset_y\<rparr>)"
  using assms by (auto simp: line_ok_def pending_def get_position_after_def offset_y_def split: if_splits)

lemma idle_line: "line_ok r l \<Longrightarrow> \<not> pending ANIM_DIRECTION_UP l \<Longrightarrow> \<not> pending ANIM_DIRECTION_DOWN l \<Longrightarrow> pending_count l = 0 \<and> remaining l = 0"
  by (cases "direction l") (auto simp: line_ok_def pending_def)

text \<open>The flag \<open>found_in\<close> is set once the line in row 4, which moves in, is behind.\<close>

lemma down_line_ok:
  assumes "line_ok r l" "\<not> pending ANIM_DIRECTION_DOWN l" "down_line (4 < r) found_out l = (found_in, out, l')"
  shows "line_ok (r - 1) l' \<and> found_in = (4 < r + 1)"
proof -
  let ?p = "get_position_after l"
  have p: "?p = 104 + 56 * of_int r" using assms(1) by (simp add: line_ok_def)
  define m where "m = down_moved (4 < r) l"
  note m_def' = m_def [unfolded down_moved_def Let_def]
  have "line_ok (r - 1) (snd m) \<and> fst m = (4 < r + 1)"
  proof (cases "r = 4")
    case True
    have "\<not> pending ANIM_DIRECTION_UP l" using assms(1) True by (auto simp: line_ok_def pending_def)
    then have i: "pending_count l = 0" "remaining l = 0" using idle_line assms(1,2) by auto
    have m4: "m = (True, grid_add_anim ANIM_DIRECTION_UP (offset_y * 0.5)
        (l\<lparr>raw_position_y := DRAW_BOUND_BOTTOM - offset_y * 0.5, transparency := 0.25, moving_in := True, moving_out := False\<rparr>))"
      unfolding m_def' p row_bounds using True by simp
    show ?thesis unfolding m4 using i True
      by (simp, intro line_okI [where k = 75])
        (simp_all add: grid_add_anim_def Let_def get_position_after_def grid_consts step_def)
  next
    case False
    then have m': "m = (if in_bounds ?p then (4 < r, grid_add_anim ANIM_DIRECTION_UP offset_y l)
             else (4 < r, l\<lparr>raw_position_y := raw_position_y l - offset_y\<rparr>))"
      unfolding m_def' p row_bounds by simp
    show ?thesis
    proof (cases "0 \<le> r \<and> r \<le> 3")
      case True
      then show ?thesis using add_up_ok [OF assms(1,2)] unfolding m' p row_bounds by simp
    next
      case out: False
      then have "r \<le> - 1 \<or> 5 \<le> r" using False by linarith
      then show ?thesis using shift_ok(1) [OF assms(1) _ assms(2)] False out unfolding m' p row_bounds by auto
    qed
  qed
  moreover have "found_in = fst m \<and> (l' = snd m \<or> l' = (snd m)\<lparr>transparency := 0.999, moving_out := True, moving_in := False\<rparr>)"
    using assms(3) unfolding down_line_def m_def [symmetric] by (cases m) (auto simp: Let_def split: if_splits)
  moreover have "line_ok (r - 1) ((snd m)\<lparr>transparency := 0.999, moving_out := True, moving_in := False\<rparr>) = line_ok (r - 1) (snd m)"
    by (rule line_ok_cong) simp_all
  ultimately show ?thesis by auto
qed

lemma up_line_ok:
  assumes "line_ok r l" "\<not> pending ANIM_DIRECTION_UP l" "up_line (- 1 < r) found_out l = (found_in, out, l')"
  shows "line_ok (r + 1) l' \<and> found_in = (- 1 < r + 1)"
proof -
  let ?p = "get_position_after l"
  have p: "?p = 104 + 56 * of_int r" using assms(1) by (simp add: line_ok_def)
  define m where "m = up_moved (- 1 < r) l"
  note m_def' = m_def [unfolded up_moved_def Let_def]
  have "line_ok (r + 1) (snd m) \<and> fst m = (- 1 < r + 1)"
  proof (cases "r = - 1")
    case True
    have "\<not> pending ANIM_DIRECTION_DOWN l" using assms(1) True by (auto simp: line_ok_def pending_def)
    then have i: "pending_count l = 0" "remaining l = 0" using idle_line assms(1,2) by auto
    have m4: "m = (True, grid_add_anim ANIM_DIRECTION_DOWN (offset_y * 0.5)
        (l\<lparr>raw_position_y := DRAW_BOUND_TOP - offset_y * 0.5, transparency := 0.25, moving_in := True, moving_out := False\<rparr>))"
      unfolding m_def' p row_bounds using True by simp
    show ?thesis unfolding m4 using i True
      by (simp, intro line_okI [where k = 75])
        (simp_all add: grid_add_anim_def Let_def get_position_after_def grid_consts step_def)
  next
    case False
    then have m': "m = (if in_bounds ?p then (- 1 < r, grid_add_anim ANIM_DIRECTION_DOWN offset_y l)
             else (- 1 < r, l\<lparr>raw_position_y := raw_position_y l + offset_y\<rparr>))"
      unfolding m_def' p row_bounds by auto
    show ?thesis
    proof (cases "0 \<le> r \<and> r \<le> 4")
      case True
      then show ?thesis using add_down_ok [OF assms(1,2)] unfolding m' p row_bounds by simp
    next
      case out: False
      then have "r \<le> - 2 \<or> 5 \<le> r" using False by linarith
      then show ?thesis using shift_ok(2) [OF assms(1) _ assms(2)] False out unfolding m' p row_bounds by auto
    qed
  qed
  moreover have "found_in = fst m \<and> (l' = snd m \<or> l' = (snd m)\<lparr>transparency := 0.999, moving_out := True, moving_in := False\<rparr>)"
    using assms(3) unfolding up_line_def m_def [symmetric] by (cases m) (auto simp: Let_def split: if_splits)
  moreover have "line_ok (r + 1) ((snd m)\<lparr>transparency := 0.999, moving_out := True, moving_in := False\<rparr>) = line_ok (r + 1) (snd m)"
    by (rule line_ok_cong) simp_all
  ultimately show ?thesis by auto
qed

lemma down_lines_ok:
  "lines_ok r ls \<Longrightarrow> \<not> list_ex (pending ANIM_DIRECTION_DOWN) ls \<Longrightarrow> lines_ok (r - 1) (down_lines (4 < r) found_out ls)
    \<and> length (down_lines (4 < r) found_out ls) = length ls"
proof (induction ls arbitrary: r found_out)
  case (Cons l ls)
  obtain fi fo l' where d: "down_line (4 < r) found_out l = (fi, fo, l')" by (metis prod_cases3)
  have "line_ok (r - 1) l' \<and> fi = (4 < r + 1)" using down_line_ok [OF _ _ d] Cons.prems by simp
  then show ?case using Cons.IH [of "r + 1" fo] Cons.prems d by simp
qed simp

lemma up_lines_ok:
  "lines_ok r ls \<Longrightarrow> \<not> list_ex (pending ANIM_DIRECTION_UP) ls \<Longrightarrow> lines_ok (r + 1) (up_lines (- 1 < r) found_out ls)
    \<and> length (up_lines (- 1 < r) found_out ls) = length ls"
proof (induction ls arbitrary: r found_out)
  case (Cons l ls)
  obtain fi fo l' where d: "up_line (- 1 < r) found_out l = (fi, fo, l')" by (metis prod_cases3)
  have "line_ok (r + 1) l' \<and> fi = (- 1 < r + 1)" using up_line_ok [OF _ _ d] Cons.prems by simp
  then show ?case using Cons.IH [of "r + 1" fo] Cons.prems d by simp
qed simp

text \<open>The grid of a list whose line \<open>top\<close> is the first on the screen.\<close>

definition grid_ok :: "int \<Rightarrow> int \<Rightarrow> line_backing list \<Rightarrow> bool" where
  "grid_ok number_of_lines top_line ls \<longleftrightarrow> length ls = MAX_LINES \<and> number_of_lines \<le> int MAX_LINES
     \<and> lines_ok (- top_line) (take (nat number_of_lines) ls)"

lemma grid_setup_ok: "0 \<le> n \<Longrightarrow> n \<le> int MAX_LINES \<Longrightarrow> grid_ok n 0 (grid_setup_lines n)"
  by (simp add: grid_ok_def grid_setup_lines_def lines_ok_nth first_line_ok)

lemma grid_update_ok: "grid_ok n t ls \<Longrightarrow> grid_ok n t (grid_update_icon_positions b n ls)"
  by (auto simp: grid_ok_def grid_update_icon_positions_def Let_def min_def intro: lines_ok_map update_line_ok)

lemma grid_down_ok:
  assumes "grid_ok n t ls" "0 \<le> t" "grid_dispatch_navigate_down n ls = Some ls'"
  shows "grid_ok n (t + 1) ls'"
proof -
  let ?ls = "map fade_out (take (nat n) ls)"
  have same: "line_ok r (fade_out l) = line_ok r l" "pending d (fade_out l) = pending d l" for r l d
    by (rule line_ok_cong) (auto simp: fade_out_def pending_def)
  have "\<not> list_ex (pending ANIM_DIRECTION_DOWN) ?ls" "ls' = down_lines False False ?ls @ drop (nat n) ls"
    using assms(3) same(2) by (auto simp: grid_dispatch_navigate_down_def Let_def list_ex_iff split: if_splits)
  moreover have "lines_ok (- t) ?ls" using assms(1) same(1) by (auto simp: grid_ok_def intro: lines_ok_map)
  ultimately show ?thesis using down_lines_ok [of "- t" ?ls False] assms(1,2) by (auto simp: grid_ok_def min_def)
qed

lemma grid_up_ok:
  assumes "grid_ok n t ls" "1 \<le> t" "grid_dispatch_navigate_up n ls = Some ls'"
  shows "grid_ok n (t - 1) ls'"
proof -
  let ?ls = "take (nat n) ls"
  have "\<not> list_ex (pending ANIM_DIRECTION_UP) ?ls" "ls' = up_lines False False ?ls @ drop (nat n) ls"
    using assms(3) by (auto simp: grid_dispatch_navigate_up_def Let_def split: if_splits)
  then show ?thesis using up_lines_ok [of "- t" ?ls False] assms(1,2) by (auto simp: grid_ok_def min_def add.commute)
qed

lemma grid_position:
  "grid_ok n t ls \<Longrightarrow> 0 \<le> l \<Longrightarrow> l < n \<Longrightarrow> get_position_after (ls ! nat l) = 104 + 56 * of_int (l - t)"
  by (auto simp: grid_ok_def lines_ok_nth line_ok_def)

end
