(* ===== verification/GameMenu.thy ===== *)
theory GameMenu
  imports GameGrid GameListProps "HOL-Library.Signed_Division"
begin

text \<open>
  The menu of the game list: one frame of its input handling (patches/source/menu.c,
  \<open>handle_gameselect_inputs\<close>) on the selection, the rows of \<open>GameGrid\<close>, the pictures of \<open>GameAssets\<close>
  and the listing of \<open>GameList\<close>. Sounds and the animation functions of the original program are left
  out. What the frame learns from outside is a record of parameters.
\<close>

section \<open>State\<close>

datatype submenu = SUBMENU_GAMESELECT_LOADER | SUBMENU_GAMESELECT_START

definition MENU_GAMESELECT_ID :: int where "MENU_GAMESELECT_ID = 1"
definition MENU_GAMESELECT_TRANSITION_ID :: int where "MENU_GAMESELECT_TRANSITION_ID = 2"

text \<open>The buttons that went down, and the directions of the stick.\<close>

record pad =
  trigger_z :: bool
  button_b :: bool
  button_a :: bool
  button_start :: bool
  analog_right :: bool
  analog_left :: bool
  analog_down :: bool
  analog_up :: bool

text \<open>The television standard, the drive, what can be booted, the end of a running enumeration thread
  that is waited for, and the page cache that is switched on when a new one starts.\<close>

record 'e world =
  is_ntsc :: bool
  has_dvd :: bool
  is_native :: bool
  force_swiss_boot :: bool
  found_swiss :: bool
  thread_exit :: "'e enum_state \<Rightarrow> 'e enum_state"
  cache_enable :: "'e \<Rightarrow> 'e"

record 'e menu =
  m_enum :: "'e enum_state"
  selected_slot :: int
  top_line_num :: int
  grid_setup_done :: bool
  browser_lines :: "line_backing list"
  current_gameselect_state :: submenu
  in_submenu_transition :: bool
  custom_menu_transition_alpha :: u8
  original_menu_transition_alpha :: u8
  anim_step :: u16
  start_passthrough_game :: bool
  bs2start_ready :: bool
  boot_entry :: "gm_file_entry option"
  second_boot_entry :: "gm_file_entry option"

datatype menu_error = Null_Entry | Path_Too_Long

definition m_lines :: "'e menu \<Rightarrow> int" where "m_lines m = number_of_lines (m_enum m)"
definition m_gm :: "'e menu \<Rightarrow> gm" where "m_gm m = en_gm (m_enum m)"

section \<open>What can be booted\<close>

definition emu_can_boot :: "'e world \<Rightarrow> gm_file_type \<Rightarrow> bool" where
  "emu_can_boot W ty =
     (case ty of
        GM_FILE_TYPE_GAME \<Rightarrow> if is_native W \<and> \<not> force_swiss_boot W then True else found_swiss W
      | GM_FILE_TYPE_PROGRAM \<Rightarrow> found_swiss W
      | _ \<Rightarrow> True)"

section \<open>The parts of a frame\<close>

definition transition_step :: "'e world \<Rightarrow> u8" where
  "transition_step W = (if is_ntsc W then 14 else 16)"

text \<open>The end of a transition is found on the values of the frame before.\<close>

definition end_transition :: "u8 \<Rightarrow> 'e menu \<Rightarrow> 'e menu" where
  "end_transition t m =
     (let c = custom_menu_transition_alpha m; o' = original_menu_transition_alpha m
      in if in_submenu_transition m \<and> c \<noteq> 0 \<and> o' \<noteq> 0 \<and> (255 - uint c < uint t \<or> 255 - uint o' < uint t)
         then m\<lparr>in_submenu_transition := False, custom_menu_transition_alpha := (if c < 127 then 0 else 255),
                original_menu_transition_alpha := (if o' < 127 then 0 else 255)\<rparr>
         else m)"

definition step_transition :: "u8 \<Rightarrow> 'e menu \<Rightarrow> 'e menu" where
  "step_transition t m =
     (if in_submenu_transition m
      then (case current_gameselect_state m of
              SUBMENU_GAMESELECT_LOADER \<Rightarrow>
                m\<lparr>custom_menu_transition_alpha := custom_menu_transition_alpha m + t,
                  original_menu_transition_alpha := original_menu_transition_alpha m - t\<rparr>
            | SUBMENU_GAMESELECT_START \<Rightarrow>
                m\<lparr>custom_menu_transition_alpha := custom_menu_transition_alpha m - t,
                  original_menu_transition_alpha := original_menu_transition_alpha m + t\<rparr>)
      else m)"

definition gm_deinit_thread :: "'e world \<Rightarrow> 'e enum_state \<Rightarrow> 'e enum_state" where
  "gm_deinit_thread W s = (if game_enum_running s then thread_exit W s else s)"

text \<open>A new directory: the running thread ends first.\<close>

definition change_dir :: "'e world \<Rightarrow> bytes \<Rightarrow> 'e menu \<Rightarrow> menu_error + 'e menu" where
  "change_dir W target m =
     (case gm_start_thread (cache_enable W) target (gm_deinit_thread W (m_enum m)) of
        Inl err \<Rightarrow> Inl Path_Too_Long
      | Inr s \<Rightarrow> Inr (m\<lparr>m_enum := s\<rparr>))"

definition press_z :: "'e world \<Rightarrow> pad \<Rightarrow> 'e menu \<Rightarrow> 'e menu" where
  "press_z W p m = (if trigger_z p \<and> has_dvd W then m\<lparr>start_passthrough_game := True, bs2start_ready := True\<rparr> else m)"

text \<open>The first component says that the handler leaves the game list.\<close>

definition press_b :: "'e world \<Rightarrow> pad \<Rightarrow> 'e menu \<Rightarrow> menu_error + bool \<times> 'e menu" where
  "press_b W p m =
     (if \<not> button_b p \<or> in_submenu_transition m then Inr (False, m)
      else if current_gameselect_state m = SUBMENU_GAMESELECT_START
      then Inr (False, m\<lparr>in_submenu_transition := True, current_gameselect_state := SUBMENU_GAMESELECT_LOADER\<rparr>)
      else if game_enum_path (m_enum m) \<noteq> [slash]
      then (case change_dir W dot_dot m of Inl err \<Rightarrow> Inl err | Inr m \<Rightarrow> Inr (False, m))
      else Inr (True, m\<lparr>anim_step := 0\<rparr>))"

definition press_a :: "'e world \<Rightarrow> pad \<Rightarrow> 'e menu \<Rightarrow> menu_error + 'e menu" where
  "press_a W p m =
     (if button_a p \<and> current_gameselect_state m = SUBMENU_GAMESELECT_LOADER
         \<and> selected_slot m < int (game_backing_count (m_enum m)) \<and> \<not> in_submenu_transition m
      then (case gm_get_game_entry (m_gm m) (selected_slot m) of
              None \<Rightarrow> Inl Null_Entry
            | Some entry \<Rightarrow>
                if e_type entry = GM_FILE_TYPE_DIRECTORY
                then (if length (e_path entry @ [slash]) \<ge> PATH_SIZE then Inl Path_Too_Long
                      else change_dir W (e_path entry @ [slash]) m)
                else Inr (m\<lparr>in_submenu_transition := True, current_gameselect_state := SUBMENU_GAMESELECT_START\<rparr>))
      else Inr m)"

text \<open>The first component says that the handler returns at once, as the entry cannot be booted.\<close>

definition press_start :: "'e world \<Rightarrow> pad \<Rightarrow> 'e menu \<Rightarrow> menu_error + bool \<times> 'e menu" where
  "press_start W p m =
     (if button_start p \<and> current_gameselect_state m = SUBMENU_GAMESELECT_START
      then (case gm_get_game_entry (m_gm m) (selected_slot m) of
              None \<Rightarrow> Inl Null_Entry
            | Some entry \<Rightarrow>
                if \<not> emu_can_boot W (e_type entry) then Inr (True, m)
                else Inr (False, (case second entry of
                    None \<Rightarrow> m\<lparr>boot_entry := Some entry, bs2start_ready := True\<rparr>
                  | Some i \<Rightarrow> m\<lparr>boot_entry := Some entry, second_boot_entry := Some (entry_backing (m_gm m) ! i),
                                bs2start_ready := True\<rparr>)))
      else Inr (False, m))"

definition move_right :: "pad \<Rightarrow> 'e menu \<Rightarrow> 'e menu" where
  "move_right p m =
     (if analog_right p \<and> selected_slot m smod 8 \<noteq> 8 - 1 then m\<lparr>selected_slot := selected_slot m + 1\<rparr> else m)"

definition move_left :: "pad \<Rightarrow> 'e menu \<Rightarrow> 'e menu" where
  "move_left p m =
     (if analog_left p \<and> selected_slot m smod 8 \<noteq> 0 then m\<lparr>selected_slot := selected_slot m - 1\<rparr> else m)"

definition change_line :: "int \<Rightarrow> line_backing list \<Rightarrow> 'e menu \<Rightarrow> 'e menu" where
  "change_line delta ls m =
     (let g = gm_line_changed (m_lines m) (top_line_num m) delta (m_gm m)
      in m\<lparr>browser_lines := ls, m_enum := (m_enum m)\<lparr>en_gm := g\<rparr>, selected_slot := selected_slot m + 8 * delta,
           top_line_num := top_line_num m + delta\<rparr>)"

definition selected_position :: "'e menu \<Rightarrow> rat" where
  "selected_position m = get_position_after (browser_lines m ! nat (selected_slot m sdiv 8))"

definition move_down :: "pad \<Rightarrow> 'e menu \<Rightarrow> 'e menu" where
  "move_down p m =
     (if \<not> analog_down p \<or> m_lines m - top_line_num m = 4 \<and> selected_slot m + 8 > m_lines m * 8 - 1 then m
      else if selected_position m \<ge> DRAW_BOUND_BOTTOM - offset_y - 10
      then (case grid_dispatch_navigate_down (m_lines m) (browser_lines m) of
              None \<Rightarrow> m | Some ls \<Rightarrow> change_line 1 ls m)
      else m\<lparr>selected_slot := selected_slot m + 8\<rparr>)"

definition move_up :: "pad \<Rightarrow> 'e menu \<Rightarrow> 'e menu" where
  "move_up p m =
     (if \<not> analog_up p \<or> top_line_num m = 0 \<and> selected_slot m - 8 < 0 then m
      else if top_line_num m \<noteq> 0 \<and> selected_position m \<le> DRAW_BOUND_TOP + offset_y - 10
      then (case grid_dispatch_navigate_up (m_lines m) (browser_lines m) of
              None \<Rightarrow> m | Some ls \<Rightarrow> change_line (- 1) ls m)
      else m\<lparr>selected_slot := selected_slot m - 8\<rparr>)"

definition navigate :: "pad \<Rightarrow> 'e menu \<Rightarrow> 'e menu" where
  "navigate p m =
     (if current_gameselect_state m = SUBMENU_GAMESELECT_LOADER then move_up p (move_down p (move_left p (move_right p m))) else m)"

section \<open>A frame\<close>

definition update_icon_positions :: "'e menu \<Rightarrow> 'e menu" where
  "update_icon_positions m = m\<lparr>anim_step := anim_step m + 7\<rparr>"

definition handle_gameselect_inputs :: "'e world \<Rightarrow> pad \<Rightarrow> 'e menu \<Rightarrow> menu_error + int \<times> 'e menu" where
  "handle_gameselect_inputs W p m =
     (let m = update_icon_positions m;
          m = m\<lparr>browser_lines := grid_update_icon_positions (grid_setup_done m) (m_lines m) (browser_lines m)\<rparr>;
          t = transition_step W;
          m = press_z W p (step_transition t (end_transition t m))
      in case press_b W p m of
        Inl err \<Rightarrow> Inl err
      | Inr (leave, m) \<Rightarrow>
          if leave then Inr (MENU_GAMESELECT_ID, m)
          else case press_a W p m of
            Inl err \<Rightarrow> Inl err
          | Inr m \<Rightarrow>
              case press_start W p m of
                Inl err \<Rightarrow> Inl err
              | Inr (refused, m) \<Rightarrow> Inr (MENU_GAMESELECT_TRANSITION_ID, if refused then m else navigate p m))"

text \<open>The grid is set up when the directory was listed.\<close>

definition grid_setup_func :: "'e menu \<Rightarrow> 'e menu" where
  "grid_setup_func m =
     m\<lparr>browser_lines := grid_setup_lines (m_lines m), selected_slot := 0, top_line_num := 0, grid_setup_done := True\<rparr>"

text \<open>The transfers posted so far end.\<close>

definition transfers_done :: "'e menu \<Rightarrow> 'e menu" where
  "transfers_done m = m\<lparr>m_enum := (m_enum m)\<lparr>en_gm := transfers_end (m_gm m)\<rparr>\<rparr>"


section \<open>What stays true\<close>

text \<open>The two alpha values are those of the state, or a whole number of steps on the way there.\<close>

definition alpha_ok :: "u8 \<Rightarrow> 'e menu \<Rightarrow> bool" where
  "alpha_ok t m \<longleftrightarrow> uint (custom_menu_transition_alpha m) + uint (original_menu_transition_alpha m) = 255
     \<and> (case current_gameselect_state m of
          SUBMENU_GAMESELECT_LOADER \<Rightarrow> if in_submenu_transition m then uint t dvd uint (custom_menu_transition_alpha m)
            else custom_menu_transition_alpha m = 255
        | SUBMENU_GAMESELECT_START \<Rightarrow> if in_submenu_transition m then uint t dvd uint (original_menu_transition_alpha m)
            else original_menu_transition_alpha m = 255)"

definition selection_ok :: "'e menu \<Rightarrow> bool" where
  "selection_ok m \<longleftrightarrow> 0 \<le> top_line_num m \<and> top_line_num m + 4 \<le> m_lines m \<and> 8 * top_line_num m \<le> selected_slot m
     \<and> selected_slot m < 8 * (top_line_num m + 4)"

definition menu_ok :: "'e world \<Rightarrow> 'e menu \<Rightarrow> bool" where
  "menu_ok W m \<longleftrightarrow> selection_ok m \<and> grid_ok (m_lines m) (top_line_num m) (browser_lines m)
     \<and> GameWindow.settled (window (m_lines m) (top_line_num m)) (m_gm m) \<and> alpha_ok (transition_step W) m"

text \<open>What a step before the navigation may change.\<close>

definition same_list :: "'e menu \<Rightarrow> 'e menu \<Rightarrow> bool" where
  "same_list m m' \<longleftrightarrow> m_enum m' = m_enum m \<and> selected_slot m' = selected_slot m \<and> top_line_num m' = top_line_num m
     \<and> browser_lines m' = browser_lines m"

lemma menu_ok_same: "same_list m m' \<Longrightarrow> menu_ok W m \<Longrightarrow> alpha_ok (transition_step W) m' \<Longrightarrow> menu_ok W m'"
  by (simp add: menu_ok_def same_list_def selection_ok_def m_lines_def m_gm_def)

lemma uint_255: "x = 255 \<longleftrightarrow> uint x = 255" for x :: u8
  by (simp add: word_uint_eq_iff)

lemma transition_ok:
  assumes "alpha_ok t m" "t = 14 \<or> t = 16"
  shows "alpha_ok t (step_transition t (end_transition t m))"
proof -
  define c where "c = custom_menu_transition_alpha m"
  define d where "d = original_menu_transition_alpha m"
  have s: "uint c + uint d = 255" using assms(1) by (simp add: alpha_ok_def c_def d_def)
  have nn: "0 \<le> uint c" "0 \<le> uint d" by simp_all
  have nd: "\<not> uint t dvd 255" "uint t = 14 \<or> uint t = 16" using assms(2) by auto
  have z: "c = 0 \<longleftrightarrow> uint c = 0" "d = 0 \<longleftrightarrow> uint d = 0" by (simp_all add: word_uint_eq_iff)
  have lt: "c < 127 \<longleftrightarrow> uint c < 127" "d < 127 \<longleftrightarrow> uint d < 127" by (simp_all add: word_less_def)
  have add: "uint (x + t) = uint x + uint t" if "uint x + uint t \<le> 255" for x :: u8
    using that uint_add_lem [of x t] by simp
  have sub: "uint (x - t) = uint x - uint t" if "uint t \<le> uint x" for x :: u8
    using that uint_sub_lem [of t x] by simp
  have dv: "uint t \<le> k" if "uint t dvd k" "k \<noteq> 0" "0 \<le> k" for k using that zdvd_imp_le by force
  show ?thesis
  proof (cases "in_submenu_transition m")
    case False
    then show ?thesis using assms(1) by (simp add: end_transition_def step_transition_def Let_def)
  next
    case True
    show ?thesis
    proof (cases "current_gameselect_state m")
      case SUBMENU_GAMESELECT_LOADER
      then have dvd: "uint t dvd uint c" using assms(1) True by (simp add: alpha_ok_def c_def)
      show ?thesis
      proof (cases "c \<noteq> 0 \<and> d \<noteq> 0 \<and> (255 - uint c < uint t \<or> 255 - uint d < uint t)")
        case f: True
        then have "uint t \<le> uint c" using dv [OF dvd] z by auto
        then have "\<not> c < 127" "d < 127" using f s nd(2) lt by auto
        then show ?thesis using f True SUBMENU_GAMESELECT_LOADER
          by (simp add: end_transition_def step_transition_def Let_def alpha_ok_def flip: c_def d_def)
      next
        case nf: False
        then have le: "uint c + uint t \<le> 255" "uint t \<le> uint d" using s z nd dvd by auto
        then show ?thesis using nf True SUBMENU_GAMESELECT_LOADER dvd s add [of c] sub [of d]
          by (simp add: end_transition_def step_transition_def Let_def alpha_ok_def flip: c_def d_def)
      qed
    next
      case SUBMENU_GAMESELECT_START
      then have dvd: "uint t dvd uint d" using assms(1) True by (simp add: alpha_ok_def d_def)
      show ?thesis
      proof (cases "c \<noteq> 0 \<and> d \<noteq> 0 \<and> (255 - uint c < uint t \<or> 255 - uint d < uint t)")
        case f: True
        then have "uint t \<le> uint d" using dv [OF dvd] z by auto
        then have "\<not> d < 127" "c < 127" using f s nd(2) lt by auto
        then show ?thesis using f True SUBMENU_GAMESELECT_START
          by (simp add: end_transition_def step_transition_def Let_def alpha_ok_def flip: c_def d_def)
      next
        case nf: False
        then have le: "uint d + uint t \<le> 255" "uint t \<le> uint c" using s z nd dvd by auto
        then show ?thesis using nf True SUBMENU_GAMESELECT_START dvd s add [of d] sub [of c]
          by (simp add: end_transition_def step_transition_def Let_def alpha_ok_def flip: c_def d_def)
      qed
    qed
  qed
qed


section \<open>Navigation\<close>

lemma sdiv8: "0 \<le> i \<Longrightarrow> i sdiv 8 = i div 8" "0 \<le> i \<Longrightarrow> i smod 8 = i mod 8" for i :: int
  by (auto simp: signed_divide_int_def smod_mod_positive sgn_if)

lemma alpha_ok_simps [simp]:
  "alpha_ok t (m\<lparr>selected_slot := i\<rparr>) = alpha_ok t m" "alpha_ok t (m\<lparr>m_enum := e\<rparr>) = alpha_ok t m"
  "alpha_ok t (m\<lparr>browser_lines := ls\<rparr>) = alpha_ok t m" "alpha_ok t (m\<lparr>top_line_num := i\<rparr>) = alpha_ok t m"
  "alpha_ok t (m\<lparr>anim_step := w\<rparr>) = alpha_ok t m" "alpha_ok t (m\<lparr>bs2start_ready := b\<rparr>) = alpha_ok t m"
  "alpha_ok t (m\<lparr>start_passthrough_game := b\<rparr>) = alpha_ok t m"
  by (simp_all add: alpha_ok_def split: submenu.split)

lemma right_ok: "menu_ok W m \<Longrightarrow> menu_ok W (move_right p m)"
proof -
  assume ok: "menu_ok W m"
  have s: "0 \<le> selected_slot m" "selected_slot m < 8 * (top_line_num m + 4)" using ok by (auto simp: menu_ok_def selection_ok_def)
  have "selected_slot m + 1 < 8 * (top_line_num m + 4)" if "selected_slot m mod 8 \<noteq> 7" using s that by presburger
  then show ?thesis using ok s by (auto simp: move_right_def sdiv8 menu_ok_def selection_ok_def m_lines_def m_gm_def)
qed

lemma left_ok: "menu_ok W m \<Longrightarrow> menu_ok W (move_left p m)"
proof -
  assume ok: "menu_ok W m"
  have s: "0 \<le> selected_slot m" "8 * top_line_num m \<le> selected_slot m" using ok by (auto simp: menu_ok_def selection_ok_def)
  have "8 * top_line_num m \<le> selected_slot m - 1" if "selected_slot m mod 8 \<noteq> 0" using s that by presburger
  then show ?thesis using ok s by (auto simp: move_left_def sdiv8 menu_ok_def selection_ok_def m_lines_def m_gm_def)
qed

lemma selected_row:
  assumes "menu_ok W m"
  shows "selected_position m = 104 + 56 * of_int (selected_slot m div 8 - top_line_num m)"
    "0 \<le> selected_slot m div 8 - top_line_num m" "selected_slot m div 8 - top_line_num m \<le> 3"
proof -
  have s: "selection_ok m" and g: "grid_ok (m_lines m) (top_line_num m) (browser_lines m)" using assms by (auto simp: menu_ok_def)
  have "0 \<le> selected_slot m" using s by (simp add: selection_ok_def)
  moreover have "selected_slot m div 8 < m_lines m" using s by (simp add: selection_ok_def) presburger
  ultimately show "selected_position m = 104 + 56 * of_int (selected_slot m div 8 - top_line_num m)"
    using grid_position [OF g, of "selected_slot m div 8"] by (simp add: selected_position_def sdiv8)
  show "0 \<le> selected_slot m div 8 - top_line_num m" "selected_slot m div 8 - top_line_num m \<le> 3"
    using s by (simp_all add: selection_ok_def) presburger+
qed

text \<open>After the navigation the transfers it posted end.\<close>

lemma change_line_done:
  "m_lines (transfers_done (change_line d ls m)) = m_lines m" "top_line_num (transfers_done (change_line d ls m)) = top_line_num m + d"
  "selected_slot (transfers_done (change_line d ls m)) = selected_slot m + 8 * d" "browser_lines (transfers_done (change_line d ls m)) = ls"
  "m_gm (transfers_done (change_line d ls m)) = transfers_end (gm_line_changed (m_lines m) (top_line_num m) d (m_gm m))"
  "alpha_ok t (transfers_done (change_line d ls m)) = alpha_ok t m"
  by (simp_all add: transfers_done_def change_line_def m_lines_def m_gm_def Let_def)

lemma settled_done: "GameWindow.settled V g \<Longrightarrow> transfers_end g = g"
  by (simp add: GameWindow.settled_def transfers_end_def)

lemma transfers_done_ok: "menu_ok W m \<Longrightarrow> menu_ok W (transfers_done m)"
  by (auto simp: menu_ok_def transfers_done_def m_lines_def m_gm_def selection_ok_def settled_done)

lemma down_ok:
  assumes "menu_ok W m"
  shows "menu_ok W (transfers_done (move_down p m))"
proof -
  note row = selected_row [OF assms]
  have s: "selection_ok m" and g: "grid_ok (m_lines m) (top_line_num m) (browser_lines m)"
    and st: "GameWindow.settled (window (m_lines m) (top_line_num m)) (m_gm m)" and al: "alpha_ok (transition_step W) m"
    using assms by (auto simp: menu_ok_def)
  let ?r = "selected_slot m div 8 - top_line_num m"
  have pos: "selected_position m \<ge> DRAW_BOUND_BOTTOM - offset_y - 10 \<longleftrightarrow> ?r = 3"
  proof -
    have "(of_int ?r :: rat) \<le> of_int 2" if "?r \<noteq> 3" using row(3) that by (simp only: of_int_le_iff)
    then show ?thesis unfolding row(1) grid_consts by (cases "?r = 3") auto
  qed
  show ?thesis
  proof (cases "analog_down p \<and> \<not> (m_lines m - top_line_num m = 4 \<and> selected_slot m + 8 > m_lines m * 8 - 1)")
    case False
    then show ?thesis using transfers_done_ok [OF assms] by (auto simp: move_down_def)
  next
    case go: True
    show ?thesis
    proof (cases "?r = 3")
      case False
      then have "selection_ok (m\<lparr>selected_slot := selected_slot m + 8\<rparr>)"
        using s row(2,3) by (simp add: selection_ok_def m_lines_def)
      then have "menu_ok W (m\<lparr>selected_slot := selected_slot m + 8\<rparr>)"
        using assms by (simp add: menu_ok_def m_lines_def m_gm_def)
      then show ?thesis using go pos False transfers_done_ok by (auto simp: move_down_def)
    next
      case True
      have "8 * top_line_num m + 24 \<le> selected_slot m" using True by linarith
      moreover have "top_line_num m + 4 \<le> m_lines m" using s by (simp add: selection_ok_def)
      ultimately have room: "top_line_num m + 4 < m_lines m" using go by auto
      show ?thesis
      proof (cases "grid_dispatch_navigate_down (m_lines m) (browser_lines m)")
        case None
        then show ?thesis using go pos True transfers_done_ok [OF assms] by (auto simp: move_down_def)
      next
        case (Some ls)
        have t0: "0 \<le> top_line_num m" using s by (simp add: selection_ok_def)
        have "menu_ok W (transfers_done (change_line 1 ls m))"
          unfolding menu_ok_def selection_ok_def change_line_done
          using s room al grid_down_ok [OF g t0 Some] gm_line_changed_down [OF st t0] by (auto simp: selection_ok_def)
        then show ?thesis using go pos True Some by (auto simp: move_down_def)
      qed
    qed
  qed
qed

lemma up_ok:
  assumes "menu_ok W m"
  shows "menu_ok W (transfers_done (move_up p m))"
proof -
  note row = selected_row [OF assms]
  have s: "selection_ok m" and g: "grid_ok (m_lines m) (top_line_num m) (browser_lines m)"
    and st: "GameWindow.settled (window (m_lines m) (top_line_num m)) (m_gm m)" and al: "alpha_ok (transition_step W) m"
    using assms by (auto simp: menu_ok_def)
  let ?r = "selected_slot m div 8 - top_line_num m"
  have pos: "selected_position m \<le> DRAW_BOUND_TOP + offset_y - 10 \<longleftrightarrow> ?r = 0"
  proof -
    have "(of_int 1 :: rat) \<le> of_int ?r" if "?r \<noteq> 0" using row(2) that by (simp only: of_int_le_iff)
    then show ?thesis unfolding row(1) grid_consts by (cases "?r = 0") auto
  qed
  show ?thesis
  proof (cases "analog_up p \<and> \<not> (top_line_num m = 0 \<and> selected_slot m - 8 < 0)")
    case False
    then show ?thesis using transfers_done_ok [OF assms] by (auto simp: move_up_def)
  next
    case go: True
    show ?thesis
    proof (cases "top_line_num m \<noteq> 0 \<and> ?r = 0")
      case False
      have "?r \<noteq> 0"
      proof
        assume r0: "?r = 0"
        then have "selected_slot m div 8 = 0" using False by simp
        moreover have "0 \<le> selected_slot m" using s by (simp add: selection_ok_def)
        ultimately have "selected_slot m < 8" by presburger
        then show False using go False r0 by auto
      qed
      then have "8 * top_line_num m + 8 \<le> selected_slot m" using row(2) by linarith
      then have "selection_ok (m\<lparr>selected_slot := selected_slot m - 8\<rparr>)" using s by (simp add: selection_ok_def m_lines_def)
      then have "menu_ok W (m\<lparr>selected_slot := selected_slot m - 8\<rparr>)"
        using assms by (simp add: menu_ok_def m_lines_def m_gm_def)
      then show ?thesis using go pos False transfers_done_ok by (auto simp: move_up_def)
    next
      case True
      then have t1: "1 \<le> top_line_num m" using s by (simp add: selection_ok_def)
      show ?thesis
      proof (cases "grid_dispatch_navigate_up (m_lines m) (browser_lines m)")
        case None
        then show ?thesis using go pos True transfers_done_ok [OF assms] by (auto simp: move_up_def)
      next
        case (Some ls)
        have "menu_ok W (transfers_done (change_line (- 1) ls m))"
          unfolding menu_ok_def selection_ok_def change_line_done
          using s t1 al grid_up_ok [OF g t1 Some] gm_line_changed_up [OF st] by (auto simp: selection_ok_def)
        then show ?thesis using go pos True Some by (auto simp: move_up_def)
      qed
    qed
  qed
qed


section \<open>The rest of a frame\<close>

lemma navigate_ok:
  assumes "menu_ok W m" "\<not> (analog_up p \<and> analog_down p)"
  shows "menu_ok W (transfers_done (navigate p m))"
proof -
  let ?m = "move_left p (move_right p m)"
  have ok: "menu_ok W ?m" using assms(1) left_ok right_ok by blast
  have "menu_ok W (transfers_done (move_up p (move_down p ?m)))"
  proof (cases "analog_down p")
    case True
    then have "move_up p (move_down p ?m) = move_down p ?m" using assms(2) by (simp add: move_up_def)
    then show ?thesis using down_ok [OF ok] by simp
  next
    case False
    then have "move_down p ?m = ?m" by (simp add: move_down_def)
    then show ?thesis using up_ok [OF ok] by simp
  qed
  then show ?thesis using transfers_done_ok [OF assms(1)] by (simp add: navigate_def)
qed

text \<open>A new directory leaves no lines; in any other case the buttons change neither the list nor the selection.\<close>

definition stops :: "'e world \<Rightarrow> bool" where
  "stops W \<longleftrightarrow> (\<forall>s. \<not> game_enum_running (thread_exit W s))"

lemma change_dir_lines: "stops W \<Longrightarrow> change_dir W target m = Inr m' \<Longrightarrow> m_lines m' = 0"
  by (auto simp: change_dir_def gm_start_thread_def gm_deinit_thread_def stops_def Let_def m_lines_def split: sum.splits if_splits)

lemma press_b_ok:
  assumes "press_b W p m = Inr (leave, m')" "menu_ok W m" "stops W"
  shows "m_lines m' = 0 \<or> menu_ok W m' \<and> m_lines m' = m_lines m"
proof -
  have "menu_ok W (m\<lparr>in_submenu_transition := True, current_gameselect_state := SUBMENU_GAMESELECT_LOADER\<rparr>)"
    if "\<not> in_submenu_transition m" "current_gameselect_state m = SUBMENU_GAMESELECT_START"
    using assms(2) that by (auto simp: menu_ok_def selection_ok_def m_lines_def m_gm_def alpha_ok_def)
  moreover have "menu_ok W (m\<lparr>anim_step := 0\<rparr>)"
    using assms(2) by (simp add: menu_ok_def selection_ok_def m_lines_def m_gm_def)
  ultimately show ?thesis using assms change_dir_lines [OF assms(3), of dot_dot m]
    by (auto simp: press_b_def m_lines_def split: if_splits sum.splits)
qed

lemma press_a_ok:
  assumes "press_a W p m = Inr m'" "menu_ok W m" "stops W"
  shows "m_lines m' = 0 \<or> menu_ok W m' \<and> m_lines m' = m_lines m"
proof -
  have "menu_ok W (m\<lparr>in_submenu_transition := True, current_gameselect_state := SUBMENU_GAMESELECT_START\<rparr>)"
    if "\<not> in_submenu_transition m" "current_gameselect_state m = SUBMENU_GAMESELECT_LOADER"
    using assms(2) that by (auto simp: menu_ok_def selection_ok_def m_lines_def m_gm_def alpha_ok_def)
  then show ?thesis using assms change_dir_lines [OF assms(3)]
    by (auto simp: press_a_def m_lines_def split: if_splits option.splits)
qed

lemma press_start_ok:
  assumes "press_start W p m = Inr (refused, m')" "menu_ok W m"
  shows "menu_ok W m' \<and> m_lines m' = m_lines m"
  using assms by (auto simp: press_start_def menu_ok_def selection_ok_def m_lines_def m_gm_def alpha_ok_def split: if_splits option.splits submenu.splits)

lemma navigate_lines: "m_lines (navigate p m) = m_lines m"
  by (simp add: navigate_def move_up_def move_down_def move_left_def move_right_def change_line_def m_lines_def Let_def split: option.split)

lemma press_start_lines: "press_start W p m = Inr (refused, m') \<Longrightarrow> m_lines m' = m_lines m"
  by (auto simp: press_start_def m_lines_def split: if_splits option.splits)

lemma press_a_lines: "press_a W p m = Inr m' \<Longrightarrow> stops W \<Longrightarrow> m_lines m = 0 \<Longrightarrow> m_lines m' = 0"
  using change_dir_lines by (fastforce simp: press_a_def m_lines_def split: if_splits option.splits)


lemma frame_ok:
  assumes "menu_ok W m" "stops W" "\<not> (analog_up p \<and> analog_down p)" "handle_gameselect_inputs W p m = Inr (r, m')" "m_lines m' \<noteq> 0"
  shows "menu_ok W (transfers_done m')"
proof -
  let ?m = "update_icon_positions m"
  let ?g = "?m\<lparr>browser_lines := grid_update_icon_positions (grid_setup_done ?m) (m_lines ?m) (browser_lines ?m)\<rparr>"
  let ?t = "transition_step W"
  define m1 where "m1 = press_z W p (step_transition ?t (end_transition ?t ?g))"
  have "menu_ok W ?g"
    using assms(1) by (simp add: menu_ok_def update_icon_positions_def selection_ok_def m_lines_def m_gm_def grid_update_ok)
  moreover from this have "alpha_ok ?t (step_transition ?t (end_transition ?t ?g))"
    by (intro transition_ok) (auto simp: menu_ok_def transition_step_def)
  moreover have "same_list ?g (step_transition ?t (end_transition ?t ?g))"
    by (simp add: same_list_def step_transition_def end_transition_def Let_def split: submenu.split)
  ultimately have "menu_ok W (step_transition ?t (end_transition ?t ?g))" using menu_ok_same by blast
  then have ok1: "menu_ok W m1"
    by (simp add: m1_def press_z_def menu_ok_def selection_ok_def m_lines_def m_gm_def)
  have h: "handle_gameselect_inputs W p m = (case press_b W p m1 of
        Inl err \<Rightarrow> Inl err
      | Inr (leave, m) \<Rightarrow>
          if leave then Inr (MENU_GAMESELECT_ID, m)
          else case press_a W p m of
            Inl err \<Rightarrow> Inl err
          | Inr m \<Rightarrow>
              case press_start W p m of
                Inl err \<Rightarrow> Inl err
              | Inr (refused, m) \<Rightarrow> Inr (MENU_GAMESELECT_TRANSITION_ID, if refused then m else navigate p m))"
    unfolding handle_gameselect_inputs_def m1_def Let_def ..
  obtain leave m2 where b: "press_b W p m1 = Inr (leave, m2)" using assms(4) unfolding h by (auto split: sum.splits)
  note b2 = press_b_ok [OF b ok1 assms(2)]
  show ?thesis
  proof (cases leave)
    case True
    then show ?thesis using assms(4,5) b b2 transfers_done_ok unfolding h by auto
  next
    case False
    then obtain m3 where a: "press_a W p m2 = Inr m3" using assms(4) b unfolding h by (auto split: sum.splits)
    obtain refused m4 where s: "press_start W p m3 = Inr (refused, m4)" using assms(4) b a False unfolding h by (auto split: sum.splits)
    have m': "m' = (if refused then m4 else navigate p m4)" using assms(4) b a s False unfolding h by auto
    then have "m_lines m4 \<noteq> 0" using assms(5) navigate_lines [of p m4] by (auto split: if_splits)
    then have "m_lines m3 \<noteq> 0" using press_start_lines [OF s] by simp
    then have "menu_ok W m2" using b2 press_a_lines [OF a assms(2)] by blast
    then have "menu_ok W m3" using press_a_ok [OF a _ assms(2)] \<open>m_lines m3 \<noteq> 0\<close> by blast
    then have "menu_ok W m4" using press_start_ok [OF s] by blast
    then show ?thesis unfolding m' using transfers_done_ok navigate_ok [OF _ assms(3)] by (cases refused) auto
  qed
qed

section \<open>Browsing a directory\<close>

text \<open>The states of the menu while one directory of \<open>n\<close> lines is shown: from the set-up of the grid,
  with the banners of the first lines in memory, by frames that do not change the directory and in
  which the stick is not up and down at once. The transfers a frame posts end before the next one.\<close>

inductive browse :: "'e world \<Rightarrow> int \<Rightarrow> 'e menu \<Rightarrow> bool" for W n where
  browse_start: "m_lines m = n \<Longrightarrow> 4 \<le> n \<Longrightarrow> n \<le> int MAX_LINES \<Longrightarrow> GameWindow.settled (window n 0) (m_gm m) \<Longrightarrow>
    alpha_ok (transition_step W) m \<Longrightarrow> browse W n (grid_setup_func m)"
| browse_frame: "browse W n m \<Longrightarrow> \<not> (analog_up p \<and> analog_down p) \<Longrightarrow> handle_gameselect_inputs W p m = Inr (r, m') \<Longrightarrow>
    m_lines m' = n \<Longrightarrow> browse W n (transfers_done m')"

lemma browse_ok: "browse W n m \<Longrightarrow> stops W \<Longrightarrow> menu_ok W m \<and> m_lines m = n \<and> 4 \<le> n"
proof (induction rule: browse.induct)
  case (browse_start m)
  then have "grid_ok n 0 (grid_setup_lines n)" by (intro grid_setup_ok) auto
  moreover have "alpha_ok (transition_step W) (grid_setup_func m)"
    using browse_start(5) by (simp add: grid_setup_func_def alpha_ok_def split: submenu.splits)
  ultimately show ?case using browse_start by (simp add: menu_ok_def grid_setup_func_def selection_ok_def m_lines_def m_gm_def)
next
  case (browse_frame m p r m')
  then have "menu_ok W (transfers_done m')" using frame_ok by force
  moreover have "m_lines (transfers_done m') = m_lines m'" by (simp add: transfers_done_def m_lines_def)
  ultimately show ?case using browse_frame by simp
qed

lemma settled_state:
  assumes "GameWindow.settled V g" "i < GameWindow.count g" "i div 8 \<in> V"
  shows "bstate g i \<in> {GM_LOAD_STATE_LOADED, GM_LOAD_STATE_NONE}"
proof -
  obtain A where A: "assets_ok g A []" using assms(1) by (auto simp: GameWindow.settled_def)
  have "bstate g i \<noteq> GM_LOAD_STATE_UNLOADED" using assms by (auto simp: GameWindow.settled_def)
  moreover have "bstate g i \<noteq> GM_LOAD_STATE_LOADING" using A assms(2) by (auto simp: assets_ok_def)
  ultimately show ?thesis using A assms(2) unfolding assets_ok_def by (metis empty_iff insert_iff)
qed



text \<open>Forty programs, of which none has a banner, fill five lines.\<close>

definition shown_menu :: "nat menu" where
  "shown_menu =
     \<lparr>m_enum = one_game_enum\<lparr>en_gm := (en_gm one_game_enum)\<lparr>entry_backing := replicate 40 (empty_entry [slash] GM_FILE_TYPE_PROGRAM)\<rparr>,
        game_backing_count := 40, number_of_lines := 5, game_enum_running := False\<rparr>,
      selected_slot = 3, top_line_num = 0, grid_setup_done = False, browser_lines = [], current_gameselect_state = SUBMENU_GAMESELECT_LOADER,
      in_submenu_transition = False, custom_menu_transition_alpha = 255, original_menu_transition_alpha = 0, anim_step = 0,
      start_passthrough_game = False, bs2start_ready = False, boot_entry = None, second_boot_entry = None\<rparr>"

definition shown_world :: "nat world" where
  "shown_world = \<lparr>is_ntsc = True, has_dvd = False, is_native = True, force_swiss_boot = False, found_swiss = False,
     thread_exit = (\<lambda>s. s\<lparr>game_enum_running := False\<rparr>), cache_enable = id\<rparr>"

definition down_pad :: pad where
  "down_pad = \<lparr>trigger_z = False, button_b = False, button_a = False, button_start = False, analog_right = False,
     analog_left = False, analog_down = True, analog_up = False\<rparr>"

lemma down_frame:
  "\<exists>m'. handle_gameselect_inputs W down_pad m = Inr (MENU_GAMESELECT_TRANSITION_ID, m') \<and> m_lines m' = m_lines m"
proof -
  have p: "press_b W down_pad k = Inr (False, k)" "press_a W down_pad k = Inr k" "press_start W down_pad k = Inr (False, k)" for k
    by (simp_all add: press_b_def press_a_def press_start_def down_pad_def)
  show ?thesis
    by (simp add: handle_gameselect_inputs_def Let_def p navigate_lines)
      (simp add: m_lines_def press_z_def step_transition_def end_transition_def update_icon_positions_def Let_def split: submenu.split)
qed

lemma shown_settled: "GameWindow.settled V (m_gm shown_menu)"
proof -
  have "assets_ok (m_gm shown_menu) {} []"
    by (simp add: assets_ok_def shown_menu_def m_gm_def one_game_enum_def empty_entry_def no_part_def ASSET_BUFFER_COUNT_def)
  moreover have "only_games (m_gm shown_menu)"
    by (simp add: only_games_def shown_menu_def m_gm_def one_game_enum_def empty_entry_def no_part_def)
  ultimately show ?thesis
    by (auto simp: GameWindow.settled_def shown_menu_def m_gm_def one_game_enum_def empty_entry_def no_part_def)
qed

lemma shown_browse: "browse shown_world 5 (grid_setup_func shown_menu)"
proof (rule browse_start)
  show "m_lines shown_menu = 5" by (simp add: m_lines_def shown_menu_def)
  show "alpha_ok (transition_step shown_world) shown_menu" by (simp add: alpha_ok_def shown_menu_def)
qed (simp_all add: MAX_LINES_def shown_settled)


end
