(* ===== verification/MemWrites.thy ===== *)
theory MemWrites
  imports IplLoad
begin

text \<open>
  Writes to main memory, in order: what stays, and what a range holds in the end when no other write
  overlaps it.
\<close>

definition writes :: "(u32 \<times> bytes) list \<Rightarrow> memory \<Rightarrow> memory" where
  "writes ws m = foldl (\<lambda>m (a, bs). mem_write m a bs) m ws"

lemma writes_append [simp]: "writes (ws @ vs) m = writes vs (writes ws m)"
  by (simp add: writes_def)

lemma writes_Nil [simp]: "writes [] m = m"
  by (simp add: writes_def)

lemma writes_Cons [simp]: "writes ((a, bs) # ws) m = writes ws (mem_write m a bs)"
  by (simp add: writes_def)

lemma writes_change: "writes ws m x \<noteq> m x \<Longrightarrow> \<exists>(a, bs) \<in> set ws. unat (x - a) < length bs"
proof (induction ws arbitrary: m)
  case (Cons w ws)
  obtain a bs where w: "w = (a, bs)" by force
  show ?case
  proof (cases "unat (x - a) < length bs")
    case False
    then have "mem_write m a bs x = m x" by (simp add: mem_write_def)
    then show ?thesis using Cons w by fastforce
  qed (use w in auto)
qed simp

text \<open>Two ranges of addresses without a common one.\<close>

definition apart :: "u32 \<times> bytes \<Rightarrow> u32 \<times> bytes \<Rightarrow> bool" where
  "apart v w \<longleftrightarrow> length (snd v) \<le> unat (fst w - fst v) \<and> length (snd w) \<le> unat (fst v - fst w)"

lemma apart_disjoint:
  assumes "apart (a, bs) (b, cs)" "unat (x - a) < length bs"
  shows "\<not> unat (x - b) < length cs"
proof
  assume b: "unat (x - b) < length cs"
  have n: "length bs \<le> unat (b - a)" "length cs \<le> unat (a - b)" using assms(1) by (simp_all add: apart_def)
  have "x - b = (x - a) - (b - a)" "a - b = 0 - (b - a)" by simp_all
  then show False using n b assms(2) unat_sub_if' [of "x - a" "b - a"] unat_sub_if' [of 0 "b - a"]
    by (simp split: if_splits)
qed

lemma mem_read_writes:
  assumes "(p, bs) \<in> set ws" "\<forall>w \<in> set ws. w = (p, bs) \<or> apart (p, bs) w" "length bs < 2 ^ 32"
  shows "mem_read (writes ws m) p (length bs) = bs"
  using assms(1,2)
proof (induction ws rule: rev_induct)
  case (snoc w ws)
  have own: "mem_read (mem_write k p bs) p (length bs) = bs" for k
    using assms(3) by (intro nth_equalityI) (auto simp: mem_read_def mem_write_def unat_of_nat take_bit_nat_eq_self)
  show ?case
  proof (cases "w = (p, bs)")
    case True
    then show ?thesis using own by simp
  next
    case False
    obtain b cs where w: "w = (b, cs)" by force
    have ap: "apart (p, bs) (b, cs)" using snoc.prems False w by auto
    have "mem_write k b cs (p + of_nat i) = k (p + of_nat i)" if "i < length bs" for k i
    proof -
      have "unat (p + of_nat i - p) < length bs" using that assms(3) by (simp add: unat_of_nat take_bit_nat_eq_self)
      then show ?thesis using apart_disjoint [OF ap] by (simp add: mem_write_def)
    qed
    then have "mem_read (mem_write k b cs) p (length bs) = mem_read k p (length bs)" for k by (simp add: mem_read_def)
    moreover have "(p, bs) \<in> set ws" using snoc.prems(1) False by auto
    ultimately show ?thesis using snoc w by simp
  qed
qed simp

lemma be32_be_bytes: "be32 (be_bytes 4 x) 0 = (x :: u32)"
proof (rule bit_eqI)
  fix n
  show "bit (be32 (be_bytes 4 x) 0) n \<longleftrightarrow> bit x n"
    by (cases "24 \<le> n"; cases "16 \<le> n"; cases "8 \<le> n") (auto simp: be32_def be_bytes_def bit_simps upt_rec dest: bit_imp_le_length)
qed

end
