(* ===== verification/IplPatch.thy ===== *)
theory IplPatch
  imports MemWrites Settings
begin

text \<open>
  Patching the IPL in memory (cubeboot/source/main.c from the section loop on, elf.c, \<open>ensdwith\<close> of
  helpers.c). The patches are an ELF image the build generates: sections of code for one version of
  the IPL each, a table of pointers into the IPL that is filled by symbol name, and variables the
  settings are copied into. The image is a parameter; it is taken not to lie in the memory that is
  written. A name that does not fit its buffer, a section that reaches outside the image and the
  halt for a pointer without a symbol are errors.
\<close>

section \<open>The ELF image\<close>

record elf_shdr =
  sh_name :: u32
  sh_type :: u32
  sh_flags :: u32
  sh_addr :: u32
  sh_offset :: u32
  sh_size :: u32

record elf_sym =
  st_name :: u32
  st_value :: u32

definition SHT_SYMTAB :: u32 where "SHT_SYMTAB = 2"
definition SHT_STRTAB :: u32 where "SHT_STRTAB = 3"
definition SHT_NOBITS :: u32 where "SHT_NOBITS = 8"
definition SHF_ALLOC :: u32 where "SHF_ALLOC = 2"

definition shdr_at :: "bytes \<Rightarrow> nat \<Rightarrow> elf_shdr" where
  "shdr_at img a =
     \<lparr>sh_name = be32 img a, sh_type = be32 img (a + 4), sh_flags = be32 img (a + 8), sh_addr = be32 img (a + 12),
      sh_offset = be32 img (a + 16), sh_size = be32 img (a + 20)\<rparr>"

definition sym_at :: "bytes \<Rightarrow> nat \<Rightarrow> elf_sym" where
  "sym_at img a = \<lparr>st_name = be32 img a, st_value = be32 img (a + 4)\<rparr>"

definition elf_string :: "bytes \<Rightarrow> nat \<Rightarrow> bytes" where
  "elf_string img a = takeWhile (\<lambda>c. c \<noteq> 0) (drop a img)"

text \<open>The tables found before the patches are applied: the sections with the place of their names,
  and the symbols with the place of theirs.\<close>

record elf =
  e_image :: bytes
  e_sections :: "elf_shdr list"
  stringdata :: nat
  e_syms :: "elf_sym list"
  symstringdata :: nat

definition last_section :: "(elf_shdr \<Rightarrow> bool) \<Rightarrow> elf_shdr list \<Rightarrow> elf_shdr option" where
  "last_section P ss = foldl (\<lambda>found s. if P s then Some s else found) None ss"

text \<open>None is an image without one of the tables, for which the code follows a null pointer.\<close>

definition open_elf :: "bytes \<Rightarrow> elf option" where
  "open_elf img = do {
     let e_shoff = unat (be32 img 32);
     let sections = map (\<lambda>i. shdr_at img (e_shoff + 40 * i)) [0..<unat (be16 img 48)];
     let shstr = shdr_at img (e_shoff + 40 * unat (be16 img 50));
     let names = unat (sh_offset shstr);
     symshdr \<leftarrow> last_section (\<lambda>s. sh_type s = SHT_SYMTAB) sections;
     strtab \<leftarrow> last_section (\<lambda>s. sh_type s = SHT_STRTAB \<and> elf_string img (names + unat (sh_name s)) = str_bytes ''.strtab'') sections;
     Some \<lparr>e_image = img, e_sections = sections, stringdata = names,
       e_syms = map (\<lambda>i. sym_at img (unat (sh_offset symshdr) + 16 * i)) [0..<unat (sh_size symshdr) div 16],
       symstringdata = unat (sh_offset strtab)\<rparr>
   }"

section \<open>Symbols\<close>

definition section_name_of :: "elf \<Rightarrow> elf_shdr \<Rightarrow> bytes" where
  "section_name_of e s = elf_string (e_image e) (stringdata e + unat (sh_name s))"

definition sym_name :: "elf \<Rightarrow> elf_sym \<Rightarrow> bytes" where
  "sym_name e s = elf_string (e_image e) (symstringdata e + unat (st_name s))"

definition get_symbol_value :: "elf \<Rightarrow> bytes \<Rightarrow> u32" where
  "get_symbol_value e name =
     foldl (\<lambda>value s. if st_name s = 0 then value else if sym_name e s = name then st_value s else value) 0 (e_syms e)"

definition set_patch_value :: "elf \<Rightarrow> bytes \<Rightarrow> u32 \<Rightarrow> memory \<Rightarrow> memory" where
  "set_patch_value e name value m =
     (let ptr = foldl (\<lambda>ptr s. if st_name s = 0 then ptr else if sym_name e s = name then st_value s else ptr) 0 (e_syms e)
      in if ptr \<noteq> 0 then patch_word m ptr value else m)"

definition ensdwith :: "bytes \<Rightarrow> bytes \<Rightarrow> bool" where
  "ensdwith str suffix \<longleftrightarrow> length suffix \<le> length str \<and> drop (length str - length suffix) str = suffix"

section \<open>Sections\<close>

datatype patch_error = No_Tables | Name_Too_Long | Outside_Image | Failed_Relocation

definition STRING_BUFFER :: nat where "STRING_BUFFER = 255"
definition patch_prefix :: bytes where "patch_prefix = str_bytes ''.patch.''"
definition reloc_name :: bytes where "reloc_name = str_bytes ''.reloc''"

definition patch_region_suffix :: "bios_item \<Rightarrow> bytes" where
  "patch_region_suffix b = patch_suffix b @ str_bytes ''_func''"

definition is_patch :: "bytes \<Rightarrow> bool" where
  "is_patch name \<longleftrightarrow> take (length patch_prefix) name = patch_prefix"

text \<open>The address of a section that is copied, and nothing for the sections that are left out.\<close>

definition section_target :: "elf \<Rightarrow> bytes \<Rightarrow> elf_shdr \<Rightarrow> u32 option" where
  "section_target e suffix s =
     (let name = section_name_of e s
      in if sh_flags s AND SHF_ALLOC = 0 \<and> \<not> is_patch name \<or> sh_addr s = 0 \<or> sh_size s = 0 then None
         else if sh_type s = SHT_NOBITS \<and> \<not> is_patch name then None
         else if is_patch name \<and> \<not> ensdwith name suffix then None
         else Some ((sh_addr s AND 0x3FFFFFFF) OR 0x80000000))"

text \<open>The symbol with the size of a patch: its name without prefix and the five characters of \<open>_func\<close>.\<close>

definition size_symbol :: "bytes \<Rightarrow> bytes" where
  "size_symbol name = drop (length patch_prefix) (take (length name - 5) name @ str_bytes ''_size'')"

definition section_bytes :: "elf \<Rightarrow> elf_shdr \<Rightarrow> patch_error + bytes" where
  "section_bytes e s =
     (let name = section_name_of e s
      in if is_patch name \<and> length name \<ge> STRING_BUFFER then Inl Name_Too_Long
         else let sh = (if is_patch name then get_symbol_value e (size_symbol name) else 0);
                  n = (if sh = 0 then sh_size s else sh)
              in if unat (sh_offset s) + unat n > length (e_image e) then Inl Outside_Image
                 else Inr (sub_list (e_image e) (unat (sh_offset s)) (unat n)))"

text \<open>The range of the pointer table is that of the last section of its name.\<close>

fun load_sections :: "elf \<Rightarrow> bytes \<Rightarrow> elf_shdr list \<Rightarrow> memory \<times> u32 \<times> u32 \<Rightarrow> patch_error + memory \<times> u32 \<times> u32" where
  "load_sections e suffix [] st = Inr st"
| "load_sections e suffix (s # ss) (m, reloc_start, reloc_end) =
     (case section_target e suffix s of
        None \<Rightarrow> load_sections e suffix ss (m, reloc_start, reloc_end)
      | Some addr \<Rightarrow>
          (case section_bytes e s of
             Inl err \<Rightarrow> Inl err
           | Inr img \<Rightarrow>
               load_sections e suffix ss
                 (mem_write m addr img,
                  if \<not> is_patch (section_name_of e s) \<and> section_name_of e s = reloc_name then (addr, addr + sh_size s)
                  else (reloc_start, reloc_end))))"

section \<open>Pointers into the IPL\<close>

definition region_symbol :: "bios_item \<Rightarrow> bytes \<Rightarrow> bytes" where
  "region_symbol b name = reloc_prefix b @ str_bytes ''_'' @ name"

definition is_reloc :: "u32 \<Rightarrow> u32 \<Rightarrow> elf_sym \<Rightarrow> bool" where
  "is_reloc reloc_start reloc_end s \<longleftrightarrow> st_name s \<noteq> 0 \<and> st_value s \<ge> reloc_start \<and> st_value s < reloc_end"

text \<open>The memory and whether a pointer had no symbol.\<close>

fun relocate :: "elf \<Rightarrow> bios_item \<Rightarrow> u32 \<Rightarrow> u32 \<Rightarrow> elf_sym list \<Rightarrow> memory \<times> bool \<Rightarrow> patch_error + memory \<times> bool" where
  "relocate e b reloc_start reloc_end [] st = Inr st"
| "relocate e b reloc_start reloc_end (s # ss) (m, failed_patching) =
     (if \<not> is_reloc reloc_start reloc_end s then relocate e b reloc_start reloc_end ss (m, failed_patching)
      else let name = region_symbol b (sym_name e s)
           in if length name \<ge> STRING_BUFFER then Inl Name_Too_Long
              else let val = get_symbol_value e name
                   in relocate e b reloc_start reloc_end ss
                        (if val \<noteq> 0 then (patch_word m (st_value s) val, failed_patching) else (m, True)))"

section \<open>Settings\<close>

definition STUB_ADDR :: u32 where "STUB_ADDR = 0x80001800"

text \<open>The arguments of the program, and the word the launcher leaves in the place of the stub.\<close>

definition force_passthrough :: "bytes list \<Rightarrow> memory \<Rightarrow> u32" where
  "force_passthrough argv m =
     (if length argv > 1 \<and> argv ! 1 = str_bytes ''passthrough'' \<or> mem32 m STUB_ADDR = 0x50415353 then 1 else 0)"

definition skip_boot_animation :: "bool \<Rightarrow> u32 \<Rightarrow> u32" where
  "skip_boot_animation sram_valid sram_boot_mode = (if sram_valid \<and> sram_boot_mode = 0 then 1 else 0)"

text \<open>Progressive mode is not for the first version of the IPL.\<close>

definition adjust_settings :: "bios_item \<Rightarrow> settings_t \<Rightarrow> settings_t" where
  "adjust_settings b st = (if b_version b = IPL_NTSC_10 then st\<lparr>progressive_enabled := 0\<rparr> else st)"

record boot_vars =
  bv_passthrough :: u32
  bv_skip_animation :: u32
  bv_dolphin :: u32
  bv_sd_device :: u32

definition early_values :: "boot_vars \<Rightarrow> settings_t \<Rightarrow> (bytes \<times> u32) list" where
  "early_values v st = map (\<lambda>(n, x). (str_bytes n, x))
     [(''start_passthrough_game'', bv_passthrough v), (''cube_color'', cube_color st), (''force_progressive'', progressive_enabled st),
      (''force_swiss_boot'', force_swiss_default st), (''skip_boot_animation'', bv_skip_animation v),
      (''disable_mcp_select'', disable_mcp_select st), (''show_watermark'', show_watermark st),
      (''preboot_delay_ms'', preboot_delay_ms st), (''postboot_delay_ms'', postboot_delay_ms st)]"

definition late_values :: "boot_vars \<Rightarrow> (bytes \<times> u32) list" where
  "late_values v = map (\<lambda>(n, x). (str_bytes n, x)) [(''is_running_dolphin'', bv_dolphin v), (''emu_sd_device'', bv_sd_device v)]"

definition set_patch_values :: "elf \<Rightarrow> (bytes \<times> u32) list \<Rightarrow> memory \<Rightarrow> memory" where
  "set_patch_values e vs m = foldl (\<lambda>m (n, x). set_patch_value e n x m) m vs"

text \<open>\<open>strncpy\<close> of 255 characters, padded with zeros, and the zero behind them.\<close>

definition set_cube_logo :: "elf \<Rightarrow> bytes option \<Rightarrow> memory \<Rightarrow> memory" where
  "set_cube_logo e logo m =
     (let cube_logo_ptr = get_symbol_value e (str_bytes ''cube_logo_path'')
      in case logo of
           None \<Rightarrow> m
         | Some path \<Rightarrow>
             if cube_logo_ptr = 0 then m
             else mem_write m cube_logo_ptr (take 255 (path @ replicate 255 0) @ [0]))"

section \<open>All patches\<close>

definition apply_patches :: "elf \<Rightarrow> bios_item \<Rightarrow> settings_t \<Rightarrow> boot_vars \<Rightarrow> memory \<Rightarrow> patch_error + memory" where
  "apply_patches e b st v m =
     (case load_sections e (patch_region_suffix b) (e_sections e) (m, 0, 0) of
        Inl err \<Rightarrow> Inl err
      | Inr (m, reloc_start, reloc_end) \<Rightarrow>
          (case relocate e b reloc_start reloc_end (e_syms e) (m, False) of
             Inl err \<Rightarrow> Inl err
           | Inr (m, failed_patching) \<Rightarrow>
               if failed_patching then Inl Failed_Relocation
               else let st = adjust_settings b st;
                        m = set_patch_values e (early_values v st) m;
                        m = set_cube_logo e (cube_logo st) m
                    in Inr (set_patch_values e (late_values v) m)))"

definition patch_ipl :: "bytes \<Rightarrow> bios_item \<Rightarrow> settings_t \<Rightarrow> boot_vars \<Rightarrow> memory \<Rightarrow> patch_error + memory" where
  "patch_ipl patches_elf b st v m =
     (case open_elf patches_elf of None \<Rightarrow> Inl No_Tables | Some e \<Rightarrow> apply_patches e b st v m)"


section \<open>Patching as a list of writes\<close>

text \<open>What each part of the patching writes.\<close>

definition section_write :: "elf \<Rightarrow> bytes \<Rightarrow> elf_shdr \<Rightarrow> (u32 \<times> bytes) option" where
  "section_write e suffix s =
     (case (section_target e suffix s, section_bytes e s) of (Some a, Inr bs) \<Rightarrow> Some (a, bs) | _ \<Rightarrow> None)"

definition reloc_range :: "elf \<Rightarrow> bytes \<Rightarrow> elf_shdr list \<Rightarrow> u32 \<times> u32 \<Rightarrow> u32 \<times> u32" where
  "reloc_range e suffix ss r =
     foldl (\<lambda>r s. case section_target e suffix s of
          None \<Rightarrow> r
        | Some a \<Rightarrow> if \<not> is_patch (section_name_of e s) \<and> section_name_of e s = reloc_name then (a, a + sh_size s) else r) r ss"

definition region_value :: "elf \<Rightarrow> bios_item \<Rightarrow> elf_sym \<Rightarrow> u32" where
  "region_value e b s = get_symbol_value e (region_symbol b (sym_name e s))"

definition reloc_writes :: "elf \<Rightarrow> bios_item \<Rightarrow> u32 \<times> u32 \<Rightarrow> elf_sym list \<Rightarrow> (u32 \<times> bytes) list" where
  "reloc_writes e b r ss = map (\<lambda>s. (st_value s, be_bytes 4 (region_value e b s))) (filter (is_reloc (fst r) (snd r)) ss)"

definition value_writes :: "elf \<Rightarrow> (bytes \<times> u32) list \<Rightarrow> (u32 \<times> bytes) list" where
  "value_writes e vs = map (\<lambda>(n, x). (get_symbol_value e n, be_bytes 4 x)) (filter (\<lambda>(n, x). get_symbol_value e n \<noteq> 0) vs)"

definition logo_writes :: "elf \<Rightarrow> bytes option \<Rightarrow> (u32 \<times> bytes) list" where
  "logo_writes e logo =
     (let p = get_symbol_value e (str_bytes ''cube_logo_path'')
      in case logo of None \<Rightarrow> [] | Some path \<Rightarrow> if p = 0 then [] else [(p, take 255 (path @ replicate 255 0) @ [0])])"

lemma load_sections_writes:
  "load_sections e suffix ss (m, r) = Inr (m', r') \<Longrightarrow>
    m' = writes (List.map_filter (section_write e suffix) ss) m \<and> r' = reloc_range e suffix ss r"
proof (induction ss arbitrary: m r)
  case Nil
  then show ?case by (auto simp: reloc_range_def List.map_filter_simps)
next
  case (Cons s ss)
  obtain lo hi where r: "r = (lo, hi)" by force
  show ?case
  proof (cases "section_target e suffix s")
    case None
    then have "section_write e suffix s = None" "reloc_range e suffix (s # ss) r = reloc_range e suffix ss r"
      by (simp_all add: section_write_def reloc_range_def)
    then show ?thesis using Cons None by (simp add: r List.map_filter_simps)
  next
    case (Some a)
    then obtain bs where bs: "section_bytes e s = Inr bs" using Cons.prems by (auto simp: r split: sum.splits)
    define r1 where "r1 = (if \<not> is_patch (section_name_of e s) \<and> section_name_of e s = reloc_name then (a, a + sh_size s) else r)"
    have "load_sections e suffix ss (mem_write m a bs, r1) = Inr (m', r')"
      using Cons.prems Some bs unfolding r1_def r by (simp split del: if_split)
    moreover have "section_write e suffix s = Some (a, bs)" using Some bs by (simp add: section_write_def)
    moreover have "reloc_range e suffix (s # ss) r = reloc_range e suffix ss r1" using Some by (simp add: reloc_range_def r1_def)
    ultimately show ?thesis using Cons.IH [of "mem_write m a bs" r1] by (simp add: List.map_filter_simps)
  qed
qed

lemma relocate_writes:
  "relocate e b lo hi ss (m, f) = Inr (m', False) \<Longrightarrow>
    m' = writes (reloc_writes e b (lo, hi) ss) m \<and> \<not> f \<and> (\<forall>s \<in> set ss. is_reloc lo hi s \<longrightarrow> region_value e b s \<noteq> 0)"
proof (induction ss arbitrary: m f)
  case (Cons s ss)
  show ?case
  proof (cases "is_reloc lo hi s")
    case False
    then show ?thesis using Cons.prems Cons.IH [of m f] by (simp add: reloc_writes_def)
  next
    case True
    let ?v = "region_value e b s"
    have "relocate e b lo hi ss (if ?v \<noteq> 0 then (patch_word m (st_value s) ?v, f) else (m, True)) = Inr (m', False)"
      using Cons.prems True by (simp add: region_value_def Let_def split: if_splits)
    then have "?v \<noteq> 0" "relocate e b lo hi ss (patch_word m (st_value s) ?v, f) = Inr (m', False)"
      using Cons.IH [of m True] by (auto split: if_splits)
    then show ?thesis using Cons.IH [of "patch_word m (st_value s) ?v" f] True by (simp add: reloc_writes_def patch_word_def)
  qed
qed (simp add: reloc_writes_def)

lemma set_patch_value_writes: "set_patch_value e n x m = writes (value_writes e [(n, x)]) m"
  by (simp add: set_patch_value_def value_writes_def get_symbol_value_def patch_word_def Let_def)

lemma set_patch_values_writes: "set_patch_values e vs m = writes (value_writes e vs) m"
proof (induction vs arbitrary: m)
  case (Cons v vs)
  obtain n x where v: "v = (n, x)" by force
  have "value_writes e (v # vs) = value_writes e [v] @ value_writes e vs" by (simp add: value_writes_def)
  then show ?case using Cons by (simp add: set_patch_values_def set_patch_value_writes v)
qed (simp add: set_patch_values_def value_writes_def)

lemma set_cube_logo_writes: "set_cube_logo e logo m = writes (logo_writes e logo) m"
  by (simp add: set_cube_logo_def logo_writes_def Let_def split: option.split)

text \<open>The pointers, the variables and the path, which are written after the sections.\<close>

definition slot_writes :: "elf \<Rightarrow> bios_item \<Rightarrow> settings_t \<Rightarrow> boot_vars \<Rightarrow> (u32 \<times> bytes) list" where
  "slot_writes e b st v =
     reloc_writes e b (reloc_range e (patch_region_suffix b) (e_sections e) (0, 0)) (e_syms e)
     @ value_writes e (early_values v (adjust_settings b st)) @ logo_writes e (cube_logo (adjust_settings b st))
     @ value_writes e (late_values v)"

lemma apply_patches_writes:
  assumes "apply_patches e b st v m = Inr m'"
  defines "r \<equiv> reloc_range e (patch_region_suffix b) (e_sections e) (0, 0)"
  shows "m' = writes (slot_writes e b st v) (writes (List.map_filter (section_write e (patch_region_suffix b)) (e_sections e)) m)
    \<and> (\<forall>s \<in> set (e_syms e). is_reloc (fst r) (snd r) s \<longrightarrow> region_value e b s \<noteq> 0)"
proof -
  obtain m1 lo hi where 1: "load_sections e (patch_region_suffix b) (e_sections e) (m, 0, 0) = Inr (m1, lo, hi)"
    using assms(1) by (auto simp: apply_patches_def split: sum.splits)
  obtain m2 where 2: "relocate e b lo hi (e_syms e) (m1, False) = Inr (m2, False)"
    using assms(1) 1 by (auto simp: apply_patches_def split: sum.splits if_splits)
  have r: "r = (lo, hi)" and m1: "m1 = writes (List.map_filter (section_write e (patch_region_suffix b)) (e_sections e)) m"
    using load_sections_writes [OF 1] by (simp_all add: r_def)
  then show ?thesis
    using assms(1) 1 2 relocate_writes [OF 2] unfolding r_def [symmetric] slot_writes_def r
    by (simp add: apply_patches_def set_patch_values_writes set_cube_logo_writes Let_def)
qed


section \<open>What the patching changes\<close>

definition pointer_table :: "elf \<Rightarrow> bios_item \<Rightarrow> elf_sym list" where
  "pointer_table e b =
     (let r = reloc_range e (patch_region_suffix b) (e_sections e) (0, 0) in filter (is_reloc (fst r) (snd r)) (e_syms e))"

definition variables :: "boot_vars \<Rightarrow> bios_item \<Rightarrow> settings_t \<Rightarrow> (bytes \<times> u32) list" where
  "variables v b st = early_values v (adjust_settings b st) @ late_values v"

lemma slot_writes_cases:
  assumes "(a, bs) \<in> set (slot_writes e b st v)"
  shows "(\<exists>s \<in> set (pointer_table e b). a = st_value s \<and> length bs = 4)
    \<or> (\<exists>(n, x) \<in> set (variables v b st). get_symbol_value e n \<noteq> 0 \<and> a = get_symbol_value e n \<and> length bs = 4)
    \<or> get_symbol_value e (str_bytes ''cube_logo_path'') \<noteq> 0 \<and> a = get_symbol_value e (str_bytes ''cube_logo_path'') \<and> length bs = 256"
proof -
  have v: "(a, bs) \<in> set (value_writes e vs) \<Longrightarrow> \<exists>(n, x) \<in> set vs. get_symbol_value e n \<noteq> 0 \<and> a = get_symbol_value e n \<and> length bs = 4" for vs
    by (force simp: value_writes_def)
  consider "(a, bs) \<in> set (reloc_writes e b (reloc_range e (patch_region_suffix b) (e_sections e) (0, 0)) (e_syms e))"
    | "(a, bs) \<in> set (value_writes e (early_values v (adjust_settings b st)))"
    | "(a, bs) \<in> set (logo_writes e (cube_logo (adjust_settings b st)))" | "(a, bs) \<in> set (value_writes e (late_values v))"
    using assms by (auto simp: slot_writes_def)
  then show ?thesis
  proof cases
    case 1
    then show ?thesis by (auto simp: reloc_writes_def pointer_table_def Let_def)
  next
    case 2
    from v [OF this] show ?thesis by (auto simp: variables_def)
  next
    case 3
    then show ?thesis by (auto simp: logo_writes_def Let_def split: option.splits if_splits)
  next
    case 4
    from v [OF this] show ?thesis by (auto simp: variables_def)
  qed
qed

lemma patch_ipl_open:
  assumes "patch_ipl img b st v m = Inr m'" "open_elf img = Some e"
  shows "apply_patches e b st v m = Inr m'"
  using assms by (simp add: patch_ipl_def)

text \<open>
  C26. Patching leaves every other byte of memory alone. A byte that differs afterwards lies in a section
  that was copied, and if that section is a patch its name ends with the suffix of the IPL that was
  found; or in a pointer of the table; or in the variable of a setting; or in the 256 bytes of the
  path of the logo.
\<close>

theorem patches_stay_in_place:
  assumes "patch_ipl img b st v m = Inr m'" "open_elf img = Some e" "m' x \<noteq> m x"
  shows "(\<exists>s \<in> set (e_sections e). \<exists>a bs. section_target e (patch_region_suffix b) s = Some a \<and> section_bytes e s = Inr bs
        \<and> unat (x - a) < length bs \<and> (is_patch (section_name_of e s) \<longrightarrow> ensdwith (section_name_of e s) (patch_region_suffix b)))
    \<or> (\<exists>s \<in> set (pointer_table e b). unat (x - st_value s) < 4)
    \<or> (\<exists>(n, val) \<in> set (variables v b st). get_symbol_value e n \<noteq> 0 \<and> unat (x - get_symbol_value e n) < 4)
    \<or> get_symbol_value e (str_bytes ''cube_logo_path'') \<noteq> 0 \<and> unat (x - get_symbol_value e (str_bytes ''cube_logo_path'')) < 256"
proof -
  let ?ws = "List.map_filter (section_write e (patch_region_suffix b)) (e_sections e)"
  have "m' = writes (?ws @ slot_writes e b st v) m"
    using apply_patches_writes [OF patch_ipl_open [OF assms(1,2)]] by simp
  then obtain a bs where w: "(a, bs) \<in> set (?ws @ slot_writes e b st v)" "unat (x - a) < length bs"
    using writes_change [of "?ws @ slot_writes e b st v" m x] assms(3) by auto
  show ?thesis
  proof (cases "(a, bs) \<in> set ?ws")
    case True
    then obtain s where s: "s \<in> set (e_sections e)" "section_write e (patch_region_suffix b) s = Some (a, bs)"
      by (auto simp: List.map_filter_def)
    then have t: "section_target e (patch_region_suffix b) s = Some a" "section_bytes e s = Inr bs"
      by (auto simp: section_write_def split: option.splits sum.splits)
    then have "is_patch (section_name_of e s) \<longrightarrow> ensdwith (section_name_of e s) (patch_region_suffix b)"
      by (auto simp: section_target_def Let_def split: if_splits)
    then show ?thesis using s(1) t w(2) by blast
  next
    case False
    then have "(a, bs) \<in> set (slot_writes e b st v)" using w(1) by simp
    from slot_writes_cases [OF this] show ?thesis using w(2) by auto
  qed
qed



section \<open>A small image\<close>

text \<open>A table of one pointer, a patch for the first version and one for another, and one variable.\<close>

definition demo_section :: "u32 list \<Rightarrow> bytes" where
  "demo_section fs = concat (map (be_bytes 4) fs) @ replicate 16 0"

definition demo_symbol :: "u32 \<Rightarrow> u32 \<Rightarrow> bytes" where
  "demo_symbol name val = be_bytes 4 name @ be_bytes 4 val @ replicate 8 0"

definition demo_head :: bytes where
  "demo_head = replicate 32 0 @ be_bytes 4 (52 :: u32) @ replicate 12 0 @ [0, 6, 0, 3]
    @ demo_section [1, 1, 2, 0x81700000, 0, 4] @ demo_section [0, 2, 0, 0, 292, 48] @ demo_section [8, 3, 0, 0, 340, 37]
    @ demo_section [0, 3, 0, 0, 377, 100] @ demo_section [16, 1, 2, 0x01300100, 32, 8] @ demo_section [42, 1, 2, 0x01300200, 32, 8]
    @ demo_symbol 1 0x81700000 @ demo_symbol 10 0x81301234 @ demo_symbol 26 0x81700010"

definition demo_names :: bytes where
  "demo_names = 0 # str_bytes ''OSReport'' @ 0 # str_bytes ''ntsc10_OSReport'' @ 0 # str_bytes ''cube_color'' @ [0]
    @ 0 # str_bytes ''.reloc'' @ 0 # str_bytes ''.strtab'' @ 0 # str_bytes ''.patch.a_VER_NTSC_10_func''
    @ 0 # str_bytes ''.patch.b_VER_PAL_10_func'' @ [0]"

definition demo_elf :: bytes where
  "demo_elf = demo_head @ demo_names"

definition demo_settings :: settings_t where
  "demo_settings = \<lparr>cube_color = 0x00FF8000, cube_logo = None, force_swiss_default = 0, show_watermark = 1, disable_mcp_select = 0,
     progressive_enabled = 1, preboot_delay_ms = 0, postboot_delay_ms = 0, default_program = None, boot_buttons = []\<rparr>"

definition demo_vars :: boot_vars where
  "demo_vars = \<lparr>bv_passthrough = 0, bv_skip_animation = 1, bv_dolphin = 0, bv_sd_device = 0\<rparr>"

definition demo_bios :: bios_item where "demo_bios = bios_table ! 0"

text \<open>What is found in it.\<close>

definition demo_tables :: elf where
  "demo_tables =
     \<lparr>e_image = demo_elf,
      e_sections =
        [\<lparr>sh_name = 1, sh_type = 1, sh_flags = 2, sh_addr = 0x81700000, sh_offset = 0, sh_size = 4\<rparr>,
         \<lparr>sh_name = 0, sh_type = 2, sh_flags = 0, sh_addr = 0, sh_offset = 292, sh_size = 48\<rparr>,
         \<lparr>sh_name = 8, sh_type = 3, sh_flags = 0, sh_addr = 0, sh_offset = 340, sh_size = 37\<rparr>,
         \<lparr>sh_name = 0, sh_type = 3, sh_flags = 0, sh_addr = 0, sh_offset = 377, sh_size = 100\<rparr>,
         \<lparr>sh_name = 16, sh_type = 1, sh_flags = 2, sh_addr = 0x01300100, sh_offset = 32, sh_size = 8\<rparr>,
         \<lparr>sh_name = 42, sh_type = 1, sh_flags = 2, sh_addr = 0x01300200, sh_offset = 32, sh_size = 8\<rparr>],
      stringdata = 377,
      e_syms = [\<lparr>st_name = 1, st_value = 0x81700000\<rparr>, \<lparr>st_name = 10, st_value = 0x81301234\<rparr>, \<lparr>st_name = 26, st_value = 0x81700010\<rparr>],
      symstringdata = 340\<rparr>"

lemma demo_open: "open_elf demo_elf = Some demo_tables"
  by code_simp

lemma demo_head_length: "length demo_head = 340"
  by (simp add: demo_head_def demo_section_def demo_symbol_def)

lemma demo_string: "elf_string demo_elf (340 + k) = elf_string demo_names k"
  by (simp add: elf_string_def demo_elf_def demo_head_length)

lemma demo_tables_names:
  "sym_name demo_tables s = elf_string demo_names (unat (st_name s))"
  "section_name_of demo_tables x = elf_string demo_names (37 + unat (sh_name x))"
  using demo_string [of "unat (st_name s)"] demo_string [of "37 + unat (sh_name x)"]
  by (simp_all add: sym_name_def section_name_of_def demo_tables_def add.assoc)

lemma demo_sym_names:
  "map (sym_name demo_tables) (e_syms demo_tables) = map str_bytes [''OSReport'', ''ntsc10_OSReport'', ''cube_color'']"
  unfolding demo_tables_names by code_simp

lemma demo_section_names:
  "map (section_name_of demo_tables) (e_sections demo_tables) =
     map str_bytes [''.reloc'', [], ''.strtab'', [], ''.patch.a_VER_NTSC_10_func'', ''.patch.b_VER_PAL_10_func'']"
  unfolding demo_tables_names by code_simp

lemma demo_targets:
  "map (section_target demo_tables (patch_region_suffix demo_bios)) (e_sections demo_tables) =
     [Some 0x81700000, None, None, None, Some 0x81300100, None]"
  unfolding section_target_def demo_tables_names by code_simp

lemma demo_length: "length demo_elf = 444"
  by (simp add: demo_elf_def demo_head_length demo_names_def str_bytes_def)

lemma demo_symbol_value:
  "get_symbol_value demo_tables n =
     (if n = str_bytes ''cube_color'' then 0x81700010 else if n = str_bytes ''ntsc10_OSReport'' then 0x81301234
      else if n = str_bytes ''OSReport'' then 0x81700000 else 0)"
proof -
  obtain s0 s1 s2 where s: "e_syms demo_tables = [s0, s1, s2]" by (simp add: demo_tables_def)
  have "map st_name (e_syms demo_tables) = [1, 10, 26]" "map st_value (e_syms demo_tables) = [0x81700000, 0x81301234, 0x81700010]"
    by (simp_all add: demo_tables_def)
  then show ?thesis using demo_sym_names by (auto simp: s get_symbol_value_def)
qed

lemma demo_size_symbol: "get_symbol_value demo_tables (size_symbol (str_bytes ''.patch.a_VER_NTSC_10_func'')) = 0"
proof -
  have "size_symbol (str_bytes ''.patch.a_VER_NTSC_10_func'') = str_bytes ''a_VER_NTSC_10_size''" by code_simp
  moreover have "str_bytes ''a_VER_NTSC_10_size'' \<notin> set (map str_bytes [''cube_color'', ''ntsc10_OSReport'', ''OSReport''])" by code_simp
  ultimately show ?thesis by (simp add: demo_symbol_value)
qed

lemma demo_region_symbol: "region_symbol demo_bios (str_bytes ''OSReport'') = str_bytes ''ntsc10_OSReport''"
  by code_simp

text \<open>None of the other variables is a symbol of the image.\<close>

lemma demo_value_writes:
  "value_writes demo_tables (early_values demo_vars (adjust_settings demo_bios demo_settings)) = [(0x81700010, be_bytes 4 (0x00FF8000 :: u32))]"
  "value_writes demo_tables (late_values demo_vars) = []" "logo_writes demo_tables (cube_logo (adjust_settings demo_bios demo_settings)) = []"
  unfolding value_writes_def demo_symbol_value by code_simp+


lemma demo_slots:
  "slot_writes demo_tables demo_bios demo_settings demo_vars =
     [(0x81700000, be_bytes 4 (0x81301234 :: u32)), (0x81700010, be_bytes 4 (0x00FF8000 :: u32))]"
  "map st_value (pointer_table demo_tables demo_bios) = [0x81700000]"
proof -
  obtain x0 x1 x2 x3 x4 x5 where x: "e_sections demo_tables = [x0, x1, x2, x3, x4, x5]" by (simp add: demo_tables_def)
  have "map sh_size (e_sections demo_tables) = [4, 48, 37, 100, 8, 8]" by (simp add: demo_tables_def)
  moreover have "is_patch (str_bytes ''.patch.a_VER_NTSC_10_func'')" "\<not> is_patch (str_bytes ''.reloc'')" "str_bytes ''.reloc'' = reloc_name"
    by code_simp+
  ultimately have r: "reloc_range demo_tables (patch_region_suffix demo_bios) (e_sections demo_tables) (0, 0) = (0x81700000, 0x81700004)"
    using demo_targets demo_section_names by (simp add: x reloc_range_def)
  obtain s0 s1 s2 where s: "e_syms demo_tables = [s0, s1, s2]" by (simp add: demo_tables_def)
  have v: "map st_name (e_syms demo_tables) = [1, 10, 26]" "map st_value (e_syms demo_tables) = [0x81700000, 0x81301234, 0x81700010]"
    by (simp_all add: demo_tables_def)
  then have f: "filter (is_reloc 0x81700000 0x81700004) (e_syms demo_tables) = [s0]" by (simp add: s is_reloc_def)
  have "str_bytes ''ntsc10_OSReport'' \<noteq> str_bytes ''cube_color''" by code_simp
  then have "region_value demo_tables demo_bios s0 = 0x81301234"
    using demo_sym_names by (simp add: s region_value_def demo_region_symbol demo_symbol_value)
  then show "slot_writes demo_tables demo_bios demo_settings demo_vars =
     [(0x81700000, be_bytes 4 (0x81301234 :: u32)), (0x81700010, be_bytes 4 (0x00FF8000 :: u32))]"
    using v f by (simp add: slot_writes_def r demo_value_writes reloc_writes_def s)
  show "map st_value (pointer_table demo_tables demo_bios) = [0x81700000]"
    using v by (simp add: pointer_table_def r s is_reloc_def)
qed

lemma demo_run: "\<exists>m'. patch_ipl demo_elf demo_bios demo_settings demo_vars (\<lambda>_. 0) = Inr m'"
proof -
  obtain x0 x1 x2 x3 x4 x5 where x: "e_sections demo_tables = [x0, x1, x2, x3, x4, x5]" by (simp add: demo_tables_def)
  have z: "map sh_size (e_sections demo_tables) = [4, 48, 37, 100, 8, 8]" "map sh_offset (e_sections demo_tables) = [0, 292, 340, 377, 32, 32]"
    by (simp_all add: demo_tables_def)
  have pt: "is_patch (str_bytes ''.patch.a_VER_NTSC_10_func'')" "\<not> is_patch (str_bytes ''.reloc'')" "str_bytes ''.reloc'' = reloc_name"
    "length (str_bytes ''.patch.a_VER_NTSC_10_func'') = 25"
    by code_simp+
  have img: "e_image demo_tables = demo_elf" by (simp add: demo_tables_def)
  obtain b0 b4 where b: "section_bytes demo_tables x0 = Inr b0" "section_bytes demo_tables x4 = Inr b4"
    using z pt demo_section_names by (simp add: x section_bytes_def img demo_length demo_size_symbol STRING_BUFFER_def)
  obtain m1 where 1: "load_sections demo_tables (patch_region_suffix demo_bios) (e_sections demo_tables) (\<lambda>_. 0, 0, 0) = Inr (m1, 0x81700000, 0x81700004)"
    using demo_targets b pt z demo_section_names by (simp add: x)
  obtain s0 s1 s2 where s: "e_syms demo_tables = [s0, s1, s2]" by (simp add: demo_tables_def)
  have v: "map st_name (e_syms demo_tables) = [1, 10, 26]" "map st_value (e_syms demo_tables) = [0x81700000, 0x81301234, 0x81700010]"
    by (simp_all add: demo_tables_def)
  have "str_bytes ''ntsc10_OSReport'' \<noteq> str_bytes ''cube_color''" "length (str_bytes ''ntsc10_OSReport'') = 15" by code_simp+
  then obtain m2 where "relocate demo_tables demo_bios 0x81700000 0x81700004 (e_syms demo_tables) (m1, False) = Inr (m2, False)"
    using v demo_sym_names by (simp add: s is_reloc_def demo_region_symbol demo_symbol_value STRING_BUFFER_def Let_def)
  then show ?thesis using 1 demo_open by (simp add: patch_ipl_def apply_patches_def Let_def)
qed


lemma patches_stay_in_place_witness:
  "\<exists>m'. patch_ipl demo_elf demo_bios demo_settings demo_vars (\<lambda>_. 0) = Inr m' \<and> m' 0x81700011 = 0xFF
    \<and> ((\<exists>s \<in> set (e_sections demo_tables). \<exists>a bs. section_target demo_tables (patch_region_suffix demo_bios) s = Some a
          \<and> section_bytes demo_tables s = Inr bs \<and> unat (0x81700011 - a) < length bs
          \<and> (is_patch (section_name_of demo_tables s) \<longrightarrow> ensdwith (section_name_of demo_tables s) (patch_region_suffix demo_bios)))
      \<or> (\<exists>s \<in> set (pointer_table demo_tables demo_bios). unat (0x81700011 - st_value s) < 4)
      \<or> (\<exists>(n, val) \<in> set (variables demo_vars demo_bios demo_settings). get_symbol_value demo_tables n \<noteq> 0
            \<and> unat (0x81700011 - get_symbol_value demo_tables n) < 4)
      \<or> get_symbol_value demo_tables (str_bytes ''cube_logo_path'') \<noteq> 0
            \<and> unat (0x81700011 - get_symbol_value demo_tables (str_bytes ''cube_logo_path'')) < 256)"
proof -
  obtain m' where m: "patch_ipl demo_elf demo_bios demo_settings demo_vars (\<lambda>_. 0) = Inr m'" using demo_run by blast
  obtain m0 where "m' = writes (slot_writes demo_tables demo_bios demo_settings demo_vars) m0"
    using apply_patches_writes [OF patch_ipl_open [OF m demo_open]] by blast
  then have x: "m' 0x81700011 = 0xFF" by (simp add: demo_slots(1) mem_write_def be_bytes_def upt_rec)
  then have "m' 0x81700011 \<noteq> (\<lambda>_. 0) 0x81700011" by simp
  from patches_stay_in_place [OF m demo_open this] show ?thesis using m x by blast
qed

end
