(* ===== verification/GameBoot.thy ===== *)
theory GameBoot
  imports MemWrites DolBoot GameList
begin

text \<open>
  Starting what was chosen (patches/source/boot.c, iso9660.c, the end of \<open>bs2start\<close> in main.c, and
  emu/loader.c). The file calls are a record of functions with a state of their own; main memory is a
  function. What is jumped to in the end is the result. The code's own variables, and the buffers of
  \<open>iso9660.c\<close> and \<open>load_dol\<close>, are taken not to lie in the memory that is written. Flushing caches,
  the video interface and console output are left out.
\<close>

section \<open>The file calls\<close>

text \<open>\<open>bd_read\<close> is \<open>dvd_read\<close> to an address from a descriptor; \<open>bd_buffer\<close> what the static buffer of
  \<open>dvd_read_data\<close> holds.\<close>

record 'e boot_drive =
  bd_open :: "'e \<Rightarrow> bytes \<Rightarrow> u8 \<Rightarrow> u8 \<Rightarrow> (int \<times> 'e) option"
  bd_open_flash :: "'e \<Rightarrow> bytes \<Rightarrow> u8 \<Rightarrow> u8 \<Rightarrow> (int \<times> 'e) option"
  bd_status :: "'e \<Rightarrow> (file_status option \<times> 'e) option"
  bd_close :: "'e \<Rightarrow> u32 \<Rightarrow> 'e option"
  bd_read :: "u32 \<Rightarrow> u32 \<Rightarrow> 'e reader"
  bd_buffer :: "'e \<Rightarrow> bytes"
  bd_set_default_fd :: "'e \<Rightarrow> u32 \<Rightarrow> u32 \<Rightarrow> 'e option"
  bd_cache_disable :: "'e \<Rightarrow> 'e"
  bd_is_native :: "'e \<Rightarrow> bool"
  bd_device :: "'e \<Rightarrow> bytes option"

definition emu_boot_drive :: "'h hwops \<Rightarrow> 'f fatfs \<Rightarrow> (('h, 'f) emu \<Rightarrow> bytes) \<Rightarrow> (('h, 'f) emu \<Rightarrow> ('h, 'f) emu) \<Rightarrow> ('h, 'f) emu boot_drive" where
  "emu_boot_drive H F buffer cache_disable =
     \<lparr>bd_open = dvd_custom_open H F, bd_open_flash = dvd_custom_open_flash H F, bd_status = emu_status_ptr H F,
      bd_close = dvd_custom_close H F, bd_read = (\<lambda>dst fd e len offset. dvd_read H F e dst len offset fd), bd_buffer = buffer,
      bd_set_default_fd = dvd_set_default_fd H, bd_cache_disable = cache_disable, bd_is_native = emu_is_native,
      bd_device = emu_get_device\<rparr>"

text \<open>The static buffers: the header of the program, the disc header, the sector of the ISO file system
  and its first 32 bytes.\<close>

record 'e boot_state =
  bs_env :: 'e
  bs_mem :: memory
  bs_dol_hdr :: bytes
  bs_header :: bytes
  bs_sector :: bytes
  bs_iso :: bytes

record boot_addrs =
  dol_hdr_addr :: u32
  disc_header_addr :: u32
  iso_sector_addr :: u32
  iso_buf_addr :: u32

datatype 's boot = Jump u32 's | Back 's | Stuck 's | Fault 's

definition store32 :: "u32 \<Rightarrow> u32 \<Rightarrow> 'e boot_state \<Rightarrow> 'e boot_state" where
  "store32 a w s = s\<lparr>bs_mem := patch_word (bs_mem s) a w\<rparr>"

definition fill :: "u32 \<Rightarrow> u32 \<Rightarrow> 'e boot_state \<Rightarrow> 'e boot_state" where
  "fill a n s = s\<lparr>bs_mem := mem_write (bs_mem s) a (replicate (unat n) 0)\<rparr>"

text \<open>\<open>dvd_read\<close> and \<open>dvd_read_data\<close> into main memory.\<close>

definition read_mem :: "'e boot_drive \<Rightarrow> u32 \<Rightarrow> u32 \<Rightarrow> u64 \<Rightarrow> u32 \<Rightarrow> 'e boot_state \<Rightarrow> (int \<times> 'e boot_state) option" where
  "read_mem D dst len offset fd s =
     map_option (\<lambda>(r, data, e). (r, s\<lparr>bs_env := e, bs_mem := mem_write (bs_mem s) dst data\<rparr>)) (bd_read D dst fd (bs_env s) len offset)"

definition read_data_mem :: "'e boot_drive \<Rightarrow> u32 \<Rightarrow> u32 \<Rightarrow> u64 \<Rightarrow> u32 \<Rightarrow> 'e boot_state \<Rightarrow> (int \<times> 'e boot_state) option" where
  "read_data_mem D dst len offset fd s =
     map_option (\<lambda>(r, data, e). (r, s\<lparr>bs_env := e, bs_mem := mem_write (bs_mem s) dst data\<rparr>))
       (dvd_read_data (bd_read D dst fd) (bs_env s) (bd_buffer D (bs_env s)) dst (mem_read (bs_mem s) dst (unat len)) len offset)"

section \<open>Programs\<close>

record dol_info =
  max_addr :: u32
  entrypoint :: u32

definition cache_off :: "'e boot_drive \<Rightarrow> 'e boot_state \<Rightarrow> 'e boot_state" where
  "cache_off D s = s\<lparr>bs_env := bd_cache_disable D (bs_env s)\<rparr>"

definition opened_fd :: "file_status option \<Rightarrow> u8 option" where
  "opened_fd status = (case status of None \<Rightarrow> None | Some st \<Rightarrow> if st_result st \<noteq> 0 then None else Some (st_fd st))"

definition load_stub :: "'e boot_drive \<Rightarrow> 'e boot_state \<Rightarrow> 'e boot_state option" where
  "load_stub D s = do {
     let s = cache_off D s;
     (r, e) \<leftarrow> bd_open_flash D (bs_env s) (str_bytes ''/stub.bin'') FILE_ENTRY_TYPE_FILE 0;
     (status, e) \<leftarrow> bd_status D e;
     let s = s\<lparr>bs_env := e\<rparr>;
     case status of
       None \<Rightarrow> Some s
     | Some st \<Rightarrow>
         if st_result st \<noteq> 0 then Some s
         else do {
           let file_size = (ucast (bswap64 (st_fsize st)) + 31) AND 0xFFFFFFE0;
           (r, s) \<leftarrow> read_mem D 0x80001800 file_size 0 (ucast (st_fd st)) s;
           map_option (\<lambda>e. s\<lparr>bs_env := e\<rparr>) (bd_close D (bs_env s) (ucast (st_fd st)))
         }
   }"

text \<open>One of the two loops over the sections; the results of the reads are not looked at.\<close>

fun load_dol_sections :: "'e boot_drive \<Rightarrow> u64 \<Rightarrow> u32 \<Rightarrow> dol_section list \<Rightarrow> 'e boot_state \<Rightarrow> 'e boot_state option" where
  "load_dol_sections D offset fd [] s = Some s"
| "load_dol_sections D offset fd (x # xs) s =
     (if ds_used x
      then Option.bind (read_data_mem D (ds_address x) (ds_length x) (offset + ucast (ds_offset x)) fd s)
             (\<lambda>(r, s). load_dol_sections D offset fd xs s)
      else load_dol_sections D offset fd xs s)"

definition load_dol :: "boot_addrs \<Rightarrow> 'e boot_drive \<Rightarrow> u64 \<Rightarrow> u8 \<Rightarrow> 'e boot_state \<Rightarrow> (dol_info \<times> 'e boot_state) option" where
  "load_dol A D offset fd s = do {
     let s = cache_off D s;
     (r, data, e) \<leftarrow> bd_read D (dol_hdr_addr A) (ucast fd) (bs_env s) 256 offset;
     let s = s\<lparr>bs_env := e, bs_dol_hdr := blit (bs_dol_hdr s) 0 data\<rparr>;
     let hdr = dol_header (\<lambda>a. be32 (bs_dol_hdr s) (unat a)) 0;
     let s = (if bss_address hdr \<noteq> 0 \<and> bss_length hdr \<noteq> 0 then fill (bss_address hdr) (bss_length hdr) s else s);
     s \<leftarrow> load_dol_sections D offset (ucast fd) (text_sections hdr) s;
     s \<leftarrow> load_dol_sections D offset (ucast fd) (data_sections hdr) s;
     Some (\<lparr>max_addr = DOLMax hdr, entrypoint = entry_point hdr\<rparr>, s)
   }"

definition load_dol_file :: "boot_addrs \<Rightarrow> 'e boot_drive \<Rightarrow> bytes \<Rightarrow> bool \<Rightarrow> 'e boot_state \<Rightarrow> (dol_info \<times> 'e boot_state) option" where
  "load_dol_file A D path flash s = do {
     let flags = IPC_FILE_FLAG_DISABLECACHE OR IPC_FILE_FLAG_DISABLEFASTSEEK OR IPC_FILE_FLAG_DISABLESPEEDEMU;
     (r, e) \<leftarrow> (if flash then bd_open_flash D else bd_open D) (bs_env s) path FILE_ENTRY_TYPE_FILE flags;
     (status, e) \<leftarrow> bd_status D e;
     let s = s\<lparr>bs_env := e\<rparr>;
     case opened_fd status of
       None \<Rightarrow> Some (\<lparr>max_addr = 0, entrypoint = 0\<rparr>, s)
     | Some fd \<Rightarrow> do {
         (info, s) \<leftarrow> load_dol A D 0 fd s;
         map_option (\<lambda>e. (info, s\<lparr>bs_env := e\<rparr>)) (bd_close D (bs_env s) (ucast fd))
       }
   }"


section \<open>Swiss\<close>

text \<open>The name behind the last slash or backslash.\<close>

definition file_part :: "bytes \<Rightarrow> bytes" where
  "file_part path = rev (takeWhile (\<lambda>c. c \<noteq> 0x2F \<and> c \<noteq> 0x5C) (rev path))"

definition is_swiss :: "bytes option \<Rightarrow> bool" where
  "is_swiss game_path =
     (case game_path of
        None \<Rightarrow> False
      | Some path \<Rightarrow>
          if length path < 10 then False
          else let filename = file_part path
               in if length filename < 10 then False
                  else if strcasecmp (drop (length filename - 4) filename) (str_bytes ''.dol'') \<noteq> 0 then False
                  else if strcasecmp (take 5 filename) (str_bytes ''swiss'') \<noteq> 0 then False
                  else True)"

text \<open>The strings with their terminators at \<open>buffer\<close>, and the first three fields of the structure.\<close>

definition setup_argv :: "bytes list \<Rightarrow> u32 \<Rightarrow> u32 \<Rightarrow> u32 \<Rightarrow> 'e boot_state \<Rightarrow> u32 \<times> 'e boot_state" where
  "setup_argv string_list buffer argv_struct magic s =
     (let text = concat (map (\<lambda>str. str @ [0]) string_list);
          s = s\<lparr>bs_mem := mem_write (bs_mem s) buffer text\<rparr>;
          s = store32 argv_struct magic s;
          s = store32 (argv_struct + 4) buffer s
      in (of_nat (length text), store32 (argv_struct + 8) (of_nat (length text)) s))"

text \<open>None stands for a string that does not exist or does not fit its 256 bytes.\<close>

definition autoload_arg :: "'e boot_drive \<Rightarrow> bytes option \<Rightarrow> bool \<Rightarrow> 'e \<Rightarrow> bytes option" where
  "autoload_arg D game_path passthru e =
     (if passthru then Some (str_bytes ''Autoload=dvd:/*.gcm'')
      else do {
        dev \<leftarrow> bd_device D e;
        path \<leftarrow> game_path;
        let arg = str_bytes ''Autoload='' @ dev @ [0x3A] @ path;
        if length arg \<ge> 256 then None else Some arg
      })"

text \<open>\<open>ENVP_MAGIC\<close> is a constant of libogc.\<close>

definition chainload_swiss_game :: "boot_addrs \<Rightarrow> 'e boot_drive \<Rightarrow> u32 \<Rightarrow> bytes option \<Rightarrow> bool \<Rightarrow> 'e boot_state \<Rightarrow> ('e boot_state) boot option" where
  "chainload_swiss_game A D ENVP_MAGIC game_path passthru s =
     (if is_swiss game_path
      then map_option (\<lambda>(info, s). Jump (entrypoint info) s) (load_dol_file A D (the game_path) False s)
      else do {
        (info, s) \<leftarrow> load_dol_file A D (str_bytes ''/swiss-gc.dol'') True s;
        case autoload_arg D game_path passthru (bs_env s) of
          None \<Rightarrow> Some (Fault s)
        | Some arg \<Rightarrow> do {
            (r, e) \<leftarrow> bd_open_flash D (bs_env s) (str_bytes ''/swiss/patches/apploader.img'') FILE_ENTRY_TYPE_FILE 0;
            (status, e) \<leftarrow> bd_status D e;
            let s = s\<lparr>bs_env := e\<rparr>;
            let igr_type = (if opened_fd status \<noteq> None then [str_bytes ''IGRType=Apploader''] else []);
            let arg_list = [str_bytes ''swiss-gc.dol'', arg, str_bytes ''AutoBoot=Yes'', str_bytes ''BS2Boot=No'',
                            str_bytes ''Prefer Clean Boot=No''] @ igr_type;
            let argz = max_addr info + 32;
            let (argz_len, s) = setup_argv arg_list argz (entrypoint info + 8) ARGV_MAGIC s;
            let (envz_len, s) = setup_argv [str_bytes ''CUBEBOOT=1''] (argz + argz_len + 32) (entrypoint info + 40) ENVP_MAGIC s;
            Some (Jump (entrypoint info) s)
          }
      })"

section \<open>The program of an ISO file system\<close>

definition ISO_SECTOR_SIZE :: u32 where "ISO_SECTOR_SIZE = 2048"

definition le32 :: "bytes \<Rightarrow> nat \<Rightarrow> u32" where
  "le32 b i = be32 (rev (sub_list b i 4)) 0"

definition read_sector :: "boot_addrs \<Rightarrow> 'e boot_drive \<Rightarrow> u32 \<Rightarrow> u32 \<Rightarrow> 'e boot_state \<Rightarrow> (int \<times> 'e boot_state) option" where
  "read_sector A D offset fd s =
     map_option (\<lambda>(r, data, e). (r, s\<lparr>bs_env := e, bs_sector := data\<rparr>))
       (dvd_read_data (bd_read D (iso_sector_addr A) fd) (bs_env s) (bd_buffer D (bs_env s)) (iso_sector_addr A) (bs_sector s)
          ISO_SECTOR_SIZE (ucast offset))"

definition iso_id :: "bytes \<Rightarrow> bool" where
  "iso_id b \<longleftrightarrow> sub_list b 1 5 = str_bytes ''CD001''"

text \<open>The volume descriptors from sector \<open>i\<close> on, \<open>n\<close> of them; None in the pair is a failed read.\<close>

fun find_boot_record :: "boot_addrs \<Rightarrow> 'e boot_drive \<Rightarrow> u32 \<Rightarrow> u32 \<Rightarrow> nat \<Rightarrow> 'e boot_state \<Rightarrow> (bool option \<times> 'e boot_state) option" where
  "find_boot_record A D fd i 0 s = Some (Some False, s)"
| "find_boot_record A D fd i (Suc n) s =
     Option.bind (read_sector A D (i * ISO_SECTOR_SIZE) fd s) (\<lambda>(ret, s).
       if ret \<noteq> 0 then Some (None, s)
       else if bs_sector s ! 0 = 0 \<and> iso_id (bs_sector s) then Some (Some True, s)
       else if bs_sector s ! 0 = 255 then Some (Some False, s)
       else find_boot_record A D fd (i + 1) n s)"

definition get_dol_iso9660 :: "boot_addrs \<Rightarrow> 'e boot_drive \<Rightarrow> u32 \<Rightarrow> 'e boot_state \<Rightarrow> (u32 \<times> 'e boot_state) option" where
  "get_dol_iso9660 A D fd s = do {
     (ret, data, e) \<leftarrow> bd_read D (iso_buf_addr A) fd (bs_env s) 32 0x8000;
     let s = s\<lparr>bs_env := e, bs_iso := blit (bs_iso s) 0 data\<rparr>;
     if ret \<noteq> 0 \<or> \<not> iso_id (bs_iso s) then Some (0, s)
     else do {
       (found, s) \<leftarrow> find_boot_record A D fd 16 240 s;
       if found \<noteq> Some True then Some (0, s)
       else if sub_list (bs_sector s) 7 24 \<noteq> str_bytes ''EL TORITO SPECIFICATION'' @ [0] then Some (0, s)
       else do {
         let catalog_lba = le32 (bs_sector s) 71;
         (ret, s) \<leftarrow> read_sector A D (catalog_lba * ISO_SECTOR_SIZE) fd s;
         if ret \<noteq> 0 then Some (0, s) else Some (le32 (bs_sector s) 40 * ISO_SECTOR_SIZE, s)
       }
     }
   }"

section \<open>Games\<close>

definition SYS_VIDEO_NTSC :: u32 where "SYS_VIDEO_NTSC = 0"
definition TB_BUS_CLOCK :: u32 where "TB_BUS_CLOCK = 162000000"
definition TB_CORE_CLOCK :: u32 where "TB_CORE_CLOCK = 486000000"
definition COUNTRY_EUR :: u32 where "COUNTRY_EUR = 2"

definition boot_top_addr :: u32 where "boot_top_addr = 0x81800000 - 0x200"

definition store_words :: "(u32 \<times> u32) list \<Rightarrow> 'e boot_state \<Rightarrow> 'e boot_state" where
  "store_words ws s = foldl (\<lambda>s (a, w). store32 a w s) s ws"

definition init_lowmem :: "'e boot_state \<Rightarrow> 'e boot_state" where
  "init_lowmem s = store_words
     [(0x80000028, 0x01800000), (0x8000002C, 1), (0x800000CC, SYS_VIDEO_NTSC), (0x800000D0, 0x01000000),
      (0x800000E8, 0x81800000 - boot_top_addr), (0x800000EC, boot_top_addr), (0x800000F0, 0x01800000),
      (0x800000F8, TB_BUS_CLOCK), (0x800000FC, TB_CORE_CLOCK)] (fill 0x80000000 0x100 s)"

record game_offsets =
  go_dol :: u32
  go_fst :: u32
  go_fst_size :: u32
  go_max_fst_size :: u32

text \<open>The image opened as the disc in the drive, with the second disc if there is one; None is an early
  return. The path of the second entry is all of it that is used.\<close>

definition open_image :: "'e boot_drive \<Rightarrow> gm_file_entry \<Rightarrow> bytes option \<Rightarrow> 'e boot_state \<Rightarrow> (game_offsets option \<times> 'e boot_state) option" where
  "open_image D entry second_path s = do {
     (r, e) \<leftarrow> bd_open D (bs_env s) (e_path entry) FILE_ENTRY_TYPE_FILE 0;
     (status, e) \<leftarrow> bd_status D e;
     let s = s\<lparr>bs_env := e\<rparr>;
     case opened_fd status of
       None \<Rightarrow> Some (None, s)
     | Some first_fd \<Rightarrow> do {
         (second_fd, s) \<leftarrow> (case second_path of
             None \<Rightarrow> Some (Some 0, s)
           | Some path \<Rightarrow> do {
               (r, e) \<leftarrow> bd_open D (bs_env s) path FILE_ENTRY_TYPE_FILE 0;
               (status, e) \<leftarrow> bd_status D e;
               Some (opened_fd status, s\<lparr>bs_env := e\<rparr>)
             });
         case second_fd of
           None \<Rightarrow> Some (None, s)
         | Some fd2 \<Rightarrow> do {
             e \<leftarrow> bd_set_default_fd D (bs_env s) (ucast first_fd) (ucast fd2);
             (r, s) \<leftarrow> read_mem D 0x80000000 0x20 0 0 (s\<lparr>bs_env := e\<rparr>);
             Some (Some \<lparr>go_dol = dvd_dol_offset (extra entry), go_fst = dvd_fst_offset (extra entry),
                go_fst_size = dvd_fst_size (extra entry), go_max_fst_size = dvd_max_fst_size (extra entry)\<rparr>, s)
           }
       }
   }"

definition read_disc :: "boot_addrs \<Rightarrow> 'e boot_drive \<Rightarrow> 'e boot_state \<Rightarrow> (game_offsets \<times> 'e boot_state) option" where
  "read_disc A D s = do {
     (r, data, e) \<leftarrow> bd_read D (disc_header_addr A) 0 (bs_env s) DISK_HEADER_SIZE 0;
     let h = blit (bs_header s) 0 data;
     let s = s\<lparr>bs_env := e, bs_header := h, bs_mem := mem_write (bs_mem s) 0x80000000 (take 0x20 h)\<rparr>;
     Some (\<lparr>go_dol = hdr_DOLOffset h, go_fst = hdr_FSTOffset h, go_fst_size = hdr_FSTSize h, go_max_fst_size = hdr_MaxFSTSize h\<rparr>, s)
   }"

text \<open>Where the file table goes, and the disc's second header below it.\<close>

definition fst_place :: "u32 \<Rightarrow> u32" where
  "fst_place max_fst_size = (boot_top_addr - max_fst_size) AND NOT 31"

definition bi2_place :: "u32 \<Rightarrow> u32" where
  "bi2_place fstAddr = (fstAddr - 0x2000) AND NOT 31"

text \<open>Both are read; the flag is false on an early return.\<close>

definition load_tables :: "'e boot_drive \<Rightarrow> game_offsets \<Rightarrow> 'e boot_state \<Rightarrow> (bool \<times> 'e boot_state) option" where
  "load_tables D g s = do {
     let fstAddr = fst_place (go_max_fst_size g);
     (ret, s) \<leftarrow> read_mem D fstAddr ((go_fst_size g + 31) AND NOT 31) (ucast (go_fst g)) 0 s;
     if ret \<noteq> 0 then Some (False, s)
     else do {
       let bi2Addr = bi2_place fstAddr;
       (ret, s) \<leftarrow> read_mem D bi2Addr 0x2000 0x440 0 s;
       if ret \<noteq> 0 then Some (False, s)
       else Some (True, store_words [(bi2Addr + 4, 0x1800000), (0x80000034, fstAddr), (0x80000038, fstAddr),
              (0x8000003C, go_max_fst_size g), (0x800000F4, bi2Addr)] s)
     }
   }"

text \<open>\<open>is_mpal\<close> says whether the console's video mode is the Brazilian one.\<close>

definition set_video_mode :: "bool \<Rightarrow> u32 \<Rightarrow> 'e boot_state \<Rightarrow> 'e boot_state" where
  "set_video_mode is_mpal bi2Addr s =
     store32 0x800000CC (if mem32 (bs_mem s) (bi2Addr + 24) = COUNTRY_EUR then (if is_mpal then 5 else 1) else 0) s"

definition iso_lowmem :: "'e boot_state \<Rightarrow> 'e boot_state" where
  "iso_lowmem s = store_words
     [(0x8000001C, 0), (0x80000020, 0x0D15EA5E), (0x80000028, 0x01800000), (0x80000024, 1), (0x8000002C, 3),
      (0x800000D0, 0x01000000), (0x800000EC, 0x81800000), (0x800000F0, 0x01800000), (0x800000F4, 0)] s"

definition GXPeekARGBPatch_bin :: bytes where
  "GXPeekARGBPatch_bin = [0x3c, 0xc0, 0xc8, 0x00, 0x50, 0x66, 0x15, 0x3a, 0x50, 0x86, 0x62, 0xa6, 0x7c, 0x00, 0x04, 0xac,
     0x80, 0x06, 0x00, 0x00, 0x90, 0x05, 0x00, 0x00, 0x4e, 0x80, 0x00, 0x20]"

definition GXPokeARGBPatch_bin :: bytes where
  "GXPokeARGBPatch_bin = [0x3c, 0xc0, 0xc8, 0x00, 0x50, 0x66, 0x15, 0x3a, 0x50, 0x86, 0x62, 0xa6, 0x7c, 0x00, 0x04, 0xac,
     0x90, 0xa6, 0x00, 0x00, 0x4e, 0x80, 0x00, 0x20]"

definition tonyhawk_offsets :: "u8 \<Rightarrow> (u32 \<times> u32) option" where
  "tonyhawk_offsets region =
     (if region = 0x50 then Some (0x8018fce0, 0x8018fd04)
      else if region = 0x46 \<or> region = 0x44 then Some (0x8019024c, 0x80190270)
      else if region = 0x45 then Some (0x8019013c, 0x80190160) else None)"

text \<open>One game is patched; the error flag is the endless loop of an unknown region.\<close>

definition patch_tonyhawk :: "'e boot_state \<Rightarrow> bool \<times> 'e boot_state" where
  "patch_tonyhawk s =
     (let game_code = mem_read (bs_mem s) 0x80000000 4
      in if take 3 game_code \<noteq> str_bytes ''GT4'' then (True, s)
         else case tonyhawk_offsets (game_code ! 3) of
                None \<Rightarrow> (False, s)
              | Some (peek, poke) \<Rightarrow>
                  (True, s\<lparr>bs_mem := mem_write (mem_write (bs_mem s) peek GXPeekARGBPatch_bin) poke GXPokeARGBPatch_bin\<rparr>))"

definition chainload_boot_game :: "boot_addrs \<Rightarrow> 'e boot_drive \<Rightarrow> u32 \<Rightarrow> bool \<Rightarrow> bool \<Rightarrow> (gm_file_entry \<times> bytes option) option \<Rightarrow> bool \<Rightarrow>
    'e boot_state \<Rightarrow> ('e boot_state) boot option" where
  "chainload_boot_game A D ENVP_MAGIC force_swiss is_mpal entry passthru s =
     (if force_swiss \<or> \<not> passthru \<and> \<not> bd_is_native D (bs_env s)
      then chainload_swiss_game A D ENVP_MAGIC (map_option (\<lambda>(e, _). e_path e) entry) passthru s
      else do {
        let s = init_lowmem s;
        (g, s) \<leftarrow> (if passthru then map_option (\<lambda>(g, s). (Some g, s)) (read_disc A D s)
                   else (case entry of None \<Rightarrow> None | Some (e, second_path) \<Rightarrow> open_image D e second_path s));
        case g of
          None \<Rightarrow> Some (Back s)
        | Some g \<Rightarrow> do {
            (ok, s) \<leftarrow> load_tables D g s;
            if \<not> ok then Some (Back s)
            else do {
              let s = set_video_mode is_mpal (bi2_place (fst_place (go_max_fst_size g))) s;
              (dol_offset, s) \<leftarrow> (if go_dol g \<noteq> 0 then Some (go_dol g, s)
                 else map_option (\<lambda>(off, s). (off, if off \<noteq> 0 then iso_lowmem s else s)) (get_dol_iso9660 A D 0 s));
              (info, s) \<leftarrow> load_dol A D (ucast dol_offset) 0 s;
              let (known, s) = patch_tonyhawk s;
              Some (if known then Jump (entrypoint info) s else Stuck s)
            }
          }
      })"

text \<open>The end of \<open>bs2start\<close>: the memory of the menu is cleared, and what was chosen is started. A call
  that comes back is undefined behaviour there, except after a disc.\<close>

definition then_start :: "'s boot \<Rightarrow> ('s \<Rightarrow> 's boot option) \<Rightarrow> 's boot option" where
  "then_start r f = (case r of Back s \<Rightarrow> f s | _ \<Rightarrow> Some r)"

definition bs2start :: "boot_addrs \<Rightarrow> 'e boot_drive \<Rightarrow> u32 \<Rightarrow> bool \<Rightarrow> bool \<Rightarrow> bool \<Rightarrow> gm_file_entry \<times> bytes option \<Rightarrow> 'e boot_state \<Rightarrow>
    ('e boot_state) boot option" where
  "bs2start A D ENVP_MAGIC force_swiss is_mpal start_passthrough entry s =
     (let s = fill 0x80100000 (0x81600000 - 0x80100000) (cache_off D s)
      in Option.bind (if start_passthrough then chainload_boot_game A D ENVP_MAGIC force_swiss is_mpal None True s else Some (Back s))
        (\<lambda>r. then_start r (\<lambda>s.
           if e_type (fst entry) = GM_FILE_TYPE_PROGRAM
           then Option.bind (load_stub D s) (chainload_swiss_game A D ENVP_MAGIC (Some (e_path (fst entry))) False)
           else if \<not> force_swiss then chainload_boot_game A D ENVP_MAGIC force_swiss is_mpal (Some entry) False s
           else chainload_swiss_game A D ENVP_MAGIC (Some (e_path (fst entry))) False s)))"


section \<open>Loading a program\<close>

text \<open>A reader whose reads all succeed.\<close>

locale sure_reader = file_reader +
  assumes rd_succeeds: "inv e \<Longrightarrow> rd e n off = Some (r, data, e') \<Longrightarrow> r = 0"
begin

lemma read_unaligned_succeeds:
  "inv e \<Longrightarrow> read_unaligned rd' e abuf dst tot cur r = Some (k, dst', e') \<Longrightarrow> rd' = rd \<Longrightarrow> k = 0"
proof (induction rd' e abuf dst tot cur r rule: read_unaligned.induct)
  case (1 rd' e abuf dst tot cur r)
  show ?case
  proof (cases "r = 0")
    case True
    then show ?thesis using 1(3) by (simp add: read_unaligned.simps)
  next
    case False
    let ?al = "cur AND NOT 3"
    let ?adj = "ucast (cur - ?al) :: u32"
    obtain x data e1 where rr: "rd e (read_chunk r ?adj) ?al = Some (x, data, e1)" "inv e1"
      using rd_total [OF 1(2)] by blast
    have x: "x = 0" using rd_succeeds [OF 1(2) rr(1)] .
    have "read_unaligned rd e1 (blit abuf 0 data) (blit dst tot (sub_list (blit abuf 0 data) (unat ?adj) (unat (copy_chunk r))))
        (tot + unat (copy_chunk r)) (cur + ucast (copy_chunk r)) (r - copy_chunk r) = Some (k, dst', e')"
      using 1(3,4) False rr x by (simp add: read_unaligned.simps [of _ e] Let_def split: if_splits)
    moreover have "\<not> unat ?adj + unat (copy_chunk r) > unat FD_IPC_MAXRESP"
      using 1(3,4) False rr x by (auto simp: read_unaligned.simps [of _ e] Let_def split: if_splits)
    ultimately show ?thesis using 1(1) [OF False refl refl, of "(x, data, e1)"] rr x 1(4) by simp
  qed
qed

lemma dvd_read_data_sure:
  assumes "inv e" "length abuf = 16384" "length dst = unat len" "unat off mod 4 = 0" "unat off + unat len < 2 ^ 64"
    "unat off + unat len \<le> fsz"
  shows "\<exists>e'. dvd_read_data rd e abuf ptr dst len off = Some (0, file_bytes content (unat off) (unat len), e') \<and> inv e'"
proof -
  obtain k dst' e' where r: "dvd_read_data rd e abuf ptr dst len off = Some (k, dst', e')" "inv e'"
    "k = 0 \<Longrightarrow> length dst' = length dst \<and> take (unat len) dst' = file_bytes content (unat off) (unat len)"
    using dvd_read_data_ok [OF assms(1,2) _ assms(4-6), of dst ptr] assms(3) by auto
  have "k = 0"
  proof (cases "ptr AND 0x1F \<noteq> 0 \<or> len AND 0x1F \<noteq> 0 \<or> off AND 0x3 \<noteq> 0")
    case True
    then show ?thesis using r(1) read_unaligned_succeeds [OF assms(1)] by (simp add: dvd_read_data_def)
  next
    case False
    then obtain data where "rd e len off = Some (k, data, e')" using r(1) by (auto simp: dvd_read_data_def bind_eq_Some_conv)
    then show ?thesis using rd_succeeds [OF assms(1)] by blast
  qed
  then show ?thesis using r assms(3) by auto
qed

end


text \<open>What the sections of a program write, when \<open>content\<close> is its file.\<close>

definition program_writes :: "(nat \<Rightarrow> u8) \<Rightarrow> dol_section list \<Rightarrow> (u32 \<times> bytes) list" where
  "program_writes content xs =
     map (\<lambda>x. (ds_address x, file_bytes content (unat (ds_offset x)) (unat (ds_length x)))) (filter ds_used xs)"

definition in_file :: "nat \<Rightarrow> dol_section \<Rightarrow> bool" where
  "in_file fsz x \<longleftrightarrow> unat (ds_offset x) mod 4 = 0 \<and> unat (ds_offset x) + unat (ds_length x) \<le> fsz"

lemma load_dol_sections_writes:
  assumes "\<And>dst. sure_reader (bd_read D dst fd) content fsz ok" "\<And>e. length (bd_buffer D e) = 16384"
  shows "\<forall>x \<in> set xs. ds_used x \<longrightarrow> in_file fsz x \<Longrightarrow> ok (bs_env s) \<Longrightarrow>
    \<exists>e'. load_dol_sections D 0 fd xs s = Some (s\<lparr>bs_env := e', bs_mem := writes (program_writes content xs) (bs_mem s)\<rparr>) \<and> ok e'"
proof (induction xs arbitrary: s)
  case Nil
  then show ?case by (auto simp: program_writes_def intro!: exI [of _ "bs_env s"])
next
  case (Cons x xs)
  show ?case
  proof (cases "ds_used x")
    case False
    then show ?thesis using Cons by (simp add: program_writes_def)
  next
    case True
    let ?off = "0 + ucast (ds_offset x) :: u64"
    let ?bs = "file_bytes content (unat (ds_offset x)) (unat (ds_length x))"
    have off: "unat ?off = unat (ds_offset x)"
      by (simp add: unsigned_ucast_eq take_bit_nat_eq_self order_less_trans [OF unat_u32_less])
    have x: "in_file fsz x" using Cons.prems(1) True by simp
    have small: "unat ?off + unat (ds_length x) < 2 ^ 64"
      unfolding off using unat_u32_less [of "ds_offset x"] unat_u32_less [of "ds_length x"] by simp
    obtain e1 where r: "dvd_read_data (bd_read D (ds_address x) fd) (bs_env s) (bd_buffer D (bs_env s)) (ds_address x)
        (mem_read (bs_mem s) (ds_address x) (unat (ds_length x))) (ds_length x) ?off = Some (0, ?bs, e1)" "ok e1"
      using sure_reader.dvd_read_data_sure [OF assms(1) [of "ds_address x"] Cons.prems(2) assms(2),
          where dst = "mem_read (bs_mem s) (ds_address x) (unat (ds_length x))" and len = "ds_length x" and off = ?off and ptr = "ds_address x"]
        small x off by (auto simp: mem_read_def in_file_def)
    let ?s = "s\<lparr>bs_env := e1, bs_mem := mem_write (bs_mem s) (ds_address x) ?bs\<rparr>"
    have "read_data_mem D (ds_address x) (ds_length x) ?off fd s = Some (0, ?s)" using r(1) by (simp add: read_data_mem_def)
    then have "load_dol_sections D 0 fd (x # xs) s = load_dol_sections D 0 fd xs ?s" using True by simp
    moreover obtain e2 where "load_dol_sections D 0 fd xs ?s = Some (?s\<lparr>bs_env := e2, bs_mem := writes (program_writes content xs) (bs_mem ?s)\<rparr>)" "ok e2"
      using Cons.IH [of ?s] Cons.prems(1) r(2) by auto
    ultimately show ?thesis using True by (intro exI [of _ e2]) (simp add: program_writes_def)
  qed
qed

definition fat_reads_succeed :: "'f fatfs \<Rightarrow> ('f \<Rightarrow> bool) \<Rightarrow> bool" where
  "fat_reads_succeed F opened \<longleftrightarrow> (\<forall>f off. opened f \<longrightarrow> fst (f_lseek F f off)) \<and> (\<forall>f n. opened f \<longrightarrow> fst (f_read F f n))"

definition fat_open_file :: "'f fatfs \<Rightarrow> ('f \<Rightarrow> bool) \<Rightarrow> ('f \<Rightarrow> nat) \<Rightarrow> (nat \<Rightarrow> u8) \<Rightarrow> nat \<Rightarrow> ('h, 'f) emu \<Rightarrow> bool" where
  "fat_open_file F opened fptr content fsz e \<longleftrightarrow>
     fat_file_ok F opened fptr content fsz \<and> opened (e_fs e) \<and> \<not> emu_is_native e \<and> \<not> passthrough e"

interpretation fat_sure: sure_reader "\<lambda>e n off. dvd_read H F e buf n off fd" content fsz
  "\<lambda>e. fat_reads_succeed F opened \<and> fat_open_file F opened fptr content fsz e"
  for H :: "'h hwops" and F :: "'f fatfs" and buf fd content opened fptr fsz
proof unfold_locales
  fix e :: "('h, 'f) emu" and n off
  assume "fat_reads_succeed F opened \<and> fat_open_file F opened fptr content fsz e"
  then show "\<exists>r data e'. dvd_read H F e buf n off fd = Some (r, data, e') \<and>
      (fat_reads_succeed F opened \<and> fat_open_file F opened fptr content fsz e')"
    using fat.rd_total [of F opened fptr content fsz e] by (simp add: fat_open_file_def)
next
  fix e e' :: "('h, 'f) emu" and n off data
  assume "fat_reads_succeed F opened \<and> fat_open_file F opened fptr content fsz e" "dvd_read H F e buf n off fd = Some (0, data, e')"
  then show "data = file_bytes content (unat off) (min (unat n) (fsz - unat off))"
    using fat.rd_ok [of F opened fptr content fsz e] by (simp add: fat_open_file_def)
next
  fix e e' :: "('h, 'f) emu" and n off r data
  assume a: "fat_reads_succeed F opened \<and> fat_open_file F opened fptr content fsz e" and r: "dvd_read H F e buf n off fd = Some (r, data, e')"
  obtain k f where s: "f_lseek F (e_fs e) off = (k, f)" by (metis prod.exhaust)
  obtain k2 d f2 where q: "f_read F f n = (k2, d, f2)" by (metis prod_cases3)
  have "k" using a s by (metis fat_reads_succeed_def fat_open_file_def fst_conv)
  moreover have "opened f" using a s unfolding fat_open_file_def fat_file_ok_def by (metis snd_conv)
  then have "k2" using a q by (metis fat_reads_succeed_def fst_conv)
  ultimately show "r = 0" using r s q a by (simp add: dvd_read_def fat_open_file_def)
qed

text \<open>The header of the program whose file is \<open>content\<close>, and the sections that are loaded.\<close>

definition program_header :: "(nat \<Rightarrow> u8) \<Rightarrow> dolheader" where
  "program_header content = dol_header (\<lambda>a. be32 (file_bytes content 0 256) (unat a)) 0"

definition loaded_sections :: "dolheader \<Rightarrow> dol_section list" where
  "loaded_sections hdr = filter ds_used (text_sections hdr @ data_sections hdr)"

definition in_section :: "u32 \<Rightarrow> dol_section \<Rightarrow> bool" where
  "in_section a x \<longleftrightarrow> unat (a - ds_address x) < unat (ds_length x)"

definition in_bss :: "u32 \<Rightarrow> dolheader \<Rightarrow> bool" where
  "in_bss a hdr \<longleftrightarrow> bss_address hdr \<noteq> 0 \<and> unat (a - bss_address hdr) < unat (bss_length hdr)"

definition bss_range :: "dolheader \<Rightarrow> (u32 \<times> bytes) list" where
  "bss_range hdr = (if bss_address hdr \<noteq> 0 \<and> bss_length hdr \<noteq> 0
     then [(bss_address hdr, replicate (unat (bss_length hdr)) 0)] else [])"

lemma load_dol_writes:
  assumes "\<And>dst. sure_reader (bd_read D dst (ucast fd)) content fsz ok" "\<And>e. length (bd_buffer D e) = 16384"
    "ok (bd_cache_disable D (bs_env s))" "length (bs_dol_hdr s) = 256" "256 \<le> fsz" "\<forall>x \<in> set (loaded_sections (program_header content)). in_file fsz x"
  shows "\<exists>s'. load_dol A D 0 fd s = Some (\<lparr>max_addr = DOLMax (program_header content), entrypoint = entry_point (program_header content)\<rparr>, s') \<and>
    bs_mem s' = writes (program_writes content (text_sections (program_header content) @ data_sections (program_header content)))
      (writes (bss_range (program_header content)) (bs_mem s))"
proof -
  let ?h = "program_header content"
  obtain e1 where r: "bd_read D (dol_hdr_addr A) (ucast fd) (bd_cache_disable D (bs_env s)) 256 0 = Some (0, file_bytes content 0 256, e1)" "ok e1"
  proof -
    obtain k data e1 where k: "bd_read D (dol_hdr_addr A) (ucast fd) (bd_cache_disable D (bs_env s)) 256 0 = Some (k, data, e1)" "ok e1"
      using file_reader.rd_total [OF sure_reader.axioms(1) [OF assms(1)] assms(3)] by blast
    have "k = 0" by (rule sure_reader.rd_succeeds [OF assms(1) assms(3) k(1)])
    moreover from this have "data = file_bytes content 0 256"
      using file_reader.rd_ok [OF sure_reader.axioms(1) [OF assms(1)] assms(3)] k(1) assms(5) by fastforce
    ultimately show ?thesis using that k by simp
  qed
  define s1 where "s1 = s\<lparr>bs_env := e1, bs_dol_hdr := file_bytes content 0 256, bs_mem := writes (bss_range ?h) (bs_mem s)\<rparr>"
  obtain e2 where t: "load_dol_sections D 0 (ucast fd) (text_sections ?h) s1 =
      Some (s1\<lparr>bs_env := e2, bs_mem := writes (program_writes content (text_sections ?h)) (bs_mem s1)\<rparr>)" "ok e2"
    using load_dol_sections_writes [OF assms(1,2), of "text_sections ?h" s1] assms(6) r(2)
    by (auto simp: loaded_sections_def s1_def)
  let ?s2 = "s1\<lparr>bs_env := e2, bs_mem := writes (program_writes content (text_sections ?h)) (bs_mem s1)\<rparr>"
  obtain e3 where d: "load_dol_sections D 0 (ucast fd) (data_sections ?h) ?s2 =
      Some (?s2\<lparr>bs_env := e3, bs_mem := writes (program_writes content (data_sections ?h)) (bs_mem ?s2)\<rparr>)" "ok e3"
    using load_dol_sections_writes [OF assms(1,2), of "data_sections ?h" ?s2] assms(6) t(2)
    by (auto simp: loaded_sections_def)
  have "blit (bs_dol_hdr s) 0 (file_bytes content 0 256) = file_bytes content 0 256" using assms(4) by (simp add: blit_def)
  then have "load_dol A D 0 fd s = Option.bind (load_dol_sections D 0 (ucast fd) (text_sections ?h) s1)
      (\<lambda>s. Option.bind (load_dol_sections D 0 (ucast fd) (data_sections ?h) s)
        (\<lambda>s. Some (\<lparr>max_addr = DOLMax ?h, entrypoint = entry_point ?h\<rparr>, s)))"
    using r(1) by (simp add: load_dol_def cache_off_def Let_def s1_def program_header_def [symmetric] bss_range_def fill_def)
  then show ?thesis using t(1) d(1) by (simp add: program_writes_def s1_def)
qed

lemma program_writes_loaded:
  "program_writes content (text_sections hdr @ data_sections hdr) = program_writes content (loaded_sections hdr)"
  by (simp add: program_writes_def loaded_sections_def)

lemma program_writes_read:
  assumes "x \<in> set (loaded_sections hdr)"
    "\<forall>v \<in> set (program_writes content (loaded_sections hdr)). \<forall>w \<in> set (program_writes content (loaded_sections hdr)). v = w \<or> apart v w"
  shows "mem_read (writes (program_writes content (loaded_sections hdr)) m) (ds_address x) (unat (ds_length x)) =
    file_bytes content (unat (ds_offset x)) (unat (ds_length x))"
proof -
  let ?bs = "file_bytes content (unat (ds_offset x)) (unat (ds_length x))"
  have i: "(ds_address x, ?bs) \<in> set (program_writes content (loaded_sections hdr))"
    using assms(1) by (auto simp: program_writes_def loaded_sections_def)
  have "\<forall>w \<in> set (program_writes content (loaded_sections hdr)). w = (ds_address x, ?bs) \<or> apart (ds_address x, ?bs) w"
    using assms(2) i by metis
  from mem_read_writes [OF i this] show ?thesis using unat_u32_less [of "ds_length x"] by simp
qed

lemma program_writes_frame:
  assumes "\<not> (\<exists>x \<in> set (loaded_sections hdr). in_section a x)"
  shows "writes (program_writes content (loaded_sections hdr)) m a = m a"
proof (rule ccontr)
  assume "writes (program_writes content (loaded_sections hdr)) m a \<noteq> m a"
  then obtain w where "w \<in> set (program_writes content (loaded_sections hdr))" "unat (a - fst w) < length (snd w)"
    using writes_change by fastforce
  then show False using assms by (auto simp: program_writes_def in_section_def)
qed

lemma bss_range_clears: "writes (bss_range hdr) m a = (if in_bss a hdr then 0 else m a)"
  by (auto simp: bss_range_def in_bss_def mem_write_def)

text \<open>
  C28. \<open>load_dol\<close> of a program on a FatFs device whose reads succeed returns the end and the entry point of
  the header it read; every used section of the program then holds its bytes of the file, and everywhere
  else memory is zero inside the program's BSS and as it was outside. The sections lie in the file, at
  offsets that are multiples of four, and do not overlap.
\<close>

theorem load_dol_places_sections:
  assumes "fat_reads_succeed F opened" "fat_open_file F opened fptr content fsz (cache_disable (bs_env s))"
    "\<And>e. length (buffer e) = 16384" "length (bs_dol_hdr s) = 256" "256 \<le> fsz"
    "\<forall>x \<in> set (loaded_sections (program_header content)). in_file fsz x"
    "\<forall>v \<in> set (program_writes content (loaded_sections (program_header content))).
       \<forall>w \<in> set (program_writes content (loaded_sections (program_header content))). v = w \<or> apart v w"
  shows "\<exists>s'. load_dol A (emu_boot_drive H F buffer cache_disable) 0 fd s =
      Some (\<lparr>max_addr = DOLMax (program_header content), entrypoint = entry_point (program_header content)\<rparr>, s') \<and>
    (\<forall>x \<in> set (loaded_sections (program_header content)).
       mem_read (bs_mem s') (ds_address x) (unat (ds_length x)) = file_bytes content (unat (ds_offset x)) (unat (ds_length x))) \<and>
    (\<forall>a. (\<exists>x \<in> set (loaded_sections (program_header content)). in_section a x) \<or>
       bs_mem s' a = (if in_bss a (program_header content) then 0 else bs_mem s a))"
proof -
  let ?h = "program_header content" and ?D = "emu_boot_drive H F buffer cache_disable"
  let ?ws = "program_writes content (loaded_sections ?h)"
  have "sure_reader (bd_read ?D dst (ucast fd)) content fsz (\<lambda>e. fat_reads_succeed F opened \<and> fat_open_file F opened fptr content fsz e)" for dst
    unfolding emu_boot_drive_def boot_drive.simps by (rule fat_sure.sure_reader_axioms)
  then obtain s' where r: "load_dol A ?D 0 fd s = Some (\<lparr>max_addr = DOLMax ?h, entrypoint = entry_point ?h\<rparr>, s')"
    "bs_mem s' = writes ?ws (writes (bss_range ?h) (bs_mem s))"
    using load_dol_writes [of ?D fd content fsz _ s A] assms(1-6) by (fastforce simp: emu_boot_drive_def program_writes_loaded)
  then show ?thesis
    using program_writes_read [OF _ assms(7)] program_writes_frame [of ?h _ content] bss_range_clears [of ?h]
    by (intro exI [of _ s'] conjI ballI allI) (simp, simp, metis)
qed

text \<open>A program of one section and a BSS below it.\<close>

definition demo_program :: "nat \<Rightarrow> u8" where
  "demo_program i = (if i = 2 then 1 else if i = 72 \<or> i = 216 \<or> i = 224 then 0x80 else if i = 74 \<or> i = 226 then 0x31
     else if i = 218 then 0x30 else if i = 147 \<or> i = 223 then 4 else if i = 256 then 0x60 else 0)"

definition demo_program_fs :: "nat fatfs" where
  "demo_program_fs = byte_fs\<lparr>f_lseek := \<lambda>f off. (True, min (unat off) 260),
     f_read := \<lambda>f n. (True, file_bytes demo_program f (min (unat n) (260 - f)), f + min (unat n) (260 - f))\<rparr>"

lemma demo_program_header:
  "loaded_sections (program_header demo_program) = [\<lparr>ds_offset = 256, ds_address = 0x80003100, ds_length = 4\<rparr>]"
  "bss_address (program_header demo_program) = 0x80003000" "bss_length (program_header demo_program) = 4"
  "entry_point (program_header demo_program) = 0x80003100" "DOLMax (program_header demo_program) = 0x80003104"
  by code_simp+

definition demo_boot_addrs :: boot_addrs where
  "demo_boot_addrs = \<lparr>dol_hdr_addr = 0x81700000, disc_header_addr = 0x81700100, iso_sector_addr = 0x81700200, iso_buf_addr = 0x81700A00\<rparr>"

theorem load_dol_places_sections_witness:
  "\<exists>s'. load_dol demo_boot_addrs (emu_boot_drive (one_date_hw []) demo_program_fs (\<lambda>e. replicate 16384 0) id) 0 0
      \<lparr>bs_env = byte_emu, bs_mem = (\<lambda>a. 7), bs_dol_hdr = replicate 256 0, bs_header = [], bs_sector = [], bs_iso = []\<rparr> =
    Some (\<lparr>max_addr = 0x80003104, entrypoint = 0x80003100\<rparr>, s') \<and>
    mem_read (bs_mem s') 0x80003100 4 = [0x60, 0, 0, 0] \<and> bs_mem s' 0x80003003 = 0 \<and> bs_mem s' 0x80003004 = 7"
proof -
  have ok: "fat_reads_succeed demo_program_fs (\<lambda>f. True)" "fat_open_file demo_program_fs (\<lambda>f. True) id demo_program 260 byte_emu"
    by (auto simp: fat_reads_succeed_def fat_open_file_def fat_file_ok_def demo_program_fs_def byte_fs_def byte_emu_def
        emu_is_native_def DEVICE_FLIPPY_def)
  have "file_bytes demo_program 256 4 = [0x60, 0, 0, 0]" by code_simp
  then obtain s' where s: "load_dol demo_boot_addrs (emu_boot_drive (one_date_hw []) demo_program_fs (\<lambda>e. replicate 16384 0) id) 0 0
      \<lparr>bs_env = byte_emu, bs_mem = (\<lambda>a. 7), bs_dol_hdr = replicate 256 0, bs_header = [], bs_sector = [], bs_iso = []\<rparr> =
      Some (\<lparr>max_addr = 0x80003104, entrypoint = 0x80003100\<rparr>, s')" "mem_read (bs_mem s') 0x80003100 4 = [0x60, 0, 0, 0]"
    "\<forall>a. unat (a - 0x80003100) < 4 \<or> bs_mem s' a = (if unat (a - 0x80003000) < 4 then 0 else 7)"
    using load_dol_places_sections [OF ok(1), where fptr = id and content = demo_program and fsz = 260 and cache_disable = id
        and s = "\<lparr>bs_env = byte_emu, bs_mem = (\<lambda>a. 7), bs_dol_hdr = replicate 256 0, bs_header = [], bs_sector = [], bs_iso = []\<rparr>"
        and buffer = "\<lambda>e. replicate 16384 0" and A = demo_boot_addrs and H = "one_date_hw []" and fd = 0] ok(2)
    by (auto simp: demo_program_header in_file_def program_writes_def ds_used_def in_section_def in_bss_def cong: if_cong)
  then show ?thesis using spec [OF s(3), of "0x80003003"] spec [OF s(3), of "0x80003004"] by auto
qed

end
