(* ===== verification/Spec2Isabelle.thy ===== *)
theory Spec2Isabelle
  imports Checksums StorageProps FileLoad Ini Pcg Settings BnrCache DolBoot IplLoad PmallocProps GameListProps GameMenu IplPatch GameBoot
begin

text \<open>
  The GameCube boot loader cubiboot: what runs before a game is started, as definitions translated
  from its C code, and the theorems that make the parts correct.

  Parts and how they interact. The program cubeboot.dol (src/cubeboot/source) finds a storage
  device, reads its configuration from it, loads and identifies the console's own start program
  (the IPL), patches that program in memory and starts it. The patches (src/patches/source) run
  inside the IPL: they show a menu of the games on the device, with a heap of their own and a cache
  of banners in the auxiliary memory (ARAM), and start what is chosen.

  Theories, from the device upwards:

    \<^item> Prelude: word and list lemmas every theory uses, and their named collections.
    \<^item> Checksums: cubeboot/source/crc32.c and patches/source/crc32.c. Both table-driven sums equal
      their polynomial definition.
    \<^item> Hardware, SectorDriver: the device registers a driver uses, as parameters, and the contract
      of a driver that reads and writes sectors, as locales. GcodeDrv, AtaDrv, TsdDrv:
      emu/gcode.c, emu/ata.c, emu/tsd.c, each shown to meet the contract when its device answers as
      documented. DiskIO: emu/ffs/diskio.c, the dispatch by drive number.
    \<^item> DvmCache, DvmLru, DvmCoherence: emu/ffs/dvm_cache.c, the page cache under FatFs with its
      list of pages by pointer, the list as a recency order, and the invariant that a cached page
      holds what the device holds. Storage, StorageProps: the cache over the drivers, as a step
      relation, and what a read returns in every state reached.
    \<^item> Fdrv: emu/fdrv.c, the FlippyDrive's commands, probe and file calls. FlippyEmu:
      emu/flippy_emu.c, the choice of a device and its file calls. DvdRead: flippy_sync.c, reads of
      any length and alignment. FileLoad: uff.c and sd.c, loading a file as a whole.
    \<^item> Ini, Pcg, Settings: ini.c, pcg_basic.c, helpers.c and settings.c, from the bytes of the
      configuration file to the settings record.
    \<^item> Arq, BnrCache, AramDma: patches/source/decomp_arq.c, decomp_ar.c, the banner ring of
      emu/tweaks.c and boot/ssaram.c. The request queue never starts a transfer while one runs,
      calls every callback, and serves every request; on it the ring is a first-in first-out cache.
    \<^item> DolBoot: boot/sidestep.c and patches/source/dol.c, placing a program image in ARAM.
    \<^item> IplLoad: descrambler.c, ipl.c and the checks of emu/tweaks.c.
    \<^item> MemWrites, IplPatch: the writes to main memory, and with them cubeboot/source/main.c from the
      section loop on and elf.c: which bytes patching the IPL changes, and that the pointers and
      variables of the patches get the values meant for them.
    \<^item> Pmalloc, PmallocProps: patches/source/pmalloc/pmalloc.c, the heap of the menu.
    \<^item> QSort: patches/source/picolibc/qsort.c. The sort with its stack of ranges, on any comparison
      that is a total preorder, returns a sorted permutation.
    \<^item> GameInfo: patches/source/dolphin_dvd.c and the lookup of bnr_offsets.c, recognising a disc
      image. GameAssets, GameWindow: the pictures of games.c, their buffers and transfers, and the
      window of lines around the screen whose pictures are in memory.
    \<^item> GameList: the enumeration thread of games.c: listing and sorting a directory, making the
      entries, staging banners in ARAM, pairing discs, warming the cache, and starting over in
      another directory. GameFiles: every file the thread opens is closed before the next.
      GameListProps: bounds of the list, the areas of ARAM, going up a directory, failing reads.
    \<^item> GameGrid, GameMenu: grid.c and the input handler of menu.c. The invariant ties the selection,
      the top line, the positions of the rows and the pictures in memory to each other, over every
      sequence of frames in one directory.
    \<^item> GameBoot: patches/source/boot.c, iso9660.c, emu/loader.c and the end of bs2start in main.c:
      starting a program, an image or Swiss with its arguments. What is jumped to is the result.
      Loading a program places every section, clears the BSS and changes nothing else.

  How the model corresponds to the code. A C function is a definition of the same name. Its file
  scope variables are a record that is passed in and returned; its pointers are indices, addresses
  or byte lists, as its theory says; machine integers are words of their width. A loop with a
  visible bound is a structural recursion; a loop that waits for a device runs over the device's
  future answers and is a partial function, so that not returning is a value. Devices, FatFs, the
  video code, the interrupt timing and the console's own functions are parameters of the
  definitions that use them; what the theorems need of them is a named hypothesis. The positions
  and alpha values of the grid are 32-bit floats in the code and rational numbers here, so rounding
  is not part of its theorems. The enumeration thread and the menu share their variables under a
  mutex; the thread is modelled as a whole run, each attempt to take the mutex being an answer of
  the environment, and the menu between such runs.

  Bounds. The page cache has the pages its constant gives and every search is bounded by it. The
  queue theorem on callbacks counts the remaining chunks of every request. No fuel is used
  elsewhere: the termination of a loop is a theorem.

  Not modelled: FatFs, the image and text libraries (upng.c, rpl_vsnprintf.c) and the 64-bit
  arithmetic (arith64.c), which are third-party code; the drawing and video code (font.c,
  GRRLIB_pixel.c, metaphrasis.c, video.c and the drawing functions of menu.c), which only writes
  graphics registers; the start-up of libogc and the frame hooks of the two main.c files, which are
  sequences of calls into libogc and the IPL; the assembly stubs; the register-level variants of tsd.c and ata.c that
  are compiled into the patches; the heap shims and PNG stream helpers of games.c.
\<close>

end
